(* ===== verification/Prelude.thy ===== *)
theory Prelude
  imports Main "HOL-Library.Word"
begin

text \<open>
  Shared vocabulary of the Voce development: byte strings, Go results, the small pieces of
  Go's standard library that several components use, and the generic lemmas about them.
  Nothing here models a file of the repository on its own.

  \<^item> \<open>bytes\<close> is a Go \<open>[]byte\<close> seen as a value; \<open>Slices\<close> adds capacities.
  \<^item> \<open>'e + 'a\<close> is the result of a function that returns \<open>(a, error)\<close>.
  \<^item> \<open>add_unique\<close> is the \<open>slices.Contains\<close>/\<open>append\<close> idiom of the routing tables.
  \<^item> \<open>step_system\<close> is the interface of a component seen as a machine over events: a
    start state, a step and an invariant each step keeps; runs then keep it.
\<close>

type_synonym byte = "8 word"
type_synonym bytes = "byte list"
type_synonym 'a result = "string + 'a"

named_theorems inv_intro \<open>introduction rules for component invariants\<close>
named_theorems op_defs \<open>definitions of operations unfolded in case analyses\<close>

section \<open>Lists and options\<close>

definition add_unique :: "'a \<Rightarrow> 'a list \<Rightarrow> 'a list" where
  "add_unique x xs = (if x \<in> set xs then xs else xs @ [x])"

fun first_error :: "('a \<Rightarrow> 'e option) \<Rightarrow> 'a list \<Rightarrow> 'e option" where
  "first_error f [] = None"
| "first_error f (x # xs) = (case f x of Some e \<Rightarrow> Some e | None \<Rightarrow> first_error f xs)"

lemma set_add_unique [simp]: "set (add_unique x xs) = insert x (set xs)"
  by (auto simp: add_unique_def)

lemma distinct_add_unique [simp]: "distinct (add_unique x xs) \<longleftrightarrow> distinct xs"
  by (auto simp: add_unique_def)

lemma add_unique_neq_Nil [simp]: "add_unique x xs \<noteq> []"
  by (auto simp: add_unique_def)

lemma add_unique_mem [simp]: "x \<in> set xs \<Longrightarrow> add_unique x xs = xs"
  by (simp add: add_unique_def)

lemma first_error_None [simp]: "first_error f xs = None \<longleftrightarrow> (\<forall>x\<in>set xs. f x = None)"
  by (induction xs) (auto split: option.splits)

section \<open>Components as machines over events\<close>

locale step_system =
  fixes init :: 's
    and step :: "'e \<Rightarrow> 's \<Rightarrow> 's"
    and inv :: "'s \<Rightarrow> bool"
  assumes inv_init: "inv init"
    and inv_step: "inv s \<Longrightarrow> inv (step e s)"
begin

lemma inv_run: "inv s \<Longrightarrow> inv (fold step es s)"
  by (induction es arbitrary: s) (simp_all add: inv_step)

lemma inv_reachable: "inv (fold step es init)"
  by (rule inv_run) (rule inv_init)

end

end
