(* ===== verification/Slices.thy ===== *)
theory Slices
  imports Prelude
begin

text \<open>
  Go slices with their capacity, and \<open>pkg/buf/buffer.go\<close> on top of them.

  A slice is the backing array from the slice's first element to its capacity, and a
  length. Reslicing (\<open>s[:n]\<close>) changes the length only, so it exposes whatever the array
  still holds; \<open>make\<close> allocates zeroed memory; \<open>copy\<close> overwrites a prefix. \<open>slice_ok\<close>
  says that the length is within the capacity: a reslice that would panic in Go leaves
  it, so preserving \<open>slice_ok\<close> is the absence of that panic.
\<close>

record 'a slice =
  sl_arr :: "'a list"
  sl_len :: nat

definition slice_ok :: "'a slice \<Rightarrow> bool" where
  "slice_ok s \<longleftrightarrow> sl_len s \<le> length (sl_arr s)"

definition cap :: "'a slice \<Rightarrow> nat" where
  "cap s = length (sl_arr s)"

definition contents :: "'a slice \<Rightarrow> 'a list" where
  "contents s = take (sl_len s) (sl_arr s)"

definition nil_slice :: "'a slice" where
  "nil_slice = \<lparr>sl_arr = [], sl_len = 0\<rparr>"

definition make_slice :: "'a \<Rightarrow> nat \<Rightarrow> 'a slice" where
  "make_slice z n = \<lparr>sl_arr = replicate n z, sl_len = n\<rparr>"

definition reslice :: "nat \<Rightarrow> 'a slice \<Rightarrow> 'a slice" where
  "reslice n s = s\<lparr>sl_len := n\<rparr>"

definition copy_into :: "'a slice \<Rightarrow> 'a list \<Rightarrow> 'a slice" where
  "copy_into dst src =
     (let n = min (sl_len dst) (length src)
      in dst\<lparr>sl_arr := take n src @ drop n (sl_arr dst)\<rparr>)"

section \<open>Laws of slices\<close>

lemma cap_simps [simp]:
  "cap nil_slice = 0" "cap (make_slice z n) = n" "cap (reslice n s) = cap s"
  by (simp_all add: cap_def nil_slice_def make_slice_def reslice_def)

lemma cap_copy_into [simp]: "slice_ok dst \<Longrightarrow> cap (copy_into dst src) = cap dst"
  by (simp add: cap_def copy_into_def slice_ok_def Let_def)

lemma slice_ok_simps [simp]:
  "slice_ok nil_slice" "slice_ok (make_slice z n)" "slice_ok (reslice n s) \<longleftrightarrow> n \<le> cap s"
  by (simp_all add: slice_ok_def nil_slice_def make_slice_def reslice_def cap_def)

lemma slice_ok_copy_into [simp]: "slice_ok dst \<Longrightarrow> slice_ok (copy_into dst src)"
  by (simp add: slice_ok_def copy_into_def Let_def)

lemma contents_simps [simp]:
  "contents nil_slice = []" "contents (make_slice z n) = replicate n z" "contents (reslice 0 s) = []"
  by (simp_all add: contents_def nil_slice_def make_slice_def reslice_def)

lemma contents_copy_all [simp]:
  "slice_ok dst \<Longrightarrow> sl_len dst = length src \<Longrightarrow> contents (copy_into dst src) = src"
  by (simp add: contents_def copy_into_def slice_ok_def Let_def)

lemma sl_len_simps [simp]:
  "sl_len nil_slice = 0" "sl_len (make_slice z n) = n" "sl_len (reslice n s) = n"
  "sl_len (copy_into dst src) = sl_len dst"
  by (simp_all add: nil_slice_def make_slice_def reslice_def copy_into_def Let_def)

lemma length_contents [simp]: "slice_ok s \<Longrightarrow> length (contents s) = sl_len s"
  by (simp add: contents_def slice_ok_def)

section \<open>Assigning through a reused buffer\<close>

text \<open>
  The grow-or-reslice idiom shared by \<open>Buffer.Set\<close>, \<open>Packet.SetPayload\<close>,
  \<open>builtinAudio.SetBytes\<close> and \<open>builtinVideo.setData\<close>: allocate when the capacity is too
  small, reslice otherwise, then copy. Each of those operations is written out from its
  own source below and in its component; this is the shape their lemmas share.
\<close>

definition fit_slice :: "'a \<Rightarrow> 'a slice \<Rightarrow> nat \<Rightarrow> 'a slice" where
  "fit_slice z s n = (if cap s < n then make_slice z n else reslice n s)"

lemma fit_slice_ok [simp]: "slice_ok (fit_slice z s n)"
  by (simp add: fit_slice_def)

lemma sl_len_fit_slice [simp]: "sl_len (fit_slice z s n) = n"
  by (simp add: fit_slice_def)

lemma cap_fit_slice: "cap (fit_slice z s n) = max (cap s) n"
  by (simp add: fit_slice_def)

lemma contents_fit_copy [simp]: "contents (copy_into (fit_slice z s (length src)) src) = src"
  by (rule contents_copy_all) simp_all

section \<open>pkg/buf: Buffer\<close>

record Buffer =
  Buf :: "byte slice"
  RecycleCap :: int

definition Buffer_Set :: "bytes \<Rightarrow> Buffer \<Rightarrow> Buffer" where
  "Buffer_Set payload b =
     (let required = length payload
      in if required = 0 then b
         else b\<lparr>Buf := copy_into (if cap (Buf b) < required then make_slice 0 required
                                 else reslice required (Buf b)) payload\<rparr>)"

definition Buffer_Recycle :: "Buffer \<Rightarrow> Buffer" where
  "Buffer_Recycle b =
     (if RecycleCap b > 0 \<and> int (cap (Buf b)) > RecycleCap b then b\<lparr>Buf := nil_slice\<rparr>
      else b\<lparr>Buf := reslice 0 (Buf b)\<rparr>)"

definition buf_Clone :: "'a \<Rightarrow> 'a list \<Rightarrow> 'a slice" where
  "buf_Clone zero src = copy_into (make_slice zero (length src)) src"

lemma contents_buf_Clone [simp]: "contents (buf_Clone z src) = src"
  by (simp add: buf_Clone_def)

lemma Buffer_Set_ok: "slice_ok (Buf b) \<Longrightarrow> slice_ok (Buf (Buffer_Set p b))"
  by (simp add: Buffer_Set_def Let_def)

lemma contents_Buffer_Set:
  "contents (Buf (Buffer_Set p b)) = (if p = [] then contents (Buf b) else p)"
  using contents_fit_copy [of 0 "Buf b" p] by (simp add: Buffer_Set_def Let_def fit_slice_def)

lemma Buffer_Recycle_empty: "contents (Buf (Buffer_Recycle b)) = []"
  by (simp add: Buffer_Recycle_def)

lemma Buffer_Recycle_cap:
  "RecycleCap b > 0 \<Longrightarrow> int (cap (Buf (Buffer_Recycle b))) \<le> RecycleCap b"
  by (simp add: Buffer_Recycle_def)

end
