(* ===== verification/Pool.thy ===== *)
theory Pool
  imports Prelude
begin

text \<open>
  \<open>pkg/pool/pool.go\<close>: a typed wrapper around \<open>sync.Pool\<close>.

  The pool is the list of parked objects. \<open>sync.Pool\<close> promises only that \<open>Get\<close> returns
  some parked object or a new one, so \<open>Acquire\<close> takes the choice as a parameter \<open>pick\<close>
  (\<open>None\<close>: a new object; also when the index names no object). \<open>Release\<close> recycles the
  object before parking it.

  The locale \<open>recycler\<close> is the contract between a pooled type and its users: the factory
  and \<open>Recycle\<close> both produce a blank object. Each pooled type of the repository
  interprets it on its own \<open>Recycle\<close>.
\<close>

type_synonym 'a typed_pool = "'a list"

definition Pool_Acquire :: "'a \<Rightarrow> nat option \<Rightarrow> 'a typed_pool \<Rightarrow> 'a \<times> 'a typed_pool" where
  "Pool_Acquire fresh pick p =
     (case pick of
        Some i \<Rightarrow> if i < length p then (p ! i, take i p @ drop (Suc i) p) else (fresh, p)
      | None \<Rightarrow> (fresh, p))"

definition Pool_Release :: "('a \<Rightarrow> 'a) \<Rightarrow> 'a \<Rightarrow> 'a typed_pool \<Rightarrow> 'a typed_pool" where
  "Pool_Release recycle v p = recycle v # p"

datatype 'a pool_op = PAcquire "nat option" | PRelease 'a

fun pool_step :: "'a \<Rightarrow> ('a \<Rightarrow> 'a) \<Rightarrow> 'a pool_op \<Rightarrow> 'a typed_pool \<Rightarrow> 'a typed_pool" where
  "pool_step fresh recycle (PAcquire pick) p = snd (Pool_Acquire fresh pick p)"
| "pool_step fresh recycle (PRelease v) p = Pool_Release recycle v p"

locale recycler =
  fixes fresh :: 'a
    and recycle :: "'a \<Rightarrow> 'a"
    and blank :: "'a \<Rightarrow> bool"
  assumes blank_fresh: "blank fresh"
    and blank_recycle: "blank (recycle x)"
begin

definition all_blank :: "'a typed_pool \<Rightarrow> bool" where
  "all_blank p \<longleftrightarrow> (\<forall>x\<in>set p. blank x)"

lemma acquire_blank: "all_blank p \<Longrightarrow> blank (fst (Pool_Acquire fresh pick p))"
  by (auto simp: Pool_Acquire_def all_blank_def blank_fresh split: option.splits)

lemma acquire_all_blank: "all_blank p \<Longrightarrow> all_blank (snd (Pool_Acquire fresh pick p))"
  by (auto simp: Pool_Acquire_def all_blank_def dest: in_set_takeD in_set_dropD split: option.splits)

lemma release_all_blank: "all_blank p \<Longrightarrow> all_blank (Pool_Release recycle v p)"
  by (simp add: Pool_Release_def all_blank_def blank_recycle)

end

sublocale recycler \<subseteq> step_system "[]" "pool_step fresh recycle" all_blank
proof unfold_locales
  show "all_blank []" by (simp add: all_blank_def)
  show "all_blank (pool_step fresh recycle e s)" if "all_blank s" for s e
    using that by (cases e) (simp_all add: acquire_all_blank release_all_blank)
qed

context recycler begin

lemma acquired_blank: "blank (fst (Pool_Acquire fresh pick (fold (pool_step fresh recycle) ops [])))"
  by (rule acquire_blank) (rule inv_reachable)

end

end
