(* ===== verification/Packet.thy ===== *)
theory Packet
  imports Slices Pool
begin

unbundle bit_operations_syntax

text \<open>
  \<open>internal/protocol\<close>: the packet codec (\<open>packet.go\<close>) and the session key and connection
  states (\<open>types.go\<close>).

  A packet is eight header bytes (two magic bytes, type, encoding, big-endian payload
  size) and a payload. \<open>Unmarshal\<close> and \<open>UnmarshalHeader\<close> write the header fields of the
  receiver before they compare sizes, so both return the receiver with the error.
  Packet types and encodings are bytes, as in the source: any byte is carried.
\<close>

section \<open>Types and constants\<close>

abbreviation (input) PacketHeaderSize :: nat where "PacketHeaderSize \<equiv> 8"
abbreviation (input) MagicNumber1 :: byte where "MagicNumber1 \<equiv> 0x56"
abbreviation (input) MagicNumber2 :: byte where "MagicNumber2 \<equiv> 0x43"
abbreviation (input) EncodeRaw :: byte where "EncodeRaw \<equiv> 0x00"
abbreviation (input) EncodeJSON :: byte where "EncodeJSON \<equiv> 0x01"
abbreviation (input) TypeAudio :: byte where "TypeAudio \<equiv> 0x01"
abbreviation (input) TypeError :: byte where "TypeError \<equiv> 0x02"
abbreviation (input) TypeText :: byte where "TypeText \<equiv> 0x03"
abbreviation (input) TypeClose :: byte where "TypeClose \<equiv> 0x04"
abbreviation (input) TypePause :: byte where "TypePause \<equiv> 0x05"
abbreviation (input) TypeResume :: byte where "TypeResume \<equiv> 0x06"
abbreviation (input) TypeInterrupter :: byte where "TypeInterrupter \<equiv> 0x11"
abbreviation (input) TypeCaption :: byte where "TypeCaption \<equiv> 0x12"
abbreviation (input) TypeUserSpeechStart :: byte where "TypeUserSpeechStart \<equiv> 0x13"
abbreviation (input) TypeUserSpeechEnd :: byte where "TypeUserSpeechEnd \<equiv> 0x14"
abbreviation (input) TypeAgentSpeechStart :: byte where "TypeAgentSpeechStart \<equiv> 0x15"
abbreviation (input) TypeAgentSpeechEnd :: byte where "TypeAgentSpeechEnd \<equiv> 0x16"

definition PacketType_String :: "byte \<Rightarrow> string" where
  "PacketType_String t =
     (if t = TypeAudio then ''audio'' else if t = TypeError then ''error''
      else if t = TypeText then ''text'' else if t = TypeClose then ''close''
      else if t = TypePause then ''pause'' else if t = TypeResume then ''resume''
      else if t = TypeInterrupter then ''interrupter'' else if t = TypeCaption then ''caption''
      else if t = TypeUserSpeechStart then ''user_speech_start''
      else if t = TypeUserSpeechEnd then ''user_speech_end''
      else if t = TypeAgentSpeechStart then ''agent_speech_start''
      else if t = TypeAgentSpeechEnd then ''agent_speech_end'' else ''unknown'')"

definition PacketEncode_String :: "byte \<Rightarrow> string" where
  "PacketEncode_String e =
     (if e = EncodeRaw then ''raw'' else if e = EncodeJSON then ''json'' else ''unknown'')"

datatype packet_error = ErrInvalidHeader | ErrMagicMismatch | ErrPayloadMismatch

record Packet =
  pk_Type :: byte
  pk_Encode :: byte
  pk_Size :: "32 word"
  pk_Payload :: "byte slice"
  pk_header :: "byte list"

definition new_packet :: Packet where
  "new_packet = \<lparr>pk_Type = 0, pk_Encode = 0, pk_Size = 0, pk_Payload = nil_slice,
                 pk_header = replicate PacketHeaderSize 0\<rparr>"

section \<open>Big-endian words\<close>

definition PutUint32 :: "32 word \<Rightarrow> bytes" where
  "PutUint32 v = [ucast (drop_bit 24 v), ucast (drop_bit 16 v), ucast (drop_bit 8 v), ucast v]"

fun Uint32 :: "bytes \<Rightarrow> 32 word" where
  "Uint32 [a, b, c, d] =
     ucast d OR push_bit 8 (ucast c) OR push_bit 16 (ucast b) OR push_bit 24 (ucast a)"
| "Uint32 _ = 0"

section \<open>Packets\<close>

definition Packet_Recycle :: "Packet \<Rightarrow> Packet" where
  "Packet_Recycle p =
     p\<lparr>pk_Type := 0x00, pk_Encode := EncodeRaw, pk_Size := 0,
       pk_Payload := (if cap (pk_Payload p) \<le> 64 * 1024 then reslice 0 (pk_Payload p) else nil_slice),
       pk_header := replicate PacketHeaderSize 0\<rparr>"

definition SetPayload :: "bytes \<Rightarrow> Packet \<Rightarrow> Packet" where
  "SetPayload data p =
     (let required = length data in
      if required = 0 then p\<lparr>pk_Payload := reslice 0 (pk_Payload p), pk_Size := 0\<rparr>
      else
        let buf = (if cap (pk_Payload p) < required then make_slice 0 required else pk_Payload p)
        in p\<lparr>pk_Payload := copy_into (reslice required buf) data, pk_Size := word_of_nat required\<rparr>)"

definition Packet_Header :: "Packet \<Rightarrow> bytes \<times> Packet" where
  "Packet_Header p =
     (let h = [MagicNumber1, MagicNumber2, pk_Type p, pk_Encode p] @ PutUint32 (pk_Size p)
      in (h, p\<lparr>pk_header := h\<rparr>))"

definition Marshal :: "Packet \<Rightarrow> bytes \<times> Packet" where
  "Marshal p =
     (case Packet_Header p of (header, p') \<Rightarrow>
        let size = sl_len (pk_Payload p'); result = make_slice 0 (PacketHeaderSize + size)
        in (take PacketHeaderSize (contents (copy_into result header))
              @ contents (copy_into (make_slice 0 size) (contents (pk_Payload p'))), p'))"

definition Unmarshal :: "bytes \<Rightarrow> Packet \<Rightarrow> Packet \<times> packet_error option" where
  "Unmarshal content p =
     (if length content < PacketHeaderSize then (p, Some ErrInvalidHeader)
      else if content ! 0 \<noteq> MagicNumber1 \<or> content ! 1 \<noteq> MagicNumber2 then (p, Some ErrMagicMismatch)
      else
        let p1 = p\<lparr>pk_Type := content ! 2, pk_Encode := content ! 3,
                   pk_Size := Uint32 (take 4 (drop 4 content))\<rparr>;
            size = length (drop PacketHeaderSize content)
        in if unat (pk_Size p1) \<noteq> size then (p1, Some ErrPayloadMismatch)
           else (SetPayload (drop PacketHeaderSize content) p1, None))"

definition UnmarshalHeader :: "bytes \<Rightarrow> Packet \<Rightarrow> Packet \<times> packet_error option" where
  "UnmarshalHeader content p =
     (if length content < PacketHeaderSize then (p, Some ErrInvalidHeader)
      else if content ! 0 \<noteq> MagicNumber1 \<or> content ! 1 \<noteq> MagicNumber2 then (p, Some ErrMagicMismatch)
      else
        let p1 = p\<lparr>pk_Type := content ! 2, pk_Encode := content ! 3,
                   pk_Size := Uint32 (take 4 (drop 4 content))\<rparr>
        in if unat (pk_Size p1) \<noteq> length content - PacketHeaderSize
           then (p1, Some ErrPayloadMismatch) else (p1, None))"

section \<open>Session keys and connection states\<close>

abbreviation (input) SessionKeySize :: nat where "SessionKeySize \<equiv> 16"

type_synonym SessionKey = bytes

text \<open>\<open>uuid.Parse\<close> is third-party code: a parameter.\<close>

definition ParseSessionKey :: "(string \<Rightarrow> 'e + bytes) \<Rightarrow> string \<Rightarrow> SessionKey \<times> 'e option" where
  "ParseSessionKey uuid_parse ident =
     (case uuid_parse ident of
        Inl e \<Rightarrow> (replicate SessionKeySize 0, Some e)
      | Inr u \<Rightarrow> (take SessionKeySize u @ drop (length u) (replicate SessionKeySize 0), None))"

datatype ConnectionState = ConnectionUnknown | ConnectionActive | ConnectionConnecting | ConnectionClosed

fun ConnectionState_String :: "ConnectionState \<Rightarrow> string" where
  "ConnectionState_String ConnectionActive = ''active''"
| "ConnectionState_String ConnectionConnecting = ''connecting''"
| "ConnectionState_String ConnectionClosed = ''closed''"
| "ConnectionState_String ConnectionUnknown = ''unknown''"

section \<open>Laws of the codec\<close>

lemma length_PutUint32 [simp]: "length (PutUint32 v) = 4"
  by (simp add: PutUint32_def)

lemma Uint32_PutUint32 [simp]: "Uint32 (PutUint32 v) = v"
proof (rule bit_word_eqI)
  fix n assume "n < LENGTH(32)"
  then consider "n < 8" | "8 \<le> n" "n < 16" | "16 \<le> n" "n < 24" | "24 \<le> n" "n < 32" by fastforce
  then show "bit (Uint32 (PutUint32 v)) n = bit v n"
    by cases (auto simp: PutUint32_def bit_simps)
qed

lemma PutUint32_Uint32: "length bs = 4 \<Longrightarrow> PutUint32 (Uint32 bs) = bs"
proof -
  assume "length bs = 4"
  then obtain a b c d where bs: "bs = [a, b, c, d]"
    by (auto simp: numeral_eq_Suc length_Suc_conv)
  have "ucast (drop_bit 24 (Uint32 bs)) = a" "ucast (drop_bit 16 (Uint32 bs)) = b"
    "ucast (drop_bit 8 (Uint32 bs)) = c" "ucast (Uint32 bs) = d"
    by (rule bit_word_eqI; auto simp: bs bit_simps dest: bit_imp_le_length)+
  then show ?thesis by (simp add: PutUint32_def bs)
qed

lemma SetPayload_simps [simp]:
  "pk_Type (SetPayload d p) = pk_Type p" "pk_Encode (SetPayload d p) = pk_Encode p"
  "pk_Size (SetPayload d p) = word_of_nat (length d)" "contents (pk_Payload (SetPayload d p)) = d"
  by (auto simp: SetPayload_def Let_def)

lemma SetPayload_slice_ok [simp]: "slice_ok (pk_Payload (SetPayload d p))"
  by (auto simp: SetPayload_def Let_def)

lemma Marshal_eq:
  "slice_ok (pk_Payload p) \<Longrightarrow>
     fst (Marshal p) = [MagicNumber1, MagicNumber2, pk_Type p, pk_Encode p] @ PutUint32 (pk_Size p)
       @ contents (pk_Payload p)"
  by (simp add: Marshal_def Packet_Header_def Let_def contents_def copy_into_def make_slice_def
      slice_ok_def min_absorb2)

definition packet_wf :: "bytes \<Rightarrow> bool" where
  "packet_wf c \<longleftrightarrow>
     PacketHeaderSize \<le> length c \<and> c ! 0 = MagicNumber1 \<and> c ! 1 = MagicNumber2 \<and>
     unat (Uint32 (take 4 (drop 4 c))) = length c - PacketHeaderSize"

lemma Unmarshal_ok_iff: "snd (Unmarshal c p) = None \<longleftrightarrow> packet_wf c"
  by (auto simp: Unmarshal_def packet_wf_def Let_def)

lemma UnmarshalHeader_eq:
  "UnmarshalHeader c p =
     (let q = p\<lparr>pk_Type := c ! 2, pk_Encode := c ! 3, pk_Size := Uint32 (take 4 (drop 4 c))\<rparr>
      in case snd (Unmarshal c p) of
           None \<Rightarrow> (q, None)
         | Some ErrPayloadMismatch \<Rightarrow> (q, Some ErrPayloadMismatch)
         | Some e \<Rightarrow> (p, Some e))"
  by (simp add: UnmarshalHeader_def Unmarshal_def Let_def)

lemma UnmarshalHeader_ok_iff: "snd (UnmarshalHeader c p) = None \<longleftrightarrow> packet_wf c"
  using Unmarshal_ok_iff [of c p]
  by (auto simp add: UnmarshalHeader_eq Let_def split: option.splits packet_error.splits)

lemma Unmarshal_fields:
  assumes "packet_wf c" and q_eq: "q = fst (Unmarshal c p)"
  shows "pk_Type q = c ! 2" "pk_Encode q = c ! 3" "contents (pk_Payload q) = drop 8 c"
    "slice_ok (pk_Payload q)" "pk_Size q = Uint32 (take 4 (drop 4 c))"
proof -
  have sz: "unat (Uint32 (take 4 (drop 4 c))) = length c - 8" "8 \<le> length c"
    using assms(1) by (auto simp: packet_wf_def)
  have q: "q = SetPayload (drop 8 c)
      (p\<lparr>pk_Type := c ! 2, pk_Encode := c ! 3, pk_Size := Uint32 (take 4 (drop 4 c))\<rparr>)"
    using assms(1) by (auto simp: q_eq Unmarshal_def packet_wf_def Let_def)
  from q show "pk_Type q = c ! 2" "pk_Encode q = c ! 3" "contents (pk_Payload q) = drop 8 c"
    "slice_ok (pk_Payload q)" by simp_all
  from sz have "word_of_nat (length c - 8) = Uint32 (take 4 (drop 4 c))"
    by (metis of_nat_unat ucast_id)
  with q show "pk_Size q = Uint32 (take 4 (drop 4 c))" by simp
qed

lemma header_split:
  assumes "8 \<le> length c"
  shows "c = [c ! 0, c ! 1, c ! 2, c ! 3] @ take 4 (drop 4 c) @ drop 8 c"
proof -
  have "c = take 4 c @ take 4 (drop 4 c) @ drop 8 c"
    by (metis append_take_drop_id drop_drop numeral_Bit0)
  moreover have "take 4 c = [c ! 0, c ! 1, c ! 2, c ! 3]"
    using assms by (intro nth_equalityI) (auto simp: numeral_eq_Suc less_Suc_eq)
  ultimately show ?thesis by simp
qed

lemma packet_wf_Marshal:
  assumes "slice_ok (pk_Payload p)"
  shows "packet_wf (fst (Marshal p)) \<longleftrightarrow> unat (pk_Size p) = sl_len (pk_Payload p)"
  using assms by (simp add: packet_wf_def Marshal_eq)

lemma Marshal_fields:
  assumes "slice_ok (pk_Payload p)"
  shows "fst (Marshal p) ! 2 = pk_Type p" "fst (Marshal p) ! 3 = pk_Encode p"
    "take 4 (drop 4 (fst (Marshal p))) = PutUint32 (pk_Size p)"
    "drop 8 (fst (Marshal p)) = contents (pk_Payload p)"
  using assms by (simp_all add: Marshal_eq numeral_eq_Suc)

lemma Unmarshal_error:
  "packet_wf c \<or> snd (Unmarshal c p) =
     Some (if length c < 8 then ErrInvalidHeader
           else if c ! 0 \<noteq> MagicNumber1 \<or> c ! 1 \<noteq> MagicNumber2 then ErrMagicMismatch
           else ErrPayloadMismatch)"
  by (auto simp: Unmarshal_def packet_wf_def Let_def)

section \<open>The packet pool\<close>

definition packet_blank :: "Packet \<Rightarrow> bool" where
  "packet_blank p \<longleftrightarrow>
     pk_Type p = 0 \<and> pk_Encode p = EncodeRaw \<and> pk_Size p = 0 \<and> contents (pk_Payload p) = [] \<and>
     slice_ok (pk_Payload p) \<and> cap (pk_Payload p) \<le> 64 * 1024 \<and>
     pk_header p = replicate PacketHeaderSize 0"

interpretation packets: recycler new_packet Packet_Recycle packet_blank
  by unfold_locales (simp_all add: packet_blank_def new_packet_def Packet_Recycle_def)

definition AcquirePacket :: "nat option \<Rightarrow> Packet typed_pool \<Rightarrow> Packet \<times> Packet typed_pool" where
  "AcquirePacket = Pool_Acquire new_packet"

definition ReleasePacket :: "Packet \<Rightarrow> Packet typed_pool \<Rightarrow> Packet typed_pool" where
  "ReleasePacket = Pool_Release Packet_Recycle"

section \<open>Properties\<close>

text \<open>
  C20. Packet round trip: unmarshalling the bytes of a marshalled packet into any packet
  succeeds and restores type, encoding, size and payload when the packet's size field is
  the length of its payload, and is refused as a payload mismatch otherwise.
\<close>

theorem packet_roundtrip:
  assumes "slice_ok (pk_Payload p)" and "r = Unmarshal (fst (Marshal p)) q"
  shows "if unat (pk_Size p) = sl_len (pk_Payload p)
         then snd r = None \<and> pk_Type (fst r) = pk_Type p \<and> pk_Encode (fst r) = pk_Encode p \<and>
              pk_Size (fst r) = pk_Size p \<and> contents (pk_Payload (fst r)) = contents (pk_Payload p)
         else snd r = Some ErrPayloadMismatch"
proof (cases "unat (pk_Size p) = sl_len (pk_Payload p)")
  case True
  then have wf: "packet_wf (fst (Marshal p))" using assms(1) by (simp add: packet_wf_Marshal)
  with assms(2) have "snd r = None" by (simp add: Unmarshal_ok_iff)
  with True show ?thesis
    using Unmarshal_fields [OF wf, of "fst r" q] assms(2) Marshal_fields [OF assms(1)] by simp
next
  case False
  then show ?thesis
    using Unmarshal_error [of "fst (Marshal p)" q] assms
    by (simp add: packet_wf_Marshal) (simp add: Marshal_eq)
qed

definition sample_packet :: Packet where
  "sample_packet = SetPayload [1, 2, 3] (new_packet\<lparr>pk_Type := TypeText, pk_Encode := EncodeJSON\<rparr>)"

theorem packet_roundtrip_witness:
  "snd (Unmarshal (fst (Marshal sample_packet)) new_packet) = None \<and>
   contents (pk_Payload (fst (Unmarshal (fst (Marshal sample_packet)) new_packet))) = [1, 2, 3]"
proof -
  have ok: "slice_ok (pk_Payload sample_packet)" by (simp add: sample_packet_def)
  have len: "sl_len (pk_Payload sample_packet) = 3"
    using length_contents [OF ok] by (simp add: sample_packet_def)
  show ?thesis
    using packet_roundtrip [OF ok refl, of new_packet] len by (simp add: sample_packet_def)
qed

text \<open>
  C21. Unmarshalling is injective on what it accepts: content is accepted exactly when it
  has the two magic bytes and a size field equal to the bytes after the header, and
  marshalling the parsed packet gives the content back, byte for byte.
\<close>

theorem unmarshal_marshal:
  "(snd (Unmarshal c p) = None \<longleftrightarrow> packet_wf c) \<and>
   (packet_wf c \<longrightarrow> fst (Marshal (fst (Unmarshal c p))) = c)"
proof (intro conjI impI)
  assume wf: "packet_wf c"
  then have len: "8 \<le> length c" by (simp add: packet_wf_def)
  note f = Unmarshal_fields [OF wf refl, of p]
  have "PutUint32 (Uint32 (take 4 (drop 4 c))) = take 4 (drop 4 c)"
    using len by (intro PutUint32_Uint32) simp
  moreover have "c ! 0 = MagicNumber1" "c ! 1 = MagicNumber2" using wf by (simp_all add: packet_wf_def)
  ultimately show "fst (Marshal (fst (Unmarshal c p))) = c"
    using header_split [OF len] f by (simp add: Marshal_eq)
qed (simp add: Unmarshal_ok_iff)

theorem unmarshal_marshal_witness:
  "packet_wf [0x56, 0x43, 1, 0, 0, 0, 0, 2, 10, 20] \<and>
   fst (Marshal (fst (Unmarshal [0x56, 0x43, 1, 0, 0, 0, 0, 2, 10, 20] new_packet)))
     = [0x56, 0x43, 1, 0, 0, 0, 0, 2, 10, 20]"
proof -
  have "packet_wf [0x56, 0x43, 1, 0, 0, 0, 0, 2, 10, 20]" by (simp add: packet_wf_def)
  with unmarshal_marshal [of "[0x56, 0x43, 1, 0, 0, 0, 0, 2, 10, 20]" new_packet] show ?thesis by blast
qed

text \<open>
  C22. \<open>SetPayload\<close> keeps the size field honest up to the 32-bit field: the payload reads
  back as the data, and the marshalled packet is accepted by \<open>Unmarshal\<close> exactly when the
  data is shorter than \<open>2 ^ 32\<close> bytes (above that the size field wraps around).
\<close>

theorem set_payload_size:
  "contents (pk_Payload (SetPayload d p)) = d \<and>
   unat (pk_Size (SetPayload d p)) = length d mod 2 ^ 32 \<and>
   (snd (Unmarshal (fst (Marshal (SetPayload d p))) q) = None \<longleftrightarrow> length d < 2 ^ 32)"
proof -
  have sz: "unat (pk_Size (SetPayload d p)) = length d mod 2 ^ 32" by (simp add: unat_of_nat)
  have "sl_len (pk_Payload (SetPayload d p)) = length d"
    using length_contents [OF SetPayload_slice_ok, of d p] by simp
  with sz have "unat (pk_Size (SetPayload d p)) = sl_len (pk_Payload (SetPayload d p)) \<longleftrightarrow> length d < 2 ^ 32"
    by (metis mod_less mod_less_divisor zero_less_numeral zero_less_power)
  with sz show ?thesis by (simp add: Unmarshal_ok_iff packet_wf_Marshal)
qed

text \<open>
  A packet taken from the pool never carries data of its previous use: after any
  sequence of acquisitions and releases, \<open>AcquirePacket\<close> returns a packet with zero type,
  raw encoding, zero size, empty payload and zeroed header, whose retained buffer is at
  most 64 KiB.
\<close>

theorem acquired_packet_blank:
  "packet_blank (fst (AcquirePacket pick (fold (pool_step new_packet Packet_Recycle) ops [])))"
  unfolding AcquirePacket_def by (rule packets.acquired_blank)

end
