(* ===== verification/Contract.thy ===== *)
theory Contract
  imports Prelude
begin

text \<open>
  \<open>internal/engine/property.go\<close>: the contracts that plugins declare and that the graph
  builder checks on every edge, and the fluent builder of contract declarations.

  Property types are strings, as in the source; the empty string is \<open>TypeAny\<close>. The error
  values keep what each message reports.
\<close>

abbreviation (input) PrefixSignal :: string where "PrefixSignal \<equiv> ''signal''"
abbreviation (input) PrefixPayload :: string where "PrefixPayload \<equiv> ''data''"
abbreviation (input) PrefixAudio :: string where "PrefixAudio \<equiv> ''audio''"
abbreviation (input) TypeAny :: string where "TypeAny \<equiv> ''''"

record Field =
  f_Key :: string
  f_Type :: string
  f_Required :: bool

record Property =
  pr_Prefix :: string
  pr_Name :: string
  pr_Fields :: "Field list"

datatype contract_error =
    PrefixMismatch string string
  | NameMismatch string string
  | FieldMissing string
  | FieldTypeMismatch string string string
  | FieldOnlyOptional string
  | NotProduced string
  | Violation string contract_error
  | NoneRecognized string

definition Property_String :: "Property \<Rightarrow> string" where
  "Property_String p = pr_Prefix p @ '':'' @ pr_Name p"

section \<open>ValidateProperty\<close>

definition index_fields :: "Field list \<Rightarrow> (string \<rightharpoonup> Field)" where
  "index_fields fs = fold (\<lambda>f m. m(f_Key f \<mapsto> f)) fs Map.empty"

fun check_fields :: "(string \<rightharpoonup> Field) \<Rightarrow> Field list \<Rightarrow> contract_error option" where
  "check_fields up [] = None"
| "check_fields up (df # dfs) =
     (if \<not> f_Required df then check_fields up dfs
      else case up (f_Key df) of
             None \<Rightarrow> Some (FieldMissing (f_Key df))
           | Some uf \<Rightarrow>
               if f_Type df \<noteq> TypeAny \<and> f_Type uf \<noteq> f_Type df
               then Some (FieldTypeMismatch (f_Key df) (f_Type uf) (f_Type df))
               else if \<not> f_Required uf then Some (FieldOnlyOptional (f_Key df))
               else check_fields up dfs)"

definition ValidateProperty :: "Property \<Rightarrow> Property \<Rightarrow> contract_error option" where
  "ValidateProperty upstream downstream =
     (if pr_Prefix upstream \<noteq> pr_Prefix downstream
      then Some (PrefixMismatch (pr_Prefix upstream) (pr_Prefix downstream))
      else if pr_Name downstream \<noteq> '''' \<and> pr_Name upstream \<noteq> pr_Name downstream
      then Some (NameMismatch (pr_Name upstream) (pr_Name downstream))
      else if pr_Fields downstream = [] then None
      else check_fields (index_fields (pr_Fields upstream)) (pr_Fields downstream))"

section \<open>ValidateProperties\<close>

definition downs_by_name :: "Property list \<Rightarrow> (string \<rightharpoonup> Property)" where
  "downs_by_name ds = fold (\<lambda>d m. if pr_Name d \<noteq> '''' then m(Property_String d \<mapsto> d) else m) ds Map.empty"

fun first_wildcard :: "Property list \<Rightarrow> Property option" where
  "first_wildcard [] = None"
| "first_wildcard (d # ds) = (if pr_Name d = '''' then Some d else first_wildcard ds)"

definition matched_down :: "(string \<rightharpoonup> Property) \<Rightarrow> Property list \<Rightarrow> Property \<Rightarrow> Property option" where
  "matched_down byName wildcards up =
     (case byName (Property_String up) of Some d \<Rightarrow> Some d | None \<Rightarrow> first_wildcard wildcards)"

fun check_ups :: "(Property \<Rightarrow> Property option) \<Rightarrow> bool \<Rightarrow> Property list \<Rightarrow> contract_error + bool" where
  "check_ups matched hit [] = Inr hit"
| "check_ups matched hit (up # ups) =
     (case matched up of
        None \<Rightarrow> check_ups matched hit ups
      | Some d \<Rightarrow>
          (case ValidateProperty up d of
             Some e \<Rightarrow> Inl (Violation (Property_String up) e)
           | None \<Rightarrow> check_ups matched True ups))"

definition ValidateProperties :: "Property list \<Rightarrow> Property list \<Rightarrow> string \<Rightarrow> contract_error option" where
  "ValidateProperties upstreams downstreams prefix =
     (let filteredUps = filter (\<lambda>p. pr_Prefix p = prefix) upstreams;
          filteredDowns = filter (\<lambda>p. pr_Prefix p = prefix) downstreams
      in if filteredDowns = [] then None
         else if filteredUps = [] then Some (NotProduced prefix)
         else case check_ups (matched_down (downs_by_name filteredDowns)
                               (filter (\<lambda>d. pr_Name d = '''') filteredDowns)) False filteredUps of
                Inl e \<Rightarrow> Some e
              | Inr hasAnyHit \<Rightarrow> if hasAnyHit then None else Some (NoneRecognized prefix))"

section \<open>PropertyBuilder\<close>

record PropertyBuilder =
  pb_properties :: "Property list"
  pb_index :: "string \<rightharpoonup> nat"

definition NewPropertyBuilder :: PropertyBuilder where
  "NewPropertyBuilder = \<lparr>pb_properties = [], pb_index = Map.empty\<rparr>"

definition ensureProperty :: "string \<Rightarrow> string \<Rightarrow> PropertyBuilder \<Rightarrow> nat \<times> PropertyBuilder" where
  "ensureProperty prefix name b =
     (let k = prefix @ '':'' @ name
      in case pb_index b k of
           Some idx \<Rightarrow> (idx, b)
         | None \<Rightarrow>
             (let idx = length (pb_properties b)
              in (idx, b\<lparr>pb_properties := pb_properties b @ [\<lparr>pr_Prefix = prefix, pr_Name = name, pr_Fields = []\<rparr>],
                         pb_index := (pb_index b)(k \<mapsto> idx)\<rparr>)))"

definition addField :: "string \<Rightarrow> string \<Rightarrow> string \<Rightarrow> string \<Rightarrow> bool \<Rightarrow> PropertyBuilder \<Rightarrow> PropertyBuilder" where
  "addField prefix name key tp req b =
     (case ensureProperty prefix name b of
        (idx, b') \<Rightarrow>
          b'\<lparr>pb_properties := (pb_properties b')[idx := (pb_properties b' ! idx)
               \<lparr>pr_Fields := pr_Fields (pb_properties b' ! idx) @ [\<lparr>f_Key = key, f_Type = tp, f_Required = req\<rparr>]\<rparr>]\<rparr>)"

definition AddSignalEvent :: "string \<Rightarrow> PropertyBuilder \<Rightarrow> PropertyBuilder" where
  "AddSignalEvent name b = snd (ensureProperty PrefixSignal name b)"

definition AddSignal :: "string \<Rightarrow> string \<Rightarrow> string \<Rightarrow> bool \<Rightarrow> PropertyBuilder \<Rightarrow> PropertyBuilder" where
  "AddSignal name key tp req b = addField PrefixSignal name key tp req b"

definition AddPayload :: "string \<Rightarrow> string \<Rightarrow> string \<Rightarrow> bool \<Rightarrow> PropertyBuilder \<Rightarrow> PropertyBuilder" where
  "AddPayload name key tp req b = addField PrefixPayload name key tp req b"

definition AddAudio :: "string \<Rightarrow> string \<Rightarrow> string \<Rightarrow> bool \<Rightarrow> PropertyBuilder \<Rightarrow> PropertyBuilder" where
  "AddAudio name key tp req b = addField PrefixAudio name key tp req b"

definition AddWildSignal :: "string \<Rightarrow> string \<Rightarrow> bool \<Rightarrow> PropertyBuilder \<Rightarrow> PropertyBuilder" where
  "AddWildSignal key tp req b = addField PrefixSignal '''' key tp req b"

definition AddWildPayload :: "string \<Rightarrow> string \<Rightarrow> bool \<Rightarrow> PropertyBuilder \<Rightarrow> PropertyBuilder" where
  "AddWildPayload key tp req b = addField PrefixPayload '''' key tp req b"

definition AddWildAudio :: "string \<Rightarrow> string \<Rightarrow> bool \<Rightarrow> PropertyBuilder \<Rightarrow> PropertyBuilder" where
  "AddWildAudio key tp req b = addField PrefixAudio '''' key tp req b"

definition Build :: "PropertyBuilder \<Rightarrow> Property list" where
  "Build b = pb_properties b"

section \<open>What validation decides\<close>

text \<open>The contract on one property, and the declaration that an upstream property is checked against.\<close>

definition carries :: "Property \<Rightarrow> Field \<Rightarrow> bool" where
  "carries up df \<longleftrightarrow>
     (\<exists>uf. find (\<lambda>f. f_Key f = f_Key df) (rev (pr_Fields up)) = Some uf \<and> f_Required uf \<and>
           (f_Type df = TypeAny \<or> f_Type uf = f_Type df))"

definition satisfies :: "Property \<Rightarrow> Property \<Rightarrow> bool" where
  "satisfies up d \<longleftrightarrow> pr_Prefix up = pr_Prefix d \<and> (pr_Name d = '''' \<or> pr_Name up = pr_Name d) \<and>
     (\<forall>df\<in>set (pr_Fields d). f_Required df \<longrightarrow> carries up df)"

definition target :: "Property list \<Rightarrow> Property \<Rightarrow> Property option" where
  "target ds up =
     (case find (\<lambda>d. pr_Name d \<noteq> '''' \<and> pr_Name d = pr_Name up) (rev ds) of
        Some d \<Rightarrow> Some d
      | None \<Rightarrow> find (\<lambda>d. pr_Name d = '''') ds)"

lemma fold_index:
  "fold (\<lambda>x m. if P x then m(key x \<mapsto> x) else m) xs m0 k =
     (case find (\<lambda>x. P x \<and> key x = k) (rev xs) of Some x \<Rightarrow> Some x | None \<Rightarrow> m0 k)"
proof (induction xs rule: rev_induct)
  case (snoc x xs)
  then show ?case by auto
qed simp

lemma index_fields_find: "index_fields fs k = find (\<lambda>f. f_Key f = k) (rev fs)"
  using fold_index [of "\<lambda>_. True" f_Key fs Map.empty k] by (simp add: index_fields_def split: option.splits)

lemma check_fields_iff: "check_fields (index_fields (pr_Fields up)) ds = None \<longleftrightarrow>
    (\<forall>d\<in>set ds. f_Required d \<longrightarrow> carries up d)"
  by (induction ds) (auto simp: carries_def index_fields_find split: option.splits)

lemma ValidateProperty_iff: "ValidateProperty up d = None \<longleftrightarrow> satisfies up d"
  by (auto simp: ValidateProperty_def satisfies_def check_fields_iff)

lemma first_wildcard_find: "first_wildcard (filter (\<lambda>d. pr_Name d = '''') ds) = find (\<lambda>d. pr_Name d = '''') ds"
  by (induction ds) simp_all

lemma find_cong_set: "(\<And>x. x \<in> set xs \<Longrightarrow> P x = Q x) \<Longrightarrow> find P xs = find Q xs"
  by (induction xs) auto

lemma matched_down_target:
  assumes "\<And>d. d \<in> set ds \<Longrightarrow> pr_Prefix d = pr_Prefix up"
  shows "matched_down (downs_by_name ds) (filter (\<lambda>d. pr_Name d = '''') ds) up = target ds up"
proof -
  have "find (\<lambda>d. pr_Name d \<noteq> '''' \<and> Property_String d = Property_String up) (rev ds) =
        find (\<lambda>d. pr_Name d \<noteq> '''' \<and> pr_Name d = pr_Name up) (rev ds)"
    by (rule find_cong_set) (auto simp: Property_String_def assms)
  then show ?thesis
    unfolding matched_down_def downs_by_name_def target_def fold_index first_wildcard_find
    by (simp split: option.splits)
qed

lemma check_ups_iff: "(case check_ups m hit ups of Inl e \<Rightarrow> False | Inr b \<Rightarrow> b) \<longleftrightarrow>
    (hit \<or> (\<exists>up\<in>set ups. m up \<noteq> None)) \<and> (\<forall>up\<in>set ups. \<forall>d. m up = Some d \<longrightarrow> satisfies up d)"
  by (induction ups arbitrary: hit) (auto simp: ValidateProperty_iff [symmetric] split: option.splits)

lemma check_ups_cong: "(\<And>up. up \<in> set ups \<Longrightarrow> m up = m' up) \<Longrightarrow> check_ups m hit ups = check_ups m' hit ups"
  by (induction ups arbitrary: hit) (auto split: option.splits)

text \<open>C12. An edge is accepted exactly when the target declares nothing for the prefix, or the source
  produces at least one property that the target recognises and every recognised property
  meets the contract: a later declaration of a name overrides an earlier one, an exact name
  wins over a wildcard, and each required field must come with a compatible type and be
  required at the source.\<close>

theorem validate_properties_iff:
  "ValidateProperties ups downs p = None \<longleftrightarrow>
     (let U = filter (\<lambda>q. pr_Prefix q = p) ups; D = filter (\<lambda>q. pr_Prefix q = p) downs
      in D = [] \<or> ((\<exists>u\<in>set U. target D u \<noteq> None) \<and> (\<forall>u\<in>set U. \<forall>d. target D u = Some d \<longrightarrow> satisfies u d)))"
proof -
  define U where "U = filter (\<lambda>q. pr_Prefix q = p) ups"
  define D where "D = filter (\<lambda>q. pr_Prefix q = p) downs"
  define r where "r = check_ups (matched_down (downs_by_name D) (filter (\<lambda>d. pr_Name d = '''') D)) False U"
  have "r = check_ups (target D) False U"
    unfolding r_def by (rule check_ups_cong, rule matched_down_target) (auto simp: U_def D_def)
  then have "(case r of Inl e \<Rightarrow> False | Inr b \<Rightarrow> b) \<longleftrightarrow>
      (\<exists>u\<in>set U. target D u \<noteq> None) \<and> (\<forall>u\<in>set U. \<forall>d. target D u = Some d \<longrightarrow> satisfies u d)"
    using check_ups_iff [of "target D" False U] by simp
  moreover have "ValidateProperties ups downs p = None \<longleftrightarrow> D = [] \<or> (U \<noteq> [] \<and> (case r of Inl e \<Rightarrow> False | Inr b \<Rightarrow> b))"
    by (simp add: ValidateProperties_def U_def [symmetric] D_def [symmetric] r_def [symmetric] split: sum.splits)
  ultimately show ?thesis
    unfolding Let_def U_def [symmetric] D_def [symmetric] by auto
qed

theorem validate_properties_iff_witness:
  "ValidateProperties [\<lparr>pr_Prefix = ''data'', pr_Name = ''asr'', pr_Fields = [\<lparr>f_Key = ''text'', f_Type = ''string'', f_Required = True\<rparr>]\<rparr>]
     [\<lparr>pr_Prefix = ''data'', pr_Name = '''', pr_Fields = [\<lparr>f_Key = ''text'', f_Type = '''', f_Required = True\<rparr>]\<rparr>] ''data'' = None"
  unfolding validate_properties_iff by (simp add: target_def satisfies_def carries_def)

section \<open>What the builder declares\<close>

datatype pb_op =
    SignalEvent string
  | SignalField string string string bool
  | PayloadField string string string bool
  | AudioField string string string bool
  | WildSignal string string bool
  | WildPayload string string bool
  | WildAudio string string bool

fun pb_apply :: "pb_op \<Rightarrow> PropertyBuilder \<Rightarrow> PropertyBuilder" where
  "pb_apply (SignalEvent n) = AddSignalEvent n"
| "pb_apply (SignalField n k t r) = AddSignal n k t r"
| "pb_apply (PayloadField n k t r) = AddPayload n k t r"
| "pb_apply (AudioField n k t r) = AddAudio n k t r"
| "pb_apply (WildSignal k t r) = AddWildSignal k t r"
| "pb_apply (WildPayload k t r) = AddWildPayload k t r"
| "pb_apply (WildAudio k t r) = AddWildAudio k t r"

fun pb_target :: "pb_op \<Rightarrow> string \<times> string" where
  "pb_target (SignalEvent n) = (PrefixSignal, n)"
| "pb_target (SignalField n k t r) = (PrefixSignal, n)"
| "pb_target (PayloadField n k t r) = (PrefixPayload, n)"
| "pb_target (AudioField n k t r) = (PrefixAudio, n)"
| "pb_target (WildSignal k t r) = (PrefixSignal, '''')"
| "pb_target (WildPayload k t r) = (PrefixPayload, '''')"
| "pb_target (WildAudio k t r) = (PrefixAudio, '''')"

fun pb_field :: "pb_op \<Rightarrow> Field list" where
  "pb_field (SignalEvent n) = []"
| "pb_field (SignalField n k t r) = [\<lparr>f_Key = k, f_Type = t, f_Required = r\<rparr>]"
| "pb_field (PayloadField n k t r) = [\<lparr>f_Key = k, f_Type = t, f_Required = r\<rparr>]"
| "pb_field (AudioField n k t r) = [\<lparr>f_Key = k, f_Type = t, f_Required = r\<rparr>]"
| "pb_field (WildSignal k t r) = [\<lparr>f_Key = k, f_Type = t, f_Required = r\<rparr>]"
| "pb_field (WildPayload k t r) = [\<lparr>f_Key = k, f_Type = t, f_Required = r\<rparr>]"
| "pb_field (WildAudio k t r) = [\<lparr>f_Key = k, f_Type = t, f_Required = r\<rparr>]"

text \<open>The specification: one property per prefix and name, in order of first declaration, with the
  fields added to it in order.\<close>

definition pb_targets :: "pb_op list \<Rightarrow> (string \<times> string) list" where
  "pb_targets ops = fold (\<lambda>op. add_unique (pb_target op)) ops []"

definition pb_fields :: "pb_op list \<Rightarrow> string \<times> string \<Rightarrow> Field list" where
  "pb_fields ops t = concat (map pb_field (filter (\<lambda>op. pb_target op = t) ops))"

definition pb_spec :: "pb_op list \<Rightarrow> Property list" where
  "pb_spec ops = map (\<lambda>t. \<lparr>pr_Prefix = fst t, pr_Name = snd t, pr_Fields = pb_fields ops t\<rparr>) (pb_targets ops)"

definition pb_key :: "string \<times> string \<Rightarrow> string" where
  "pb_key t = fst t @ '':'' @ snd t"

definition pb_prefixes :: "string set" where
  "pb_prefixes = {PrefixSignal, PrefixPayload, PrefixAudio}"

definition pb_ok :: "pb_op list \<Rightarrow> PropertyBuilder \<Rightarrow> bool" where
  "pb_ok ops b \<longleftrightarrow> pb_properties b = pb_spec ops \<and>
     (\<forall>t. fst t \<in> pb_prefixes \<longrightarrow>
        (case pb_index b (pb_key t) of
           None \<Rightarrow> t \<notin> set (pb_targets ops)
         | Some i \<Rightarrow> i < length (pb_targets ops) \<and> pb_targets ops ! i = t))"

lemma pb_key_inj: "fst t \<in> pb_prefixes \<Longrightarrow> fst u \<in> pb_prefixes \<Longrightarrow> pb_key t = pb_key u \<longleftrightarrow> t = u"
  by (cases t, cases u) (auto simp: pb_prefixes_def pb_key_def)

lemma pb_target_prefix [simp]: "fst (pb_target op) \<in> pb_prefixes"
  by (cases op) (simp_all add: pb_prefixes_def)

lemma pb_targets_snoc: "pb_targets (ops @ [op]) = add_unique (pb_target op) (pb_targets ops)"
  by (simp add: pb_targets_def)

lemma pb_targets_Nil [simp]: "pb_targets [] = []"
  by (simp add: pb_targets_def)

lemma set_pb_targets: "set (pb_targets ops) = pb_target ` set ops" "distinct (pb_targets ops)"
  by (induction ops rule: rev_induct) (auto simp: pb_targets_snoc)

lemma pb_fields_snoc:
  "pb_fields (ops @ [op]) t = pb_fields ops t @ (if pb_target op = t then pb_field op else [])"
  by (simp add: pb_fields_def)

lemma pb_fields_new: "t \<notin> set (pb_targets ops) \<Longrightarrow> pb_fields ops t = []"
  by (auto simp: pb_fields_def set_pb_targets filter_empty_conv)

definition put_fields :: "nat \<Rightarrow> Field list \<Rightarrow> Property list \<Rightarrow> Property list" where
  "put_fields i fs ps = ps[i := (ps ! i)\<lparr>pr_Fields := pr_Fields (ps ! i) @ fs\<rparr>]"

lemma put_fields_last [simp]: "put_fields (length ps) fs (ps @ [p]) = ps @ [p\<lparr>pr_Fields := pr_Fields p @ fs\<rparr>]"
  by (simp add: put_fields_def)

lemma pb_apply_eq:
  "pb_apply op b = (case ensureProperty (fst (pb_target op)) (snd (pb_target op)) b of
     (i, b') \<Rightarrow> b'\<lparr>pb_properties := put_fields i (pb_field op) (pb_properties b')\<rparr>)"
  by (cases op) (simp_all add: AddSignalEvent_def AddSignal_def AddPayload_def AddAudio_def AddWildSignal_def
      AddWildPayload_def AddWildAudio_def addField_def put_fields_def split: prod.splits)

lemma pb_spec_old:
  assumes "i < length (pb_targets ops)" "pb_targets ops ! i = pb_target op"
  shows "put_fields i (pb_field op) (pb_spec ops) = pb_spec (ops @ [op])"
proof -
  have mem: "pb_target op \<in> set (pb_targets ops)" using assms by (metis nth_mem)
  show ?thesis
  proof (rule nth_equalityI)
    show "length (put_fields i (pb_field op) (pb_spec ops)) = length (pb_spec (ops @ [op]))"
      using mem by (simp add: put_fields_def pb_spec_def pb_targets_snoc)
    fix j assume "j < length (put_fields i (pb_field op) (pb_spec ops))"
    then have j: "j < length (pb_targets ops)" by (simp add: put_fields_def pb_spec_def)
    have "pb_targets ops ! j = pb_target op \<longleftrightarrow> j = i"
      using nth_eq_iff_index_eq [OF set_pb_targets(2) j assms(1)] assms(2) by simp
    then show "put_fields i (pb_field op) (pb_spec ops) ! j = pb_spec (ops @ [op]) ! j"
      using assms j mem by (cases "j = i") (auto simp: put_fields_def pb_spec_def pb_targets_snoc pb_fields_snoc)
  qed
qed

lemma pb_spec_new:
  assumes "pb_target op \<notin> set (pb_targets ops)"
  shows "put_fields (length (pb_spec ops)) (pb_field op)
           (pb_spec ops @ [\<lparr>pr_Prefix = fst (pb_target op), pr_Name = snd (pb_target op), pr_Fields = []\<rparr>]) = pb_spec (ops @ [op])"
proof -
  have "pb_fields (ops @ [op]) t = pb_fields ops t" if "t \<in> set (pb_targets ops)" for t
    using that assms by (auto simp: pb_fields_snoc)
  then have "pb_spec ops = map (\<lambda>t. \<lparr>pr_Prefix = fst t, pr_Name = snd t, pr_Fields = pb_fields (ops @ [op]) t\<rparr>) (pb_targets ops)"
    by (simp add: pb_spec_def)
  then show ?thesis
    using assms unfolding put_fields_last
    by (simp add: pb_spec_def [of "ops @ [op]"] pb_targets_snoc add_unique_def pb_fields_snoc [of _ _ "pb_target op"] pb_fields_new)
qed

lemma pb_ok_step:
  assumes "pb_ok ops b"
  shows "pb_ok (ops @ [op]) (pb_apply op b)"
proof -
  let ?t = "pb_target op" and ?k = "pb_key (pb_target op)"
  from assms have props: "pb_properties b = pb_spec ops" and idx: "\<And>t. fst t \<in> pb_prefixes \<Longrightarrow>
      (case pb_index b (pb_key t) of None \<Rightarrow> t \<notin> set (pb_targets ops)
       | Some i \<Rightarrow> i < length (pb_targets ops) \<and> pb_targets ops ! i = t)" by (auto simp: pb_ok_def)
  show ?thesis
  proof (cases "pb_index b ?k")
    case (Some i)
    then have i: "i < length (pb_targets ops)" "pb_targets ops ! i = ?t" using idx [of ?t] by simp_all
    have app: "pb_apply op b = b\<lparr>pb_properties := pb_spec (ops @ [op])\<rparr>"
      using Some pb_spec_old [OF i] by (simp add: pb_apply_eq ensureProperty_def pb_key_def props)
    have tg: "pb_targets (ops @ [op]) = pb_targets ops" using i nth_mem by (fastforce simp: pb_targets_snoc)
    show ?thesis unfolding pb_ok_def app tg using idx by simp
  next
    case None
    then have new: "?t \<notin> set (pb_targets ops)" using idx [of ?t] by simp
    have len: "length (pb_spec ops) = length (pb_targets ops)" by (simp add: pb_spec_def)
    have app: "pb_apply op b =
        b\<lparr>pb_properties := pb_spec (ops @ [op]), pb_index := (pb_index b)(?k \<mapsto> length (pb_targets ops))\<rparr>"
      using None pb_spec_new [OF new] by (simp add: pb_apply_eq ensureProperty_def pb_key_def props len Let_def)
    have tg: "pb_targets (ops @ [op]) = pb_targets ops @ [?t]"
      using new by (simp add: pb_targets_snoc add_unique_def)
    show ?thesis
      unfolding pb_ok_def
    proof (intro conjI allI impI)
      fix t :: "string \<times> string"
      assume t: "fst t \<in> pb_prefixes"
      show "case pb_index (pb_apply op b) (pb_key t) of None \<Rightarrow> t \<notin> set (pb_targets (ops @ [op]))
          | Some i \<Rightarrow> i < length (pb_targets (ops @ [op])) \<and> pb_targets (ops @ [op]) ! i = t"
        using idx [OF t] pb_key_inj [OF t pb_target_prefix, of op]
        by (auto simp: app tg nth_append split: option.splits)
    qed (simp add: app)
  qed
qed

text \<open>\<open>PropertyBuilder\<close> declares what its calls say, whatever their order: one property per
  prefix and name, in order of first mention, carrying the fields added to it in call order.\<close>

theorem builder_declares: "Build (fold pb_apply ops NewPropertyBuilder) = pb_spec ops"
proof -
  have "pb_ok ops (fold pb_apply ops NewPropertyBuilder)"
  proof (induction ops rule: rev_induct)
    case Nil
    show ?case by (simp add: pb_ok_def NewPropertyBuilder_def pb_spec_def)
  next
    case (snoc op ops)
    then show ?case using pb_ok_step [OF snoc, of op] by simp
  qed
  then show ?thesis by (simp add: pb_ok_def Build_def)
qed

end
