(* ===== verification/Registry.thy ===== *)
theory Registry
  imports Contract "HOL-Library.List_Lexorder" "HOL-Library.Char_ord"
begin

text \<open>
  The engine's vocabulary and the plugin registry: \<open>internal/engine/engine.go\<close> (event
  types, states), \<open>config.go\<close> (workflow configurations), \<open>plugin.go\<close> (port
  validation), \<open>builder.go\<close> (plugin builders), \<open>resource.go\<close> and \<open>store.go\<close> (named
  sets of builders).

  Plugins are an abstract type \<open>'p\<close>. Resources are shared by pointer, so the store holds
  indices into a list of resources. A Go map is iterated in an unspecified order: an
  operation that iterates takes that order as its argument \<open>order\<close>, an enumeration of
  the keys (\<open>enumerates\<close>), and the theorems hold for every order. Strings are ordered
  bytewise, as Go orders them.
\<close>

section \<open>engine.go and config.go\<close>

type_synonym EventType = byte

abbreviation (input) EventSignal :: EventType where "EventSignal \<equiv> 1"
abbreviation (input) EventPayload :: EventType where "EventPayload \<equiv> 2"
abbreviation (input) EventAudio :: EventType where "EventAudio \<equiv> 3"
abbreviation (input) EventVideo :: EventType where "EventVideo \<equiv> 4"

definition EventType_String :: "EventType \<Rightarrow> string" where
  "EventType_String e =
     (if e = EventSignal then ''signal'' else if e = EventPayload then ''payload''
      else if e = EventAudio then ''audio'' else if e = EventVideo then ''video'' else ''unknown'')"

abbreviation (input) MaxPortCount :: nat where "MaxPortCount \<equiv> 12"

datatype WorkflowState = Pending | Starting | Running | Paused | Stopped

fun WorkflowState_String :: "WorkflowState \<Rightarrow> string" where
  "WorkflowState_String Pending = ''pending''"
| "WorkflowState_String Starting = ''starting''"
| "WorkflowState_String Running = ''running''"
| "WorkflowState_String Paused = ''paused''"
| "WorkflowState_String Stopped = ''stopped''"

datatype DropStrategy = DropNewest | BlockIfFull | DropOldest

fun DropStrategy_String :: "DropStrategy \<Rightarrow> string" where
  "DropStrategy_String DropNewest = ''drop_newest''"
| "DropStrategy_String BlockIfFull = ''block_if_full''"
| "DropStrategy_String DropOldest = ''drop_oldest''"

record NodeConfig =
  n_ID :: string
  n_Name :: string
  n_Namespace :: string
  n_Plugin :: string
  n_Config :: bytes

record EdgeConfig =
  e_Source :: string
  e_SourcePort :: int
  e_Target :: string
  e_Type :: EventType

record WorkflowConfig =
  w_ID :: string
  w_Name :: string
  w_Version :: string
  w_Head :: string
  w_Nodes :: "NodeConfig list"
  w_Edges :: "EdgeConfig list"
  w_SchedulerMode :: string
  w_SchedulerWorkers :: int

section \<open>Plugin builders\<close>

record PortMetadata =
  pm_Type :: EventType
  pm_Port :: int
  pm_Name :: string

datatype 'e registry_error =
    PluginInvalid
  | PluginDuplicate string
  | PluginNotFound string
  | PluginAmbiguous string string string
  | PortNotPositive int
  | PortTooLarge int
  | BuildFailed 'e

definition PortMetadata_Validate :: "PortMetadata \<Rightarrow> 'e registry_error option" where
  "PortMetadata_Validate p =
     (if pm_Port p \<le> 0 then Some (PortNotPositive (pm_Port p))
      else if pm_Port p \<ge> int MaxPortCount then Some (PortTooLarge (pm_Port p))
      else None)"

record PluginMetadata =
  md_Name :: string
  md_Description :: string
  md_Inputs :: "Property list"
  md_Outputs :: "Property list"
  md_Ports :: "PortMetadata list"

record ('e, 'p) PluginBuilder = PluginMetadata +
  b_Build :: "bytes \<Rightarrow> 'e + 'p"

text \<open>\<open>GenericBuilder.Build\<close>: decode the configuration into a fresh value, then call the factory.\<close>

definition GenericBuilder_Build :: "(bytes \<Rightarrow> 'e + 'c) \<Rightarrow> ('c \<Rightarrow> 'p) \<Rightarrow> bytes \<Rightarrow> 'e + 'p" where
  "GenericBuilder_Build Decode factory data =
     (case Decode data of Inl err \<Rightarrow> Inl err | Inr zero \<Rightarrow> Inr (factory zero))"

definition GenericBuilder :: "(bytes \<Rightarrow> 'e + 'c) \<Rightarrow> PluginMetadata \<Rightarrow> ('c \<Rightarrow> 'p) \<Rightarrow> ('e, 'p) PluginBuilder" where
  "GenericBuilder Decode meta factory =
     \<lparr>md_Name = md_Name meta, md_Description = md_Description meta, md_Inputs = md_Inputs meta,
      md_Outputs = md_Outputs meta, md_Ports = md_Ports meta,
      b_Build = GenericBuilder_Build Decode factory\<rparr>"

section \<open>Resources\<close>

abbreviation (input) LocalNamespace :: string where "LocalNamespace \<equiv> ''local''"

record ('e, 'p) PluginResource =
  rs_namespace :: string
  rs_builders :: "string \<rightharpoonup> ('e, 'p) PluginBuilder"

definition NewPluginResource :: "string \<Rightarrow> ('e, 'p) PluginResource" where
  "NewPluginResource namespace = \<lparr>rs_namespace = namespace, rs_builders = Map.empty\<rparr>"

definition RegisterBuilder ::
  "('e, 'p) PluginBuilder option \<Rightarrow> ('e, 'p) PluginResource \<Rightarrow> 'e registry_error + ('e, 'p) PluginResource" where
  "RegisterBuilder builder r =
     (case builder of
        None \<Rightarrow> Inl PluginInvalid
      | Some b \<Rightarrow>
          (let name = md_Name b in
           if name = '''' then Inl PluginInvalid
           else case first_error PortMetadata_Validate (md_Ports b) of
                  Some err \<Rightarrow> Inl err
                | None \<Rightarrow>
                    if rs_builders r name \<noteq> None then Inl (PluginDuplicate name)
                    else Inr (r\<lparr>rs_builders := (rs_builders r)(name \<mapsto> b)\<rparr>)))"

definition RegisterPlugin ::
  "(bytes \<Rightarrow> 'e + 'c) \<Rightarrow> ('c \<Rightarrow> 'p) \<Rightarrow> PluginMetadata \<Rightarrow> ('e, 'p) PluginResource \<Rightarrow>
   'e registry_error + ('e, 'p) PluginResource" where
  "RegisterPlugin Decode factory meta localResource =
     RegisterBuilder (Some (GenericBuilder Decode meta factory)) localResource"

definition Resource_LoadBuilder :: "string \<Rightarrow> ('e, 'p) PluginResource \<Rightarrow> ('e, 'p) PluginBuilder option" where
  "Resource_LoadBuilder name r = rs_builders r name"

definition ListBuilders :: "string list \<Rightarrow> ('e, 'p) PluginResource \<Rightarrow> ('e, 'p) PluginBuilder list" where
  "ListBuilders order r = map (\<lambda>name. the (rs_builders r name)) (sort order)"

section \<open>The store\<close>

record ('e, 'p) PluginStore =
  ps_heap :: "('e, 'p) PluginResource list"
  ps_resources :: "string \<rightharpoonup> nat"

abbreviation res_at :: "('e, 'p) PluginStore \<Rightarrow> nat \<Rightarrow> ('e, 'p) PluginResource" where
  "res_at s i \<equiv> ps_heap s ! i"

definition NewPluginStore :: "('e, 'p) PluginResource list \<Rightarrow> nat option list \<Rightarrow> ('e, 'p) PluginStore" where
  "NewPluginStore heap resources =
     \<lparr>ps_heap = heap,
      ps_resources = fold (\<lambda>r m. case r of
          None \<Rightarrow> m
        | Some i \<Rightarrow> if rs_namespace (heap ! i) = '''' then m else m(rs_namespace (heap ! i) \<mapsto> i)) resources Map.empty\<rparr>"

definition AddResource :: "nat option \<Rightarrow> ('e, 'p) PluginStore \<Rightarrow> 'e registry_error + ('e, 'p) PluginStore" where
  "AddResource resource s =
     (case resource of
        None \<Rightarrow> Inl PluginInvalid
      | Some i \<Rightarrow>
          (let namespace = rs_namespace (res_at s i) in
           if namespace = '''' then Inl PluginInvalid
           else if ps_resources s namespace \<noteq> None then Inl (PluginDuplicate namespace)
           else Inr (s\<lparr>ps_resources := (ps_resources s)(namespace \<mapsto> i)\<rparr>)))"

text \<open>\<open>strings.TrimSpace\<close> leaves nothing exactly when every character is white space (ASCII names).\<close>

definition is_space :: "char \<Rightarrow> bool" where
  "is_space c \<longleftrightarrow> of_char c \<in> {9, 10, 11, 12, 13, 32 :: nat}"

definition RemoveResource :: "string \<Rightarrow> ('e, 'p) PluginStore \<Rightarrow> ('e, 'p) PluginStore" where
  "RemoveResource namespace s =
     (if list_all is_space namespace \<or> namespace = LocalNamespace then s
      else s\<lparr>ps_resources := (ps_resources s)(namespace := None)\<rparr>)"

fun search_builders ::
  "string \<Rightarrow> ('e, 'p) PluginStore \<Rightarrow> (string \<times> ('e, 'p) PluginBuilder) option \<Rightarrow> string list \<Rightarrow>
   'e registry_error + (string \<times> ('e, 'p) PluginBuilder) option" where
  "search_builders name s matched [] = Inr matched"
| "search_builders name s matched (ns # order) =
     (case Resource_LoadBuilder name (res_at s (the (ps_resources s ns))) of
        None \<Rightarrow> search_builders name s matched order
      | Some b \<Rightarrow>
          (case matched of
             Some (ns', _) \<Rightarrow> Inl (PluginAmbiguous name ns' ns)
           | None \<Rightarrow> search_builders name s (Some (ns, b)) order))"

definition LoadBuilder ::
  "string list \<Rightarrow> string \<Rightarrow> string \<Rightarrow> ('e, 'p) PluginStore \<Rightarrow> 'e registry_error + ('e, 'p) PluginBuilder" where
  "LoadBuilder order namespace name s =
     (if name = '''' then Inl PluginInvalid
      else if namespace \<noteq> '''' then
        (case ps_resources s namespace of
           None \<Rightarrow> Inl (PluginNotFound namespace)
         | Some i \<Rightarrow>
             (case Resource_LoadBuilder name (res_at s i) of
                None \<Rightarrow> Inl (PluginNotFound name)
              | Some b \<Rightarrow> Inr b))
      else
        (case search_builders name s None order of
           Inl err \<Rightarrow> Inl err
         | Inr None \<Rightarrow> Inl (PluginNotFound name)
         | Inr (Some (_, b)) \<Rightarrow> Inr b))"

definition ListPluginResources :: "string list \<Rightarrow> ('e, 'p) PluginStore \<Rightarrow> nat list" where
  "ListPluginResources order s = map (\<lambda>ns. the (ps_resources s ns)) (sort order)"

text \<open>
  \<open>orders i\<close> is the order in which the builders of resource \<open>i\<close> are iterated. The final
  \<open>sort.SliceStable\<close> sorts by namespace, then by builder name.
\<close>

definition ListPluginBuilders ::
  "string list \<Rightarrow> (nat \<Rightarrow> string list) \<Rightarrow> ('e, 'p) PluginStore \<Rightarrow> (string \<times> ('e, 'p) PluginBuilder) list" where
  "ListPluginBuilders order orders s =
     sort_key (\<lambda>(ns, b). [ns, md_Name b])
       (concat (map (\<lambda>i. map (\<lambda>b. (rs_namespace (res_at s i), b)) (ListBuilders (orders i) (res_at s i)))
         (ListPluginResources order s)))"

section \<open>What a registry guarantees\<close>

definition enumerates :: "'a list \<Rightarrow> ('a \<rightharpoonup> 'b) \<Rightarrow> bool" where
  "enumerates order m \<longleftrightarrow> distinct order \<and> set order = dom m"

definition builder_ok :: "('e, 'p) PluginBuilder \<Rightarrow> bool" where
  "builder_ok b \<longleftrightarrow> md_Name b \<noteq> '''' \<and> (\<forall>p\<in>set (md_Ports b). 0 < pm_Port p \<and> pm_Port p < int MaxPortCount)"

definition resource_ok :: "('e, 'p) PluginResource \<Rightarrow> bool" where
  "resource_ok r \<longleftrightarrow> (\<forall>name b. rs_builders r name = Some b \<longrightarrow> md_Name b = name \<and> builder_ok b)"

text \<open>A rejected registration leaves the resource as it was, as the source returns before the write.\<close>

definition register_step :: "('e, 'p) PluginBuilder option \<Rightarrow> ('e, 'p) PluginResource \<Rightarrow> ('e, 'p) PluginResource" where
  "register_step b r = (case RegisterBuilder b r of Inl _ \<Rightarrow> r | Inr r' \<Rightarrow> r')"

lemma Validate_None: "PortMetadata_Validate p = None \<longleftrightarrow> 0 < pm_Port p \<and> pm_Port p < int MaxPortCount"
  by (auto simp: PortMetadata_Validate_def)

lemma RegisterBuilder_iff:
  fixes b :: "('e, 'p) PluginBuilder"
  shows "RegisterBuilder (Some b) r = Inr r' \<longleftrightarrow>
     builder_ok b \<and> rs_builders r (md_Name b) = None \<and> r' = r\<lparr>rs_builders := (rs_builders r)(md_Name b \<mapsto> b)\<rparr>"
proof -
  let ?err = "first_error (PortMetadata_Validate :: _ \<Rightarrow> 'e registry_error option) (md_Ports b)"
  have ports: "?err = None \<longleftrightarrow> (\<forall>p\<in>set (md_Ports b). 0 < pm_Port p \<and> pm_Port p < int MaxPortCount)"
    by (simp add: Validate_None)
  show ?thesis
    unfolding RegisterBuilder_def builder_ok_def ports [symmetric]
    by (cases ?err) (auto simp: Let_def simp del: first_error_None)
qed

lemma register_step_cases:
  obtains "register_step b r = r"
  | b' where "b = Some b'" "builder_ok b'" "rs_builders r (md_Name b') = None"
      "register_step b r = r\<lparr>rs_builders := (rs_builders r)(md_Name b' \<mapsto> b')\<rparr>"
proof (cases "RegisterBuilder b r")
  case (Inr r')
  then obtain b' where "b = Some b'" by (cases b) (auto simp: RegisterBuilder_def)
  with Inr have "builder_ok b'" "rs_builders r (md_Name b') = None"
      "register_step b r = r\<lparr>rs_builders := (rs_builders r)(md_Name b' \<mapsto> b')\<rparr>"
    using Inr by (simp_all add: register_step_def RegisterBuilder_iff [of b' r r'])
  with \<open>b = Some b'\<close> show ?thesis by (rule that(2))
qed (use that(1) in \<open>simp add: register_step_def\<close>)

interpretation resources: step_system "NewPluginResource ns" register_step resource_ok for ns
proof unfold_locales
  show "resource_ok (NewPluginResource ns)" by (simp add: resource_ok_def NewPluginResource_def)
  fix s :: "('a, 'b) PluginResource" and e
  assume "resource_ok s"
  then show "resource_ok (register_step e s)"
    by (cases rule: register_step_cases [of e s]) (auto simp: resource_ok_def)
qed

lemma registered_stays:
  "rs_builders r name = Some b \<Longrightarrow> rs_builders (fold register_step bs r) name = Some b"
proof (induction bs arbitrary: r)
  case (Cons x bs)
  have "rs_builders (register_step x r) name = Some b"
    using Cons.prems by (cases rule: register_step_cases [of x r]) auto
  then show ?case using Cons.IH by simp
qed simp

text \<open>Whatever is offered to a resource, in whatever order, it only ever holds builders under
  their own non-empty name whose ports are all in the range of a node's port table
  (1 to \<open>MaxPortCount\<close> - 1), and a name once registered keeps its builder.\<close>

theorem registered_builders_ok:
  assumes "rs_builders (fold register_step bs (NewPluginResource ns)) name = Some b"
  shows "md_Name b = name \<and> name \<noteq> '''' \<and>
    (\<forall>p\<in>set (md_Ports b). 0 < pm_Port p \<and> pm_Port p < int MaxPortCount) \<and>
    rs_builders (fold register_step (bs @ cs) (NewPluginResource ns)) name = Some b"
  using resources.inv_reachable [of bs ns] registered_stays [OF assms, of cs] assms
  by (auto simp: resource_ok_def builder_ok_def)

definition sample_builder :: "(unit, unit) PluginBuilder" where
  "sample_builder = GenericBuilder (\<lambda>_. Inr ()) \<lparr>md_Name = ''vad'', md_Description = '''', md_Inputs = [],
     md_Outputs = [], md_Ports = [\<lparr>pm_Type = 1, pm_Port = 2, pm_Name = ''speech''\<rparr>]\<rparr> (\<lambda>_. ())"

lemma sample_builder_registered:
  "rs_builders (fold register_step [Some sample_builder] (NewPluginResource ''local'')) ''vad'' = Some sample_builder"
  by (simp add: register_step_def RegisterBuilder_def NewPluginResource_def sample_builder_def GenericBuilder_def
      PortMetadata_Validate_def Let_def)

theorem registered_builders_ok_witness:
  "rs_builders (fold register_step [Some sample_builder, Some sample_builder] (NewPluginResource ''local'')) ''vad'' = Some sample_builder"
  using registered_builders_ok [OF sample_builder_registered, of "[Some sample_builder]"] by simp

section \<open>Lookup and listing do not depend on map order\<close>

definition provides :: "('e, 'p) PluginStore \<Rightarrow> string \<Rightarrow> string \<Rightarrow> ('e, 'p) PluginBuilder option" where
  "provides s name ns =
     (case ps_resources s ns of None \<Rightarrow> None | Some i \<Rightarrow> Resource_LoadBuilder name (res_at s i))"

lemma search_builders_Some:
  assumes "set order \<subseteq> dom (ps_resources s)"
  shows "search_builders name s (Some m) order =
     (case find (\<lambda>ns. provides s name ns \<noteq> None) order of
        None \<Rightarrow> Inr (Some m) | Some ns \<Rightarrow> Inl (PluginAmbiguous name (fst m) ns))"
  using assms by (induction order) (auto simp: provides_def split: option.splits prod.splits)

lemma search_builders_Inr:
  assumes "set order \<subseteq> dom (ps_resources s)" "distinct order"
  shows "search_builders name s None order = Inr (Some (ns, b)) \<longleftrightarrow>
      ns \<in> set order \<and> provides s name ns = Some b \<and> (\<forall>ns'\<in>set order. provides s name ns' \<noteq> None \<longrightarrow> ns' = ns)"
    and "search_builders name s None order = Inr None \<longleftrightarrow> (\<forall>ns'\<in>set order. provides s name ns' = None)"
  using assms
proof (induction order)
  case (Cons n order)
  { case 1
    then have sub: "set order \<subseteq> dom (ps_resources s)" by auto
    obtain i where i: "ps_resources s n = Some i" using 1 by auto
    show ?case
    proof (cases "provides s name n")
      case None
      with Cons.IH(1) 1 i show ?thesis by (auto simp: provides_def)
    next
      case (Some b')
      with 1 i show ?thesis
        by (auto simp: provides_def search_builders_Some [OF sub] find_None_iff split: option.splits)
           (auto simp: find_Some_iff provides_def)
    qed }
  { case 2
    then have sub: "set order \<subseteq> dom (ps_resources s)" by auto
    obtain i where i: "ps_resources s n = Some i" using 2 by auto
    show ?case
    proof (cases "provides s name n")
      case None
      with Cons.IH(2) 2 i show ?thesis by (auto simp: provides_def)
    next
      case (Some b')
      with 2 i show ?thesis by (auto simp: provides_def search_builders_Some [OF sub] split: option.splits)
    qed }
qed simp_all

text \<open>C13. An unqualified plugin name resolves to the builder of the only resource that provides it,
  is not found when none does and is an error otherwise, whatever order the store's map is
  iterated in.\<close>

theorem load_builder_unqualified:
  assumes "enumerates order (ps_resources s)" "name \<noteq> ''''"
  shows "(LoadBuilder order '''' name s = Inr b \<longleftrightarrow>
      (\<exists>ns. provides s name ns = Some b \<and> (\<forall>ns'. provides s name ns' \<noteq> None \<longrightarrow> ns' = ns))) \<and>
    (LoadBuilder order '''' name s = Inl (PluginNotFound name) \<longleftrightarrow> (\<forall>ns. provides s name ns = None))"
proof -
  have dom: "set order = dom (ps_resources s)" "distinct order" using assms(1) by (simp_all add: enumerates_def)
  have prov: "ns \<in> set order" if "provides s name ns \<noteq> None" for ns
    using that dom by (auto simp: provides_def split: option.splits)
  note search = search_builders_Inr [of order s name, OF _ dom(2)]
  have "LoadBuilder order '''' name s = Inr b \<longleftrightarrow> (\<exists>ns. search_builders name s None order = Inr (Some (ns, b)))"
    using assms(2) by (auto simp: LoadBuilder_def split: sum.splits option.splits)
  moreover have "LoadBuilder order '''' name s = Inl (PluginNotFound name) \<longleftrightarrow> search_builders name s None order = Inr None"
  proof -
    have "search_builders name s m os \<noteq> Inl (PluginNotFound name)" for m os
      by (induction name s m os rule: search_builders.induct) (auto split: option.splits)
    then show ?thesis using assms(2) by (auto simp: LoadBuilder_def split: sum.splits option.splits)
  qed
  moreover have "search_builders name s None order = Inr (Some (ns, b)) \<longleftrightarrow>
      provides s name ns = Some b \<and> (\<forall>ns'. provides s name ns' \<noteq> None \<longrightarrow> ns' = ns)" for ns
    unfolding search(1) [OF equalityD1 [OF dom(1)]] using prov by (metis option.distinct(1))
  moreover have "search_builders name s None order = Inr None \<longleftrightarrow> (\<forall>ns. provides s name ns = None)"
    unfolding search(2) [OF equalityD1 [OF dom(1)]] using prov by blast
  ultimately show ?thesis by simp
qed

theorem load_builder_unqualified_witness:
  "LoadBuilder [''local''] '''' ''vad''
     (NewPluginStore [fold register_step [Some sample_builder] (NewPluginResource ''local'')] [Some 0]) = Inr sample_builder"
proof -
  define s where "s = NewPluginStore [fold register_step [Some sample_builder] (NewPluginResource ''local'')] [Some 0]"
  have ns: "rs_namespace (fold register_step [Some sample_builder] (NewPluginResource ''local'')) = ''local''"
    by (simp add: register_step_def RegisterBuilder_def NewPluginResource_def sample_builder_def GenericBuilder_def
      PortMetadata_Validate_def Let_def)
  have res: "ps_resources s = [''local'' \<mapsto> 0]" "res_at s 0 = fold register_step [Some sample_builder] (NewPluginResource ''local'')"
    using ns by (simp_all add: s_def NewPluginStore_def)
  have prov: "provides s ''vad'' ns = (if ns = ''local'' then Some sample_builder else None)" for ns
    using sample_builder_registered by (simp add: provides_def Resource_LoadBuilder_def res)
  have "LoadBuilder [''local''] '''' ''vad'' s = Inr sample_builder"
    using load_builder_unqualified [of "[''local'']" s "''vad''" sample_builder] by (simp add: enumerates_def prov res)
  then show ?thesis by (simp only: s_def)
qed

lemma sort_enumerates: "enumerates o1 m \<Longrightarrow> enumerates o2 m \<Longrightarrow> sort o1 = sort o2"
  by (rule sorted_distinct_set_unique) (simp_all add: enumerates_def)

lemma listing_deterministic:
  assumes "enumerates o1 (ps_resources s)" "enumerates o2 (ps_resources s)"
    and "\<And>i. enumerates (b1 i) (rs_builders (res_at s i))" "\<And>i. enumerates (b2 i) (rs_builders (res_at s i))"
  shows "ListPluginBuilders o1 b1 s = ListPluginBuilders o2 b2 s"
proof -
  have "ListBuilders (b1 i) (res_at s i) = ListBuilders (b2 i) (res_at s i)" for i
    using sort_enumerates [OF assms(3,4)] by (simp add: ListBuilders_def)
  moreover have "ListPluginResources o1 s = ListPluginResources o2 s"
    using sort_enumerates [OF assms(1,2)] by (simp add: ListPluginResources_def)
  ultimately show ?thesis by (simp add: ListPluginBuilders_def)
qed

lemma local_resource_kept: "ps_resources (RemoveResource ns s) LocalNamespace = ps_resources s LocalNamespace"
  by (simp add: RemoveResource_def)

end
