(* ===== verification/Syncx.thy ===== *)
theory Syncx
  imports Prelude "HOL-Library.AList" "HOL-Library.Multiset"
begin

unbundle bit_operations_syntax

text \<open>
  \<open>pkg/syncx\<close>: sends on buffered channels (\<open>chan.go\<close>) and the sharded map
  (\<open>sharded_map.go\<close>).

  A channel is its queued values, its capacity and whether it is closed. A context is
  \<open>None\<close> while it is live and \<open>Some e\<close> once \<open>ctx.Err()\<close> is \<open>e\<close>. A send is one atomic
  attempt: \<open>Parked\<close> is a goroutine left waiting in \<open>select\<close>, which tries again when the
  channel or the context changes; \<open>PanicClosed\<close> is Go's panic on a closed channel.
  A send that races with a cancellation is one of the two atomic outcomes, before or
  after it.

  The sharded map keeps one association list per shard: a Go map up to the iteration
  order, which \<open>Range\<close> takes as a parameter \<open>ord\<close>. The locks of the source make each
  operation atomic; they are not modelled further.
\<close>

section \<open>Channels\<close>

record 'a chan =
  ch_buf :: "'a list"
  ch_cap :: nat
  ch_closed :: bool

datatype ctx_err = Canceled | DeadlineExceeded

type_synonym ctx = "ctx_err option"

datatype send_err = CtxErr ctx_err | ErrSendBlocked

datatype 'a send_outcome = Sent "'a chan" | SendErr send_err | Parked | PanicClosed

definition make_chan :: "nat \<Rightarrow> 'a chan" where
  "make_chan n = \<lparr>ch_buf = [], ch_cap = n, ch_closed = False\<rparr>"

definition chan_full :: "'a chan \<Rightarrow> bool" where
  "chan_full ch \<longleftrightarrow> ch_cap ch \<le> length (ch_buf ch)"

definition chan_ok :: "'a chan \<Rightarrow> bool" where
  "chan_ok ch \<longleftrightarrow> length (ch_buf ch) \<le> ch_cap ch"

definition recv :: "'a chan \<Rightarrow> ('a \<times> 'a chan) option" where
  "recv ch = (case ch_buf ch of [] \<Rightarrow> None | x # xs \<Rightarrow> Some (x, ch\<lparr>ch_buf := xs\<rparr>))"

definition SendWithContext :: "ctx \<Rightarrow> 'a chan \<Rightarrow> 'a \<Rightarrow> 'a send_outcome" where
  "SendWithContext ctx ch v =
     (case ctx of
        Some e \<Rightarrow> SendErr (CtxErr e)
      | None \<Rightarrow>
          if ch_closed ch then PanicClosed
          else if chan_full ch then Parked
          else Sent (ch\<lparr>ch_buf := ch_buf ch @ [v]\<rparr>))"

text \<open>The derived context expires when its own timer does, or when the parent has.\<close>

definition SendWithTimeout :: "ctx \<Rightarrow> bool \<Rightarrow> 'a chan \<Rightarrow> 'a \<Rightarrow> 'a send_outcome" where
  "SendWithTimeout ctx expired ch v =
     (let timeoutCtx = (case ctx of Some e \<Rightarrow> Some e
                        | None \<Rightarrow> if expired then Some DeadlineExceeded else None)
      in SendWithContext timeoutCtx ch v)"

definition SendWithNonBlocking :: "ctx \<Rightarrow> 'a chan \<Rightarrow> 'a \<Rightarrow> 'a send_outcome" where
  "SendWithNonBlocking ctx ch v =
     (case ctx of
        Some e \<Rightarrow> SendErr (CtxErr e)
      | None \<Rightarrow>
          if ch_closed ch then PanicClosed
          else if chan_full ch then SendErr ErrSendBlocked
          else Sent (ch\<lparr>ch_buf := ch_buf ch @ [v]\<rparr>))"

section \<open>The sharded map\<close>

type_synonym ('k, 'v) bucket = "('k \<times> 'v) list"

record ('k, 'v) ShardedMap =
  shards :: "('k, 'v) bucket list"
  hash :: "'k \<Rightarrow> 64 word"

definition NewShardedMap :: "int \<Rightarrow> ('k \<Rightarrow> 64 word) \<Rightarrow> ('k, 'v) ShardedMap" where
  "NewShardedMap shardCount h =
     (let n = (if shardCount \<le> 0 then 1 else shardCount)
      in \<lparr>shards = replicate (nat n) [], hash = h\<rparr>)"

definition shard_of :: "('k, 'v) ShardedMap \<Rightarrow> 'k \<Rightarrow> nat" where
  "shard_of m k =
     (if length (shards m) = 1 then 0
      else unat (hash m k mod word_of_nat (length (shards m))))"

definition SM_Store :: "'k \<Rightarrow> 'v \<Rightarrow> ('k, 'v) ShardedMap \<Rightarrow> ('k, 'v) ShardedMap" where
  "SM_Store k v m =
     (let i = shard_of m k
      in m\<lparr>shards := (shards m)[i := AList.update k v (shards m ! i)]\<rparr>)"

definition SM_Load :: "'k \<Rightarrow> ('k, 'v) ShardedMap \<Rightarrow> 'v option" where
  "SM_Load k m = map_of (shards m ! shard_of m k) k"

definition SM_Delete :: "'k \<Rightarrow> ('k, 'v) ShardedMap \<Rightarrow> ('k, 'v) ShardedMap" where
  "SM_Delete k m =
     (let i = shard_of m k
      in m\<lparr>shards := (shards m)[i := AList.delete k (shards m ! i)]\<rparr>)"

text \<open>
  \<open>Update\<close>: the callback sees the stored value, if any, and returns the value to keep
  (\<open>Some\<close>) or \<open>None\<close> for \<open>keep = false\<close>. The result says whether the key was touched.
\<close>

definition SM_Update ::
  "'k \<Rightarrow> ('v option \<Rightarrow> 'v option) \<Rightarrow> ('k, 'v) ShardedMap \<Rightarrow> ('k, 'v) ShardedMap \<times> bool" where
  "SM_Update k fn m =
     (let i = shard_of m k; b = shards m ! i; old = map_of b k
      in case fn old of
           None \<Rightarrow>
             (if old \<noteq> None then m\<lparr>shards := (shards m)[i := AList.delete k b]\<rparr> else m, old \<noteq> None)
         | Some nxt \<Rightarrow> (m\<lparr>shards := (shards m)[i := AList.update k nxt b]\<rparr>, True))"

text \<open>
  \<open>Range\<close>: shard by shard, over a snapshot of the shard taken in the order \<open>ord\<close>, until
  the callback answers \<open>False\<close>. The callback's effects are threaded through \<open>s\<close>.
\<close>

fun range_items :: "('k \<times> 'v \<Rightarrow> 's \<Rightarrow> 's \<times> bool) \<Rightarrow> ('k \<times> 'v) list \<Rightarrow> 's \<Rightarrow> 's \<times> bool" where
  "range_items fn [] s = (s, True)"
| "range_items fn (x # xs) s =
     (case fn x s of (s', go) \<Rightarrow> if go then range_items fn xs s' else (s', False))"

fun range_shards ::
  "(('k \<times> 'v) list \<Rightarrow> ('k \<times> 'v) list) \<Rightarrow> ('k \<times> 'v \<Rightarrow> 's \<Rightarrow> 's \<times> bool) \<Rightarrow>
   ('k, 'v) bucket list \<Rightarrow> 's \<Rightarrow> 's" where
  "range_shards ord fn [] s = s"
| "range_shards ord fn (b # bs) s =
     (case range_items fn (ord b) s of
        (s', go) \<Rightarrow> if go then range_shards ord fn bs s' else s')"

definition SM_Range ::
  "(('k \<times> 'v) list \<Rightarrow> ('k \<times> 'v) list) \<Rightarrow> ('k \<times> 'v \<Rightarrow> 's \<Rightarrow> 's \<times> bool) \<Rightarrow>
   ('k, 'v) ShardedMap \<Rightarrow> 's \<Rightarrow> 's" where
  "SM_Range ord fn m s = range_shards ord fn (shards m) s"

text \<open>FNV-1a, the hash of \<open>hash/fnv\<close>, over the bytes of a string.\<close>

definition fnv64a :: "bytes \<Rightarrow> 64 word" where
  "fnv64a bs = fold (\<lambda>b h. (h XOR ucast b) * 1099511628211) bs 14695981039346656037"

definition defaultHash :: "('k \<Rightarrow> bytes) \<Rightarrow> 'k \<Rightarrow> 64 word" where
  "defaultHash sprint key = fnv64a (sprint key)"

section \<open>Laws of channel sends\<close>

lemma chan_simps [simp]:
  "ch_buf (make_chan n) = []" "ch_cap (make_chan n) = n" "\<not> ch_closed (make_chan n)"
  "chan_ok (make_chan n)"
  by (simp_all add: make_chan_def chan_ok_def)

lemma Sent_iff:
  "SendWithContext ctx ch v = Sent ch' \<longleftrightarrow>
     ctx = None \<and> \<not> ch_closed ch \<and> \<not> chan_full ch \<and> ch' = ch\<lparr>ch_buf := ch_buf ch @ [v]\<rparr>"
  "SendWithNonBlocking ctx ch v = Sent ch' \<longleftrightarrow>
     ctx = None \<and> \<not> ch_closed ch \<and> \<not> chan_full ch \<and> ch' = ch\<lparr>ch_buf := ch_buf ch @ [v]\<rparr>"
  by (auto simp: SendWithContext_def SendWithNonBlocking_def split: option.splits)

lemma NonBlocking_not_Parked [simp]: "SendWithNonBlocking ctx ch v \<noteq> Parked"
  by (simp add: SendWithNonBlocking_def split: option.splits)

lemma NonBlocking_err_iff:
  "SendWithNonBlocking ctx ch v = SendErr e \<longleftrightarrow>
     (case ctx of Some c \<Rightarrow> e = CtxErr c
      | None \<Rightarrow> \<not> ch_closed ch \<and> chan_full ch \<and> e = ErrSendBlocked)"
  by (auto simp: SendWithNonBlocking_def split: option.splits)

lemma Context_err_iff: "SendWithContext ctx ch v = SendErr e \<longleftrightarrow> (\<exists>c. ctx = Some c \<and> e = CtxErr c)"
  by (auto simp: SendWithContext_def split: option.splits)

lemma Sent_chan_ok:
  "SendWithContext ctx ch v = Sent ch' \<Longrightarrow> chan_ok ch'"
  "SendWithNonBlocking ctx ch v = Sent ch' \<Longrightarrow> chan_ok ch'"
  by (auto simp: Sent_iff chan_ok_def chan_full_def)

lemma recv_Some_iff: "recv ch = Some (x, ch') \<longleftrightarrow> (\<exists>xs. ch_buf ch = x # xs \<and> ch' = ch\<lparr>ch_buf := xs\<rparr>)"
  by (auto simp: recv_def split: list.splits)

lemma recv_None_iff: "recv ch = None \<longleftrightarrow> ch_buf ch = []"
  by (auto simp: recv_def split: list.splits)

lemma recv_chan_ok: "chan_ok ch \<Longrightarrow> recv ch = Some (x, ch') \<Longrightarrow> chan_ok ch'"
  by (auto simp: recv_Some_iff chan_ok_def)

section \<open>Laws of the sharded map\<close>

definition sm_inv :: "('k, 'v) ShardedMap \<Rightarrow> bool" where
  "sm_inv m \<longleftrightarrow>
     shards m \<noteq> [] \<and> length (shards m) < 2 ^ 64 \<and>
     (\<forall>i<length (shards m).
        distinct (map fst (shards m ! i)) \<and> (\<forall>k\<in>fst ` set (shards m ! i). shard_of m k = i))"

lemma shard_of_less: "sm_inv m \<Longrightarrow> shard_of m k < length (shards m)"
proof -
  assume inv: "sm_inv m"
  then have n: "0 < length (shards m)" "length (shards m) < 2 ^ 64"
    by (auto simp: sm_inv_def)
  then have "unat (word_of_nat (length (shards m)) :: 64 word) = length (shards m)"
    by (simp add: unat_of_nat)
  with n show ?thesis
    by (simp add: shard_of_def unat_mod)
qed

lemma shard_of_upd [simp]: "shard_of (m\<lparr>shards := (shards m)[i := b]\<rparr>) k = shard_of m k"
  by (simp add: shard_of_def)

lemma sm_invD:
  "sm_inv m \<Longrightarrow> i < length (shards m) \<Longrightarrow> distinct (map fst (shards m ! i))"
  "sm_inv m \<Longrightarrow> i < length (shards m) \<Longrightarrow> k \<in> fst ` set (shards m ! i) \<Longrightarrow> shard_of m k = i"
  by (auto simp: sm_inv_def)

lemma sm_inv_upd:
  assumes "sm_inv m" "distinct (map fst b)" "fst ` set b \<subseteq> insert k (fst ` set (shards m ! shard_of m k))"
  shows "sm_inv (m\<lparr>shards := (shards m)[shard_of m k := b]\<rparr>)"
proof -
  let ?m = "m\<lparr>shards := (shards m)[shard_of m k := b]\<rparr>"
  have "distinct (map fst (shards ?m ! i)) \<and> (\<forall>k'\<in>fst ` set (shards ?m ! i). shard_of ?m k' = i)"
    if i: "i < length (shards m)" for i
  proof (cases "i = shard_of m k")
    case True
    have "shard_of m k' = i" if "k' \<in> fst ` set b" for k'
      using that assms(3) True sm_invD(2) [OF assms(1) i] by blast
    with True i assms(2) show ?thesis by simp
  next
    case False
    with i show ?thesis using sm_invD [OF assms(1) i] by simp
  qed
  with assms(1) show ?thesis by (simp add: sm_inv_def)
qed



lemma fst_set_update: "fst ` set (AList.update k v b) = insert k (fst ` set b)"
  by (simp add: dom_update)

lemma fst_set_delete: "fst ` set (AList.delete k b) = fst ` set b - {k}"
  by (metis delete_keys list.set_map set_removeAll)

lemma sm_inv_New: "n < 2 ^ 63 \<Longrightarrow> sm_inv (NewShardedMap n h)"
  by (auto simp: sm_inv_def NewShardedMap_def Let_def)

lemma SM_Load_New: "n < 2 ^ 63 \<Longrightarrow> SM_Load k (NewShardedMap n h :: ('k, 'v) ShardedMap) = None"
proof -
  assume "n < 2 ^ 63"
  then have "sm_inv (NewShardedMap n h :: ('k, 'v) ShardedMap)" by (rule sm_inv_New)
  from shard_of_less [OF this, of k] show ?thesis
    by (auto simp: SM_Load_def NewShardedMap_def Let_def nth_Cons split: nat.splits)
qed

lemma sm_inv_Store: "sm_inv m \<Longrightarrow> sm_inv (SM_Store k v m)"
  unfolding SM_Store_def Let_def
  by (rule sm_inv_upd) (auto simp: distinct_update fst_set_update sm_invD shard_of_less)

lemma sm_inv_Delete: "sm_inv m \<Longrightarrow> sm_inv (SM_Delete k m)"
  unfolding SM_Delete_def Let_def
  using fst_set_delete [of k "shards m ! shard_of m k"]
  by (intro sm_inv_upd) (auto simp add: distinct_delete sm_invD(1) shard_of_less simp del: delete_keys)

lemma SM_Load_Store: "sm_inv m \<Longrightarrow> SM_Load k' (SM_Store k v m) = (if k' = k then Some v else SM_Load k' m)"
  using shard_of_less [of m k] by (auto simp: SM_Store_def Let_def update_conv' SM_Load_def nth_list_update)

lemma SM_Load_Delete: "sm_inv m \<Longrightarrow> SM_Load k' (SM_Delete k m) = (if k' = k then None else SM_Load k' m)"
  using shard_of_less [of m k] by (auto simp: SM_Delete_def Let_def delete_conv' SM_Load_def nth_list_update)

lemma SM_Update_eq:
  "SM_Update k fn m =
     (case fn (SM_Load k m) of
        None \<Rightarrow> (if SM_Load k m = None then m else SM_Delete k m, SM_Load k m \<noteq> None)
      | Some v \<Rightarrow> (SM_Store k v m, True))"
  by (auto simp: SM_Update_def SM_Load_def SM_Store_def SM_Delete_def Let_def split: option.split)

section \<open>The interface a client of the map relies on\<close>

text \<open>
  What the gateway's registries use: lookups after a store and after a delete, under an
  invariant every operation keeps. A conditional replacement (\<open>Update\<close>) is derived from
  them, so its law is proved once for every provider.
\<close>

locale key_map =
  fixes inv :: "'m \<Rightarrow> bool"
    and lookup :: "'k \<Rightarrow> 'm \<Rightarrow> 'v option"
    and store :: "'k \<Rightarrow> 'v \<Rightarrow> 'm \<Rightarrow> 'm"
    and del :: "'k \<Rightarrow> 'm \<Rightarrow> 'm"
    and update :: "'k \<Rightarrow> ('v option \<Rightarrow> 'v option) \<Rightarrow> 'm \<Rightarrow> 'm \<times> bool"
  assumes inv_store: "inv m \<Longrightarrow> inv (store k v m)"
    and inv_del: "inv m \<Longrightarrow> inv (del k m)"
    and lookup_store: "inv m \<Longrightarrow> lookup k' (store k v m) = (if k' = k then Some v else lookup k' m)"
    and lookup_del: "inv m \<Longrightarrow> lookup k' (del k m) = (if k' = k then None else lookup k' m)"
    and update_eq: "update k fn m =
       (case fn (lookup k m) of
          None \<Rightarrow> (if lookup k m = None then m else del k m, lookup k m \<noteq> None)
        | Some v \<Rightarrow> (store k v m, True))"
begin

lemma inv_update: "inv m \<Longrightarrow> inv (fst (update k fn m))"
  by (simp add: update_eq inv_store inv_del split: option.splits)

lemma lookup_update:
  "inv m \<Longrightarrow> lookup k' (fst (update k fn m)) = (if k' = k then fn (lookup k m) else lookup k' m)"
  by (auto simp: update_eq lookup_store lookup_del split: option.splits)

lemma update_touched: "snd (update k fn m) \<longleftrightarrow> fn (lookup k m) \<noteq> None \<or> lookup k m \<noteq> None"
  by (simp add: update_eq split: option.splits)

end

interpretation sm: key_map sm_inv SM_Load SM_Store SM_Delete SM_Update
  by unfold_locales
    (simp_all add: sm_inv_Store sm_inv_Delete SM_Load_Store SM_Load_Delete SM_Update_eq)

section \<open>Range visits the map\<close>

lemma range_items_all:
  "(\<And>x s. fn x s = (f x s, True)) \<Longrightarrow> range_items fn xs s = (fold f xs s, True)"
  by (induction xs arbitrary: s) simp_all

lemma range_shards_all:
  "(\<And>x s. fn x s = (f x s, True)) \<Longrightarrow>
     range_shards ord fn bs s = fold f (concat (map ord bs)) s"
  by (induction bs arbitrary: s) (simp_all add: range_items_all [where f = f])

lemma bucket_disjoint:
  assumes "sm_inv m" "i < length (shards m)" "j < length (shards m)" "i \<noteq> j"
  shows "fst ` set (shards m ! i) \<inter> fst ` set (shards m ! j) = {}"
  using sm_invD(2) [OF assms(1)] assms(2-4) by blast

lemma distinct_concat_keys:
  assumes "\<forall>i<length bs. distinct (map fst (bs ! i))"
    and "\<forall>i<length bs. \<forall>j<length bs. i \<noteq> j \<longrightarrow> fst ` set (bs ! i) \<inter> fst ` set (bs ! j) = {}"
  shows "distinct (map fst (concat bs))"
  using assms
proof (induction bs)
  case Nil
  then show ?case by simp
next
  case (Cons b bs)
  have tl: "distinct (map fst (concat bs))"
  proof (rule Cons.IH)
    show "\<forall>i<length bs. distinct (map fst (bs ! i))" using Cons.prems(1) by (metis Suc_less_eq length_Cons nth_Cons_Suc)
    show "\<forall>i<length bs. \<forall>j<length bs. i \<noteq> j \<longrightarrow> fst ` set (bs ! i) \<inter> fst ` set (bs ! j) = {}"
    proof (intro allI impI)
      fix i j assume "i < length bs" "j < length bs" "i \<noteq> j"
      then show "fst ` set (bs ! i) \<inter> fst ` set (bs ! j) = {}"
        using Cons.prems(2) [rule_format, of "Suc i" "Suc j"] by simp
    qed
  qed
  have "fst ` set b \<inter> fst ` set c = {}" if "c \<in> set bs" for c
  proof -
    from that obtain j where "j < length bs" "c = bs ! j" by (auto simp: in_set_conv_nth)
    then show ?thesis using Cons.prems(2) [rule_format, of 0 "Suc j"] by simp
  qed
  then have "fst ` set b \<inter> fst ` set (concat bs) = {}"
    by (simp add: image_UN Int_UN_distrib)
  moreover have "distinct (map fst b)" using Cons.prems(1) by (metis length_greater_0_conv list.distinct(1) nth_Cons_0)
  ultimately show ?case using tl by (simp add: image_UN)
qed

text \<open>The entries of all shards are exactly the graph of the map, each key once.\<close>

lemma sm_entries:
  assumes inv: "sm_inv m"
  shows "distinct (map fst (concat (shards m)))"
    and "(k, v) \<in> set (concat (shards m)) \<longleftrightarrow> SM_Load k m = Some v"
proof -
  show "distinct (map fst (concat (shards m)))"
    by (rule distinct_concat_keys) (auto simp: sm_invD(1) [OF inv] dest: bucket_disjoint [OF inv])
  show "(k, v) \<in> set (concat (shards m)) \<longleftrightarrow> SM_Load k m = Some v"
  proof
    assume "(k, v) \<in> set (concat (shards m))"
    then obtain b where "b \<in> set (shards m)" "(k, v) \<in> set b" by auto
    then obtain i where i: "i < length (shards m)" "(k, v) \<in> set (shards m ! i)"
      by (metis in_set_conv_nth)
    then have "shard_of m k = i" using sm_invD(2) [OF inv i(1)] by force
    with i sm_invD(1) [OF inv i(1)] show "SM_Load k m = Some v"
      by (simp add: SM_Load_def map_of_is_SomeI)
  next
    assume "SM_Load k m = Some v"
    then have "(k, v) \<in> set (shards m ! shard_of m k)"
      by (simp add: SM_Load_def map_of_SomeD)
    with shard_of_less [OF inv, of k] show "(k, v) \<in> set (concat (shards m))"
      using nth_mem by fastforce
  qed
qed

lemma mset_concat_ord: "(\<And>b. mset (ord b) = mset b) \<Longrightarrow> mset (concat (map ord bs)) = mset (concat bs)"
  by (induction bs) simp_all

text \<open>
  A full \<open>Range\<close> over a sharded map visits every stored entry exactly once, whatever
  order Go iterates each shard in: the collected entries have distinct keys and are the
  graph of \<open>Load\<close>.
\<close>

theorem Range_complete:
  assumes "sm_inv m" and "\<And>b. mset (ord b) = mset b"
  defines "xs \<equiv> SM_Range ord (\<lambda>kv acc. (acc @ [kv], True)) m []"
  shows "distinct (map fst xs) \<and> (\<forall>k v. (k, v) \<in> set xs \<longleftrightarrow> SM_Load k m = Some v)"
proof -
  have "fold (\<lambda>kv acc. acc @ [kv]) ys s = s @ ys" for ys s :: "('a \<times> 'b) list"
    by (induction ys arbitrary: s) simp_all
  then have xs: "xs = concat (map ord (shards m))"
    using range_shards_all [of "\<lambda>kv acc. (acc @ [kv], True)" "\<lambda>kv acc. acc @ [kv]" ord "shards m" "[]"]
    by (simp add: xs_def SM_Range_def)
  have ms: "mset xs = mset (concat (shards m))"
    unfolding xs using assms(2) by (rule mset_concat_ord)
  then have "set xs = set (concat (shards m))" by (rule mset_eq_setD)
  moreover have "distinct (map fst xs)"
    using sm_entries(1) [OF assms(1)] ms by (metis mset_eq_imp_distinct_iff mset_map)
  ultimately show ?thesis using sm_entries(2) [OF assms(1)] by simp
qed

theorem Range_complete_witness:
  "let m = SM_Store 7 ''b'' (SM_Store 2 ''a'' (NewShardedMap 2 id));
       xs = SM_Range rev (\<lambda>kv acc. (acc @ [kv], True)) m []
   in distinct (map fst xs) \<and> (\<forall>k v. (k, v) \<in> set xs \<longleftrightarrow> SM_Load k m = Some v) \<and> xs = [(2, ''a''), (7, ''b'')]"
proof -
  let ?m = "SM_Store 7 ''b'' (SM_Store 2 ''a'' (NewShardedMap 2 id))"
  have new: "NewShardedMap 2 id = \<lparr>shards = [[], []], hash = id\<rparr>"
    by (simp add: NewShardedMap_def numeral_2_eq_2)
  have inv: "sm_inv ?m" by (intro sm_inv_Store sm_inv_New) simp
  have "shards ?m = [[(2, ''a'')], [(7, ''b'')]]"
    by (simp add: new SM_Store_def shard_of_def Let_def)
  then have "SM_Range rev (\<lambda>kv acc. (acc @ [kv], True)) ?m [] = [(2, ''a''), (7, ''b'')]"
    by (simp add: SM_Range_def)
  with Range_complete [OF inv, of rev] show ?thesis by (simp add: Let_def)
qed

end
