(* ===== verification/Multi.thy ===== *)
theory Multi
  imports Registry Syncx
begin

text \<open>
  \<open>internal/engine/multi.go\<close>: the wrapper that gives a plugin one goroutine ("track") per
  event kind, with a drop strategy per queue and interruption by signals.

  Epochs are \<open>int32\<close> counters that wrap. Objects are values of an abstract type; each operation
  returns the objects on which it calls \<open>Release\<close>. The context of a running handler is a
  number; \<open>tr_cancel\<close> is the published cancel function, the number of the context it cancels.
  Track channels are never closed; a send that does not succeed on them is a failed send.
\<close>

record 'a internalData =
  id_epoch :: "32 word"
  id_data :: 'a

record 'a track =
  tr_ch :: "'a internalData chan"
  tr_strategy :: DropStrategy
  tr_epoch :: "32 word"
  tr_cancel :: "nat option"
  tr_signals :: "string list"

definition newStream :: "nat \<Rightarrow> DropStrategy \<Rightarrow> string list \<Rightarrow> 'a track" where
  "newStream bufSize strategy signals =
     \<lparr>tr_ch = make_chan bufSize, tr_strategy = strategy, tr_epoch = 0, tr_cancel = None, tr_signals = signals\<rparr>"

section \<open>Push\<close>

definition pushDropNewest :: "ctx \<Rightarrow> 'a internalData \<Rightarrow> 'a track \<Rightarrow> 'a track \<times> 'a list" where
  "pushDropNewest ctx item t =
     (case SendWithNonBlocking ctx (tr_ch t) item of
        Sent c \<Rightarrow> (t\<lparr>tr_ch := c\<rparr>, [])
      | _ \<Rightarrow> (t, [id_data item]))"

text \<open>The flag says that the sender is parked.\<close>

definition pushBlockIfFull :: "ctx \<Rightarrow> 'a internalData \<Rightarrow> 'a track \<Rightarrow> 'a track \<times> 'a list \<times> bool" where
  "pushBlockIfFull ctx item t =
     (case SendWithContext ctx (tr_ch t) item of
        Sent c \<Rightarrow> (t\<lparr>tr_ch := c\<rparr>, [], False)
      | Parked \<Rightarrow> (t, [], True)
      | _ \<Rightarrow> (t, [id_data item], False))"

text \<open>
  The retry loop of \<open>pushDropOldest\<close>, without a reader between its attempts. A loop that never
  ends is \<open>None\<close>.
\<close>

partial_function (option) pushDropOldest ::
  "ctx \<Rightarrow> 'a internalData \<Rightarrow> 'a track \<Rightarrow> ('a track \<times> 'a list) option" where
  "pushDropOldest ctx item t =
     (case SendWithNonBlocking ctx (tr_ch t) item of
        Sent c \<Rightarrow> Some (t\<lparr>tr_ch := c\<rparr>, [])
      | SendErr err \<Rightarrow>
          if err = ErrSendBlocked
          then case recv (tr_ch t) of
                 None \<Rightarrow> pushDropOldest ctx item t
               | Some (dropped, c) \<Rightarrow>
                   Option.bind (pushDropOldest ctx item (t\<lparr>tr_ch := c\<rparr>)) (\<lambda>(t', rel). Some (t', id_data dropped # rel))
          else Some (t, [id_data item])
      | _ \<Rightarrow> Some (t, [id_data item]))"

definition track_push :: "ctx \<Rightarrow> 'a \<Rightarrow> 'a track \<Rightarrow> ('a track \<times> 'a list \<times> bool) option" where
  "track_push ctx data t =
     (let item = \<lparr>id_epoch = tr_epoch t, id_data = data\<rparr>
      in case tr_strategy t of
           DropNewest \<Rightarrow> (case pushDropNewest ctx item t of (t', rel) \<Rightarrow> Some (t', rel, False))
         | BlockIfFull \<Rightarrow> Some (pushBlockIfFull ctx item t)
         | DropOldest \<Rightarrow> map_option (\<lambda>(t', rel). (t', rel, False)) (pushDropOldest ctx item t))"

section \<open>Interrupt\<close>

text \<open>The second component is the context that gets cancelled.\<close>

definition interruptTrack :: "string \<Rightarrow> 'a track \<Rightarrow> 'a track \<times> nat option" where
  "interruptTrack signalName t =
     (if signalName \<notin> set (tr_signals t) then (t, None)
      else (t\<lparr>tr_epoch := tr_epoch t + 1, tr_cancel := None\<rparr>, tr_cancel t))"

section \<open>The reader\<close>

text \<open>
  Where the goroutine of \<open>readLoop\<close> is: at the top of the loop, in the \<open>select\<close>, with an item
  received, with an item accepted by the pause and epoch check, in the handler under context
  \<open>n\<close>, or gone. Other goroutines may run between any two of these points.
\<close>

datatype 'a reader = AtTop | InSelect | Received "'a internalData" | Accepted "'a internalData" | Handling nat "'a internalData" | Exited

record 'a track_state =
  ts_track :: "'a track"
  ts_ctx :: ctx
  ts_paused :: bool
  ts_reader :: "'a reader"
  ts_pushed :: "'a list"
  ts_released :: "'a list"
  ts_started :: "'a internalData list"
  ts_cancelled :: "nat set"
  ts_next :: nat

definition reader_exit :: "'a track_state \<Rightarrow> 'a track_state" where
  "reader_exit s =
     s\<lparr>ts_reader := Exited, ts_released := ts_released s @ map id_data (ch_buf (tr_ch (ts_track s))),
       ts_track := (ts_track s)\<lparr>tr_ch := (tr_ch (ts_track s))\<lparr>ch_buf := []\<rparr>\<rparr>\<rparr>"

text \<open>One move of the reader; \<open>done_first\<close> is Go's choice when both cases of the \<open>select\<close> are ready.\<close>

definition reader_move :: "bool \<Rightarrow> 'a track_state \<Rightarrow> 'a track_state" where
  "reader_move done_first s =
     (case ts_reader s of
        AtTop \<Rightarrow> if ts_ctx s \<noteq> None then reader_exit s else s\<lparr>ts_reader := InSelect\<rparr>
      | InSelect \<Rightarrow>
          (case recv (tr_ch (ts_track s)) of
             None \<Rightarrow> if ts_ctx s \<noteq> None then reader_exit s else s
           | Some (itl, c) \<Rightarrow>
               if ts_ctx s \<noteq> None \<and> done_first then reader_exit s
               else s\<lparr>ts_reader := Received itl, ts_track := (ts_track s)\<lparr>tr_ch := c\<rparr>\<rparr>)
      | Received itl \<Rightarrow>
          if ts_paused s \<or> id_epoch itl \<noteq> tr_epoch (ts_track s)
          then s\<lparr>ts_reader := AtTop, ts_released := ts_released s @ [id_data itl]\<rparr>
          else s\<lparr>ts_reader := Accepted itl\<rparr>
      | Accepted itl \<Rightarrow>
          s\<lparr>ts_reader := Handling (ts_next s) itl, ts_started := ts_started s @ [itl], ts_next := Suc (ts_next s),
            ts_track := (ts_track s)\<lparr>tr_cancel := Some (ts_next s)\<rparr>\<rparr>
      | Handling n itl \<Rightarrow>
          s\<lparr>ts_reader := AtTop, ts_released := ts_released s @ [id_data itl], ts_cancelled := insert n (ts_cancelled s),
            ts_track := (ts_track s)\<lparr>tr_cancel := None\<rparr>\<rparr>
      | Exited \<Rightarrow> s)"

datatype 'a track_op = TPush 'a | TSignal string | TPause | TResume | TCancel ctx_err | TRead bool

fun track_step :: "'a track_op \<Rightarrow> 'a track_state \<Rightarrow> 'a track_state" where
  "track_step (TPush data) s =
     (case track_push (ts_ctx s) data (ts_track s) of
        None \<Rightarrow> s
      | Some (t', rel, parked) \<Rightarrow>
          if parked then s
          else s\<lparr>ts_track := t', ts_pushed := ts_pushed s @ [data], ts_released := ts_released s @ rel\<rparr>)"
| "track_step (TSignal name) s =
     (case interruptTrack name (ts_track s) of
        (t', c) \<Rightarrow> s\<lparr>ts_track := t', ts_cancelled := set_option c \<union> ts_cancelled s\<rparr>)"
| "track_step TPause s = s\<lparr>ts_paused := True\<rparr>"
| "track_step TResume s = s\<lparr>ts_paused := False\<rparr>"
| "track_step (TCancel e) s = s\<lparr>ts_ctx := Some e\<rparr>"
| "track_step (TRead b) s = reader_move b s"

definition track_start :: "'a track \<Rightarrow> 'a track_state" where
  "track_start t = \<lparr>ts_track = t, ts_ctx = None, ts_paused = False, ts_reader = AtTop, ts_pushed = [], ts_released = [],
     ts_started = [], ts_cancelled = {}, ts_next = 0\<rparr>"

section \<open>The wrapper\<close>

text \<open>
  The plugin with its optional tracks. The wrapped plugin is code of its own: the operations
  return the calls made on it. Media objects get one more reference before they are queued.
\<close>

record MultiTrackPlugin =
  mp_paused :: bool
  mp_payloadTrack :: "nat track option"
  mp_audioTrack :: "nat track option"
  mp_videoTrack :: "nat track option"

type_synonym TrackOption = "MultiTrackPlugin \<Rightarrow> MultiTrackPlugin"

definition WithPayloadTrack :: "nat \<Rightarrow> DropStrategy \<Rightarrow> string list \<Rightarrow> TrackOption" where
  "WithPayloadTrack bufSize strategy signals w = w\<lparr>mp_payloadTrack := Some (newStream bufSize strategy signals)\<rparr>"

definition WithAudioTrack :: "nat \<Rightarrow> DropStrategy \<Rightarrow> string list \<Rightarrow> TrackOption" where
  "WithAudioTrack bufSize strategy signals w = w\<lparr>mp_audioTrack := Some (newStream bufSize strategy signals)\<rparr>"

definition WithVideoTrack :: "nat \<Rightarrow> DropStrategy \<Rightarrow> string list \<Rightarrow> TrackOption" where
  "WithVideoTrack bufSize strategy signals w = w\<lparr>mp_videoTrack := Some (newStream bufSize strategy signals)\<rparr>"

text \<open>\<open>None\<close> is the plugin itself, returned unwrapped.\<close>

definition NewMultiTrackPlugin :: "bool \<Rightarrow> TrackOption list \<Rightarrow> MultiTrackPlugin option" where
  "NewMultiTrackPlugin plugin_nil options =
     (if plugin_nil \<or> options = [] then None
      else Some (fold (\<lambda>opt w. opt w) options
        \<lparr>mp_paused = False, mp_payloadTrack = None, mp_audioTrack = None, mp_videoTrack = None\<rparr>))"

text \<open>\<open>OnStart\<close>: \<open>onStart\<close> is the answer of the wrapped plugin; a reader is started for every track.\<close>

definition Multi_OnStart :: "'e option \<Rightarrow> MultiTrackPlugin \<Rightarrow>
    'e + nat track_state option \<times> nat track_state option \<times> nat track_state option" where
  "Multi_OnStart onStart b =
     (case onStart of
        Some err \<Rightarrow> Inl err
      | None \<Rightarrow> Inr (map_option track_start (mp_payloadTrack b), map_option track_start (mp_audioTrack b),
                    map_option track_start (mp_videoTrack b)))"

datatype plugin_call = CallPause | CallResume | CallSignal string | CallPayload nat | CallAudio nat | CallVideo nat

definition Multi_OnPause :: "MultiTrackPlugin \<Rightarrow> MultiTrackPlugin \<times> plugin_call list" where
  "Multi_OnPause b = (b\<lparr>mp_paused := True\<rparr>, [CallPause])"

definition Multi_OnResume :: "MultiTrackPlugin \<Rightarrow> MultiTrackPlugin \<times> plugin_call list" where
  "Multi_OnResume b = (b\<lparr>mp_paused := False\<rparr>, [CallResume])"

definition interrupt_opt :: "string \<Rightarrow> 'a track option \<Rightarrow> 'a track option \<times> nat option" where
  "interrupt_opt name ot = (case ot of None \<Rightarrow> (None, None) | Some t \<Rightarrow> (case interruptTrack name t of (t', c) \<Rightarrow> (Some t', c)))"

definition Multi_OnSignal :: "string \<Rightarrow> MultiTrackPlugin \<Rightarrow> MultiTrackPlugin \<times> nat option list \<times> plugin_call list" where
  "Multi_OnSignal name b =
     (case interrupt_opt name (mp_payloadTrack b) of
        (p, c1) \<Rightarrow> (case interrupt_opt name (mp_audioTrack b) of
          (a, c2) \<Rightarrow> (case interrupt_opt name (mp_videoTrack b) of
            (v, c3) \<Rightarrow> (b\<lparr>mp_payloadTrack := p, mp_audioTrack := a, mp_videoTrack := v\<rparr>, [c1, c2, c3], [CallSignal name]))))"

text \<open>The results: the wrapper, the calls on the plugin, the objects retained and released, and
  whether the caller is parked; \<open>None\<close> when the push never returns.\<close>

definition Multi_OnPayload :: "ctx \<Rightarrow> nat \<Rightarrow> MultiTrackPlugin \<Rightarrow>
    (MultiTrackPlugin \<times> plugin_call list \<times> nat list \<times> nat list \<times> bool) option" where
  "Multi_OnPayload ctx v b =
     (case mp_payloadTrack b of
        None \<Rightarrow> Some (b, [CallPayload v], [], [], False)
      | Some t \<Rightarrow> map_option (\<lambda>(t', rel, parked). (b\<lparr>mp_payloadTrack := Some t'\<rparr>, [], [], [], parked)) (track_push ctx v t))"

definition Multi_OnAudio :: "ctx \<Rightarrow> nat \<Rightarrow> MultiTrackPlugin \<Rightarrow>
    (MultiTrackPlugin \<times> plugin_call list \<times> nat list \<times> nat list \<times> bool) option" where
  "Multi_OnAudio ctx v b =
     (case mp_audioTrack b of
        None \<Rightarrow> Some (b, [CallAudio v], [], [], False)
      | Some t \<Rightarrow> map_option (\<lambda>(t', rel, parked). (b\<lparr>mp_audioTrack := Some t'\<rparr>, [], [v], rel, parked)) (track_push ctx v t))"

definition Multi_OnVideo :: "ctx \<Rightarrow> nat \<Rightarrow> MultiTrackPlugin \<Rightarrow>
    (MultiTrackPlugin \<times> plugin_call list \<times> nat list \<times> nat list \<times> bool) option" where
  "Multi_OnVideo ctx v b =
     (case mp_videoTrack b of
        None \<Rightarrow> Some (b, [CallVideo v], [], [], False)
      | Some t \<Rightarrow> map_option (\<lambda>(t', rel, parked). (b\<lparr>mp_videoTrack := Some t'\<rparr>, [], [v], rel, parked)) (track_push ctx v t))"

section \<open>The drop strategies\<close>

lemma pushDropOldest_room:
  "ctx = None \<Longrightarrow> \<not> ch_closed (tr_ch t) \<Longrightarrow> \<not> chan_full (tr_ch t) \<Longrightarrow>
     pushDropOldest ctx item t = Some (t\<lparr>tr_ch := (tr_ch t)\<lparr>ch_buf := ch_buf (tr_ch t) @ [item]\<rparr>\<rparr>, [])"
  by (subst pushDropOldest.simps) (simp add: SendWithNonBlocking_def)

lemma pushDropOldest_full:
  assumes "\<not> ch_closed (tr_ch t)" "ch_buf (tr_ch t) = d # ds" "length (ch_buf (tr_ch t)) = ch_cap (tr_ch t)"
  shows "pushDropOldest None item t = Some (t\<lparr>tr_ch := (tr_ch t)\<lparr>ch_buf := ds @ [item]\<rparr>\<rparr>, [id_data d])"
proof -
  let ?t = "t\<lparr>tr_ch := (tr_ch t)\<lparr>ch_buf := ds\<rparr>\<rparr>"
  have "pushDropOldest None item ?t = Some (?t\<lparr>tr_ch := (tr_ch ?t)\<lparr>ch_buf := ds @ [item]\<rparr>\<rparr>, [])"
    using assms by (subst pushDropOldest_room) (auto simp: chan_full_def)
  then show ?thesis
    using assms by (subst pushDropOldest.simps) (simp add: SendWithNonBlocking_def chan_full_def recv_def)
qed

lemma pushDropOldest_spin:
  assumes "pushDropOldest ctx item t = Some r"
  shows "ctx = None \<longrightarrow> ch_closed (tr_ch t) \<or> 0 < ch_cap (tr_ch t)"
proof (rule pushDropOldest.raw_induct
    [where P = "\<lambda>ctx item t r. ctx = None \<longrightarrow> ch_closed (tr_ch t) \<or> 0 < ch_cap (tr_ch t)", OF _ assms])
  fix pdo :: "ctx \<Rightarrow> 'a internalData \<Rightarrow> 'a track \<Rightarrow> ('a track \<times> 'a list) option" and c i u y
  assume ih: "\<And>c i u y. pdo c i u = Some y \<Longrightarrow> c = None \<longrightarrow> ch_closed (tr_ch u) \<or> 0 < ch_cap (tr_ch u)"
    and eq: "(case SendWithNonBlocking c (tr_ch u) i of
        Sent ch \<Rightarrow> Some (u\<lparr>tr_ch := ch\<rparr>, [])
      | SendErr err \<Rightarrow>
          if err = ErrSendBlocked
          then case recv (tr_ch u) of
                 None \<Rightarrow> pdo c i u
               | Some (dropped, ch) \<Rightarrow>
                   Option.bind (pdo c i (u\<lparr>tr_ch := ch\<rparr>)) (\<lambda>(t', rel). Some (t', id_data dropped # rel))
          else Some (u, [id_data i])
      | _ \<Rightarrow> Some (u, [id_data i])) = Some y"
  show "c = None \<longrightarrow> ch_closed (tr_ch u) \<or> 0 < ch_cap (tr_ch u)"
  proof (rule ccontr)
    assume n: "\<not> ?thesis"
    then have s: "SendWithNonBlocking c (tr_ch u) i = SendErr ErrSendBlocked" by (simp add: SendWithNonBlocking_def chan_full_def)
    show False
    proof (cases "recv (tr_ch u)")
      case None
      with eq s ih [of c i u y] n show False by simp
    next
      case (Some p)
      then obtain d ch where p: "p = (d, ch)" "ch_cap ch = ch_cap (tr_ch u)" "ch_closed ch = ch_closed (tr_ch u)"
        by (cases p) (auto simp: recv_Some_iff)
      with eq s Some obtain z where "pdo c i (u\<lparr>tr_ch := ch\<rparr>) = Some z" by (auto simp: bind_eq_Some_conv)
      from ih [OF this] n p show False by simp
    qed
  qed
qed

lemma pushDropOldest_eq:
  assumes "\<not> ch_closed (tr_ch t)" "chan_ok (tr_ch t)"
  shows "pushDropOldest ctx item t =
    (if ctx \<noteq> None then Some (t, [id_data item])
     else if ch_cap (tr_ch t) = 0 then None
     else let buf = ch_buf (tr_ch t); k = length buf + 1 - ch_cap (tr_ch t)
          in Some (t\<lparr>tr_ch := (tr_ch t)\<lparr>ch_buf := drop k buf @ [item]\<rparr>\<rparr>, map id_data (take k buf)))"
proof (cases "ctx = None")
  case False
  then show ?thesis by (subst pushDropOldest.simps) (auto simp: SendWithNonBlocking_def)
next
  case ctx: True
  show ?thesis
  proof (cases "ch_cap (tr_ch t) = 0")
    case True
    with ctx assms(1) pushDropOldest_spin [of ctx item t] show ?thesis by (cases "pushDropOldest ctx item t") auto
  next
    case False
    consider "\<not> chan_full (tr_ch t)" | d ds where "ch_buf (tr_ch t) = d # ds" "length (ch_buf (tr_ch t)) = ch_cap (tr_ch t)"
      using False assms(2)
      by (cases "ch_buf (tr_ch t)"; cases "length (ch_buf (tr_ch t)) = ch_cap (tr_ch t)") (auto simp: chan_full_def chan_ok_def)
    then show ?thesis
    proof cases
      case 1
      then show ?thesis using pushDropOldest_room [OF ctx assms(1) 1] ctx False by (simp add: chan_full_def)
    next
      case 2
      then show ?thesis using pushDropOldest_full [OF assms(1) 2] ctx False by simp
    qed
  qed
qed


definition sample_track :: "nat track" where
  "sample_track = (newStream 1 DropOldest [''interrupt''])
     \<lparr>tr_ch := \<lparr>ch_buf = [\<lparr>id_epoch = 0, id_data = 7\<rparr>], ch_cap = 1, ch_closed = False\<rparr>\<rparr>"


section \<open>Objects are released exactly once\<close>

fun reader_items :: "'a reader \<Rightarrow> 'a multiset" where
  "reader_items (Received itl) = {#id_data itl#}"
| "reader_items (Accepted itl) = {#id_data itl#}"
| "reader_items (Handling n itl) = {#id_data itl#}"
| "reader_items _ = {#}"

definition track_inv :: "'a track_state \<Rightarrow> bool" where
  "track_inv s \<longleftrightarrow> \<not> ch_closed (tr_ch (ts_track s)) \<and> chan_ok (tr_ch (ts_track s)) \<and>
     mset (ts_pushed s) = image_mset id_data (mset (ch_buf (tr_ch (ts_track s)))) + reader_items (ts_reader s) + mset (ts_released s) \<and>
     (ts_reader s = Exited \<longrightarrow> ts_ctx s \<noteq> None \<and> ch_buf (tr_ch (ts_track s)) = []) \<and>
     (\<forall>n itl. ts_reader s = Handling n itl \<longrightarrow> tr_cancel (ts_track s) = Some n \<or> n \<in> ts_cancelled s)"

lemma track_push_inv:
  assumes "track_push ctx data t = Some (t', rel, False)" "\<not> ch_closed (tr_ch t)" "chan_ok (tr_ch t)"
  shows "\<not> ch_closed (tr_ch t') \<and> chan_ok (tr_ch t') \<and> tr_cancel t' = tr_cancel t \<and>
    image_mset id_data (mset (ch_buf (tr_ch t'))) + mset rel = add_mset data (image_mset id_data (mset (ch_buf (tr_ch t)))) \<and>
    (ctx \<noteq> None \<longrightarrow> ch_buf (tr_ch t') = ch_buf (tr_ch t))"
proof (cases "tr_strategy t")
  case DropNewest
  with assms show ?thesis
    by (auto simp: track_push_def pushDropNewest_def SendWithNonBlocking_def chan_ok_def chan_full_def Let_def
        split: option.splits if_splits)
next
  case BlockIfFull
  with assms show ?thesis
    by (auto simp: track_push_def pushBlockIfFull_def SendWithContext_def chan_ok_def chan_full_def Let_def
        split: option.splits if_splits)
next
  case DropOldest
  define k where "k = length (ch_buf (tr_ch t)) + 1 - ch_cap (tr_ch t)"
  have "mset (ch_buf (tr_ch t)) = mset (take k (ch_buf (tr_ch t))) + mset (drop k (ch_buf (tr_ch t)))"
    by (metis append_take_drop_id mset_append)
  then have "image_mset id_data (mset (ch_buf (tr_ch t))) =
      image_mset id_data (mset (take k (ch_buf (tr_ch t)))) + image_mset id_data (mset (drop k (ch_buf (tr_ch t))))"
    by (metis image_mset_union)
  with DropOldest assms show ?thesis
    by (auto simp: track_push_def pushDropOldest_eq chan_ok_def Let_def k_def [symmetric] split: if_splits) (simp add: k_def)
qed

lemma track_step_inv:
  assumes "track_inv s"
  shows "track_inv (track_step op s)"
proof (cases op)
  case (TPush data)
  show ?thesis
  proof (cases "track_push (ts_ctx s) data (ts_track s)")
    case (Some r)
    obtain t' rel parked where r: "r = (t', rel, parked)" by (cases r)
    show ?thesis
    proof (cases parked)
      case False
      have i: "\<not> ch_closed (tr_ch (ts_track s))" "chan_ok (tr_ch (ts_track s))"
        "mset (ts_pushed s) = image_mset id_data (mset (ch_buf (tr_ch (ts_track s)))) + reader_items (ts_reader s) + mset (ts_released s)"
        "ts_reader s = Exited \<longrightarrow> ts_ctx s \<noteq> None \<and> ch_buf (tr_ch (ts_track s)) = []"
        "\<forall>n itl. ts_reader s = Handling n itl \<longrightarrow> tr_cancel (ts_track s) = Some n \<or> n \<in> ts_cancelled s"
        using assms by (simp_all add: track_inv_def)
      have "track_push (ts_ctx s) data (ts_track s) = Some (t', rel, False)" using Some r False by simp
      from track_push_inv [OF this i(1,2)] i(3-5) show ?thesis
        by (auto simp: track_inv_def TPush Some r False ac_simps)
    qed (simp add: TPush Some r assms)
  qed (simp add: TPush assms)
next
  case (TSignal name)
  then show ?thesis using assms by (auto simp: track_inv_def interruptTrack_def)
next
  case (TRead b)
  then show ?thesis
    using assms by (auto simp: track_inv_def reader_move_def reader_exit_def recv_Some_iff chan_ok_def split: reader.split option.splits)
qed (use assms in \<open>auto simp: track_inv_def\<close>)

lemma track_run_inv: "track_inv s \<Longrightarrow> track_inv (fold track_step ops s)"
  by (induction ops arbitrary: s) (auto intro: track_step_inv)

lemma track_start_inv: "track_inv (track_start (newStream n st sigs))"
  by (simp add: track_inv_def track_start_def newStream_def make_chan_def chan_ok_def)


definition sample_track_ops :: "nat track_op list" where
  "sample_track_ops =
     [TPush 7, TPush 8, TRead False, TRead False, TSignal ''interrupt'', TRead False, TCancel Canceled, TRead False]"

lemma sample_track_run:
  "ts_reader (fold track_step sample_track_ops (track_start (newStream 4 BlockIfFull [''interrupt'']))) = Exited \<and>
   ts_pushed (fold track_step sample_track_ops (track_start (newStream 4 BlockIfFull [''interrupt'']))) = [7, 8]"
  by code_simp


section \<open>Interruption\<close>

definition interrupts :: "'a track \<Rightarrow> 'a track_op list \<Rightarrow> nat" where
  "interrupts t ops = length (filter (\<lambda>op. case op of TSignal name \<Rightarrow> name \<in> set (tr_signals t) | _ \<Rightarrow> False) ops)"

lemma track_push_fields:
  "track_push ctx data t = Some (t', rel, parked) \<Longrightarrow> tr_epoch t' = tr_epoch t \<and> tr_signals t' = tr_signals t"
proof (cases "tr_strategy t")
  case DropOldest
  have "tr_epoch (fst r) = tr_epoch t \<and> tr_signals (fst r) = tr_signals t" if "pushDropOldest ctx item t = Some r" for item r
  proof (rule pushDropOldest.raw_induct
      [where P = "\<lambda>ctx item t r. tr_epoch (fst r) = tr_epoch t \<and> tr_signals (fst r) = tr_signals t", OF _ that])
    fix pdo :: "ctx \<Rightarrow> 'a internalData \<Rightarrow> 'a track \<Rightarrow> ('a track \<times> 'a list) option" and c i u y
    assume ih: "\<And>c i u y. pdo c i u = Some y \<Longrightarrow> tr_epoch (fst y) = tr_epoch u \<and> tr_signals (fst y) = tr_signals u"
      and eq: "(case SendWithNonBlocking c (tr_ch u) i of
          Sent ch \<Rightarrow> Some (u\<lparr>tr_ch := ch\<rparr>, [])
        | SendErr err \<Rightarrow>
            if err = ErrSendBlocked
            then case recv (tr_ch u) of
                   None \<Rightarrow> pdo c i u
                 | Some (dropped, ch) \<Rightarrow>
                     Option.bind (pdo c i (u\<lparr>tr_ch := ch\<rparr>)) (\<lambda>(t', rel). Some (t', id_data dropped # rel))
            else Some (u, [id_data i])
        | _ \<Rightarrow> Some (u, [id_data i])) = Some y"
    show "tr_epoch (fst y) = tr_epoch u \<and> tr_signals (fst y) = tr_signals u"
      using eq by (auto simp: bind_eq_Some_conv dest!: ih split: send_outcome.splits if_splits option.splits)
  qed
  then show "track_push ctx data t = Some (t', rel, parked) \<Longrightarrow> ?thesis"
    using DropOldest by (fastforce simp: track_push_def Let_def)
qed (auto simp: track_push_def pushDropNewest_def pushBlockIfFull_def Let_def split: send_outcome.splits)

definition fresh_since :: "32 word \<Rightarrow> nat \<Rightarrow> 'a internalData list \<Rightarrow> 'a track_state \<Rightarrow> bool" where
  "fresh_since e k old s \<longleftrightarrow> tr_epoch (ts_track s) = e + of_nat k \<and> (\<forall>itl. ts_reader s = Accepted itl \<longrightarrow> id_epoch itl \<noteq> e) \<and>
     (\<exists>new. ts_started s = old @ new \<and> (\<forall>itl\<in>set new. id_epoch itl \<noteq> e))"

lemma fresh_step:
  assumes "fresh_since e k old s" "0 < k" "k < 2 ^ 32"
  shows "fresh_since e (k + interrupts (ts_track s) [op]) old (track_step op s) \<and> tr_signals (ts_track (track_step op s)) = tr_signals (ts_track s)"
proof -
  have "of_nat k \<noteq> (0 :: 32 word)" using assms(2,3) by (simp add: word_of_nat_eq_0_iff nat_dvd_not_less)
  then have ne: "id_epoch itl \<noteq> e" if "id_epoch itl = tr_epoch (ts_track s)" for itl :: "'a internalData"
    using assms(1) that by (auto simp: fresh_since_def)
  show ?thesis
  proof (cases op)
    case (TPush data)
    then show ?thesis
      using assms(1) by (auto simp: fresh_since_def interrupts_def dest!: track_push_fields split: option.splits)
  next
    case (TRead b)
    then show ?thesis
      using assms(1) ne by (auto simp: fresh_since_def interrupts_def reader_move_def reader_exit_def recv_Some_iff
          split: reader.split option.splits)
  qed (use assms(1) in \<open>auto simp: fresh_since_def interrupts_def interruptTrack_def add.assoc\<close>)
qed

lemma interrupts_cong: "tr_signals t = tr_signals t' \<Longrightarrow> interrupts t ops = interrupts t' ops"
  by (simp only: interrupts_def)

lemma fresh_run:
  assumes "fresh_since e k old s" "0 < k" "k + interrupts (ts_track s) ops < 2 ^ 32"
  shows "\<exists>k'. fresh_since e k' old (fold track_step ops s)"
  using assms
proof (induction ops arbitrary: s k)
  case (Cons op ops)
  let ?s = "track_step op s"
  have split: "interrupts t (op # ops) = interrupts t [op] + interrupts t ops" for t :: "'a track" by (simp add: interrupts_def)
  from fresh_step [OF Cons.prems(1,2), of op] Cons.prems(3)
  have f: "fresh_since e (k + interrupts (ts_track s) [op]) old ?s" "tr_signals (ts_track ?s) = tr_signals (ts_track s)"
    by (auto simp: split)
  have "interrupts (ts_track ?s) ops = interrupts (ts_track s) ops" using f(2) by (rule interrupts_cong)
  then show ?case using Cons.IH [OF f(1)] Cons.prems(2,3) by (simp add: split)
qed auto

lemma track_run_signals: "tr_signals (ts_track (fold track_step ops s)) = tr_signals (ts_track s)"
proof (induction ops arbitrary: s)
  case (Cons op ops)
  have "tr_signals (ts_track (track_step op s)) = tr_signals (ts_track s)"
    by (cases op) (auto simp: interruptTrack_def reader_move_def reader_exit_def dest!: track_push_fields
        split: option.splits reader.splits)
  with Cons show ?case by simp
qed simp

text \<open>C25. A signal that interrupts a track takes effect at once: a running handler has its context
  cancelled, and no item queued in the epoch that the signal ends is handed to the plugin any
  more, as long as fewer than \<open>2 ^ 32 - 1\<close> further interrupts come before the reader sees it
  (epochs wrap). The one exception is an item the reader has already accepted.\<close>

theorem interrupt_takes_effect:
  assumes "s = fold track_step ops0 (track_start (newStream bufSize strategy signals))" "name \<in> set signals"
    and "s' = fold track_step ops (track_step (TSignal name) s)" "interrupts (ts_track s) ops < 2 ^ 32 - 1"
  shows "(\<forall>n itl. ts_reader s = Handling n itl \<longrightarrow> n \<in> ts_cancelled (track_step (TSignal name) s)) \<and>
    ((\<forall>itl. ts_reader s \<noteq> Accepted itl) \<longrightarrow>
       (\<exists>new. ts_started s' = ts_started s @ new \<and> (\<forall>itl\<in>set new. id_epoch itl \<noteq> tr_epoch (ts_track s))))"
proof -
  let ?s = "track_step (TSignal name) s"
  have sig: "name \<in> set (tr_signals (ts_track s))"
    using assms(1,2) by (simp add: track_run_signals track_start_def newStream_def)
  have inv: "track_inv s" using track_run_inv [OF track_start_inv] assms(1) by blast
  then have "\<forall>n itl. ts_reader s = Handling n itl \<longrightarrow> n \<in> ts_cancelled ?s"
    using sig by (auto simp: track_inv_def interruptTrack_def)
  moreover have "\<exists>new. ts_started s' = ts_started s @ new \<and> (\<forall>itl\<in>set new. id_epoch itl \<noteq> tr_epoch (ts_track s))"
    if "\<forall>itl. ts_reader s \<noteq> Accepted itl"
  proof -
    have "fresh_since (tr_epoch (ts_track s)) 1 (ts_started s) ?s"
      using that sig by (simp add: fresh_since_def interruptTrack_def)
    moreover have "interrupts (ts_track ?s) ops = interrupts (ts_track s) ops"
      by (rule interrupts_cong) (simp add: interruptTrack_def)
    ultimately show ?thesis using fresh_run [of "tr_epoch (ts_track s)" 1 "ts_started s" ?s ops] assms(3,4)
      by (auto simp: fresh_since_def)
  qed
  ultimately show ?thesis by blast
qed

theorem interrupt_takes_effect_witness:
  "\<exists>s s'. s = fold track_step [TPush 7, TPush (8 :: nat)] (track_start (newStream 4 BlockIfFull [''interrupt''])) \<and>
     s' = fold track_step [TRead False, TRead False] (track_step (TSignal ''interrupt'') s) \<and>
     (\<exists>new. ts_started s' = ts_started s @ new \<and> (\<forall>itl\<in>set new. id_epoch itl \<noteq> tr_epoch (ts_track s)))"
proof -
  let ?s0 = "track_start (newStream 4 BlockIfFull [''interrupt''])" and ?p = "[TPush 7, TPush (8 :: nat)]"
  have "ts_reader (fold track_step ?p ?s0) = AtTop" by code_simp
  then have r: "\<forall>itl. ts_reader (fold track_step ?p ?s0) \<noteq> Accepted itl" by simp
  have "interrupts (ts_track (fold track_step ?p ?s0)) [TRead False, TRead False] < 2 ^ 32 - 1" by (simp add: interrupts_def)
  from interrupt_takes_effect [OF refl _ refl this] r show ?thesis by auto
qed


end
