(* ===== verification/Props.thy ===== *)
theory Props
  imports Prelude
begin

text \<open>
  \<open>internal/schema\<close>: the property sets every schema object carries (\<open>interface.go\<close>,
  \<open>helper.go\<close>) and the two objects that are nothing but a named property set, payloads
  (\<open>payload.go\<close>) and signals (\<open>signal.go\<close>).

  \<open>any\<close> separates what \<open>snapshot\<close> separates: values kept as they are (\<open>AScalar\<close>, and
  strings), byte slices, buffers and builders (copied), and everything else, which goes
  through \<open>sonic.Marshal\<close>. JSON encoding and decoding are third-party code and stay
  parameters. Byte slices are values here: that \<open>snapshot\<close> copies them is part of the
  model's value semantics and not a theorem.

  Payloads and signals are objects shared by pointer, so their operations act on a store
  of objects addressed by index; \<open>Mutable\<close> either allocates or returns the same index.
\<close>

section \<open>Values and property sets\<close>

datatype ('s, 'o) any =
    AScalar 's
  | AStr string
  | ABytes bytes
  | ABuffer bytes
  | ABuilder string
  | AOther 'o

datatype 'e schema_error =
    ErrKeyNotFound | ErrNotSerializedBytes | ErrReadOnly | ErrJSON 'e

record 'v properties =
  entries :: "(string \<times> 'v) list"
  readonly :: bool

definition new_props :: "'v properties" where
  "new_props = \<lparr>entries = [], readonly = False\<rparr>"

definition props_Clone :: "'v properties \<Rightarrow> 'v properties" where
  "props_Clone b =
     (if entries b = [] then \<lparr>entries = [], readonly = False\<rparr>
      else \<lparr>entries = entries b, readonly = False\<rparr>)"

definition props_copyTo :: "'v properties \<Rightarrow> 'v properties \<Rightarrow> 'v properties" where
  "props_copyTo b dst = dst\<lparr>entries := entries b\<rparr>"

text \<open>\<open>Get\<close> walks the entries from the last to the first: the newest value of a key wins.\<close>

definition props_Get :: "string \<Rightarrow> 'v properties \<Rightarrow> 'v option" where
  "props_Get key b = map_of (rev (entries b)) key"

fun snapshot :: "('o \<Rightarrow> 'e + bytes) \<Rightarrow> ('s, 'o) any \<Rightarrow> 'e + ('s, 'o) any" where
  "snapshot marshal (AScalar v) = Inr (AScalar v)"
| "snapshot marshal (AStr v) = Inr (AStr v)"
| "snapshot marshal (ABytes v) = Inr (ABytes v)"
| "snapshot marshal (ABuffer v) = Inr (ABytes v)"
| "snapshot marshal (ABuilder v) = Inr (AStr v)"
| "snapshot marshal (AOther v) = (case marshal v of Inl e \<Rightarrow> Inl e | Inr bs \<Rightarrow> Inr (ABytes bs))"

definition props_Set ::
  "('o \<Rightarrow> 'e + bytes) \<Rightarrow> string \<Rightarrow> ('s, 'o) any \<Rightarrow> ('s, 'o) any properties \<Rightarrow>
   ('s, 'o) any properties \<times> 'e schema_error option" where
  "props_Set marshal key v b =
     (if readonly b then (b, Some ErrReadOnly)
      else case snapshot marshal v of
             Inl e \<Rightarrow> (b, Some (ErrJSON e))
           | Inr dst \<Rightarrow> (b\<lparr>entries := entries b @ [(key, dst)]\<rparr>, None))"

definition Bind ::
  "(bytes \<Rightarrow> 'e + 't) \<Rightarrow> string \<Rightarrow> ('s, 'o) any properties \<Rightarrow> 'e schema_error + 't" where
  "Bind unmarshal key b =
     (case props_Get key b of
        None \<Rightarrow> Inl ErrKeyNotFound
      | Some (ABytes bs) \<Rightarrow> (case unmarshal bs of Inl e \<Rightarrow> Inl (ErrJSON e) | Inr t \<Rightarrow> Inr t)
      | Some _ \<Rightarrow> Inl ErrNotSerializedBytes)"

text \<open>\<open>GetAs\<close>: \<open>as_T\<close> is Go's type assertion to the requested type.\<close>

definition GetAs :: "('v \<Rightarrow> 't option) \<Rightarrow> 't \<Rightarrow> string \<Rightarrow> 't list \<Rightarrow> 'v properties \<Rightarrow> 't" where
  "GetAs as_T zero key defaultVal data =
     (case props_Get key data of
        None \<Rightarrow> if length defaultVal > 0 then defaultVal ! 0 else zero
      | Some val \<Rightarrow>
          (case as_T val of
             Some v \<Rightarrow> v
           | None \<Rightarrow> if length defaultVal > 0 then defaultVal ! 0 else zero))"

text \<open>
  \<open>MarshalJSON\<close> up to the final \<open>sonic.Marshal\<close>: the map it builds, walking the entries
  backwards and keeping the first value met for a key. A stored byte slice is embedded as
  raw JSON (\<open>Inl\<close>), any other value is encoded (\<open>Inr\<close>).
\<close>

fun json_value :: "('s, 'o) any \<Rightarrow> bytes + ('s, 'o) any" where
  "json_value (ABytes bs) = Inl bs"
| "json_value v = Inr v"

fun json_walk :: "(string \<times> ('s, 'o) any) list \<Rightarrow> string list \<Rightarrow>
    (string \<rightharpoonup> bytes + ('s, 'o) any) \<Rightarrow> (string \<rightharpoonup> bytes + ('s, 'o) any)" where
  "json_walk [] seen m = m"
| "json_walk (e # es) seen m =
     (if fst e \<in> set seen then json_walk es seen m
      else json_walk es (fst e # seen) (m(fst e \<mapsto> json_value (snd e))))"

definition MarshalJSON_map :: "('s, 'o) any properties \<Rightarrow> (string \<rightharpoonup> bytes + ('s, 'o) any)" where
  "MarshalJSON_map b =
     (if entries b = [] then Map.empty else json_walk (rev (entries b)) [] Map.empty)"

text \<open>
  \<open>UnmarshalJSON\<close>: \<open>decode\<close> is \<open>sonic.Unmarshal\<close> into a map followed by Go's iteration
  over it, hence a list of pairs with distinct keys in some order.
\<close>

fun set_all ::
  "('o \<Rightarrow> 'e + bytes) \<Rightarrow> (string \<times> ('s, 'o) any) list \<Rightarrow> ('s, 'o) any properties \<Rightarrow>
   ('s, 'o) any properties \<times> 'e schema_error option" where
  "set_all marshal [] b = (b, None)"
| "set_all marshal ((k, v) # kvs) b =
     (case props_Set marshal k v b of
        (b', Some e) \<Rightarrow> (b', Some e)
      | (b', None) \<Rightarrow> set_all marshal kvs b')"

definition UnmarshalJSON ::
  "('o \<Rightarrow> 'e + bytes) \<Rightarrow> (bytes \<Rightarrow> 'e + (string \<times> ('s, 'o) any) list) \<Rightarrow> bytes \<Rightarrow>
   ('s, 'o) any properties \<Rightarrow> ('s, 'o) any properties \<times> 'e schema_error option" where
  "UnmarshalJSON marshal decode data b =
     (case decode data of Inl e \<Rightarrow> (b, Some (ErrJSON e)) | Inr m \<Rightarrow> set_all marshal m b)"

section \<open>Payloads and signals\<close>

record 'v named_props = "'v properties" +
  np_name :: string

type_synonym 'v obj_store = "'v named_props list"

definition NewPayload :: "string \<Rightarrow> 'v obj_store \<Rightarrow> nat \<times> 'v obj_store" where
  "NewPayload name st =
     (length st, st @ [\<lparr>entries = [], readonly = False, np_name = name\<rparr>])"

definition Payload_Mutable :: "nat \<Rightarrow> 'v obj_store \<Rightarrow> nat \<times> 'v obj_store" where
  "Payload_Mutable i st =
     (let b = st ! i in
      if readonly b
      then (length st, st @ [properties.extend (props_Clone (properties.truncate b)) \<lparr>np_name = np_name b\<rparr>])
      else (i, st))"

definition Payload_ReadOnly :: "nat \<Rightarrow> 'v obj_store \<Rightarrow> nat \<times> 'v obj_store" where
  "Payload_ReadOnly i st = (i, st[i := (st ! i)\<lparr>readonly := True\<rparr>])"

definition NewSignal :: "string \<Rightarrow> 'v obj_store \<Rightarrow> nat \<times> 'v obj_store" where
  "NewSignal name st =
     (length st, st @ [\<lparr>entries = [], readonly = False, np_name = name\<rparr>])"

definition Signal_Mutable :: "nat \<Rightarrow> 'v obj_store \<Rightarrow> nat \<times> 'v obj_store" where
  "Signal_Mutable i st =
     (let b = st ! i in
      if readonly b
      then (length st, st @ [properties.extend (props_Clone (properties.truncate b)) \<lparr>np_name = np_name b\<rparr>])
      else (i, st))"

definition Signal_ReadOnly :: "nat \<Rightarrow> 'v obj_store \<Rightarrow> nat \<times> 'v obj_store" where
  "Signal_ReadOnly i st = (i, st[i := (st ! i)\<lparr>readonly := True\<rparr>])"

text \<open>\<open>Set\<close> and \<open>UnmarshalJSON\<close> called on an object of the store.\<close>

definition on_props :: "('v properties \<Rightarrow> 'v properties \<times> 'r) \<Rightarrow> nat \<Rightarrow> 'v obj_store \<Rightarrow> 'v obj_store \<times> 'r" where
  "on_props f i st =
     (case f (properties.truncate (st ! i)) of
        (b', r) \<Rightarrow> (st[i := properties.extend b' \<lparr>np_name = np_name (st ! i)\<rparr>], r))"

datatype ('s, 'o) obj_op =
    ONewPayload string | ONewSignal string
  | OPayloadMutable nat | OSignalMutable nat
  | OPayloadReadOnly nat | OSignalReadOnly nat
  | OSet nat string "('s, 'o) any"
  | OUnmarshalJSON nat bytes

fun obj_step ::
  "('o \<Rightarrow> 'e + bytes) \<Rightarrow> (bytes \<Rightarrow> 'e + (string \<times> ('s, 'o) any) list) \<Rightarrow> ('s, 'o) obj_op \<Rightarrow>
   ('s, 'o) any obj_store \<Rightarrow> ('s, 'o) any obj_store" where
  "obj_step mj dj (ONewPayload n) st = snd (NewPayload n st)"
| "obj_step mj dj (ONewSignal n) st = snd (NewSignal n st)"
| "obj_step mj dj (OPayloadMutable i) st = snd (Payload_Mutable i st)"
| "obj_step mj dj (OSignalMutable i) st = snd (Signal_Mutable i st)"
| "obj_step mj dj (OPayloadReadOnly i) st = snd (Payload_ReadOnly i st)"
| "obj_step mj dj (OSignalReadOnly i) st = snd (Signal_ReadOnly i st)"
| "obj_step mj dj (OSet i k v) st = fst (on_props (props_Set mj k v) i st)"
| "obj_step mj dj (OUnmarshalJSON i d) st = fst (on_props (UnmarshalJSON mj dj d) i st)"

section \<open>Laws of property sets\<close>

lemma props_Get_Set:
  "props_Set mj k v b = (b', None) \<Longrightarrow>
     \<exists>d. snapshot mj v = Inr d \<and> props_Get k' b' = (if k' = k then Some d else props_Get k' b)"
  by (auto simp: props_Set_def props_Get_def split: sum.splits if_splits)

lemma props_Set_readonly: "readonly b \<Longrightarrow> props_Set mj k v b = (b, Some ErrReadOnly)"
  by (simp add: props_Set_def)

lemma props_Set_keeps: "props_Set mj k v b = (b', r) \<Longrightarrow> readonly b' = readonly b"
  by (auto simp: props_Set_def split: sum.splits if_splits)

lemma props_Set_error: "props_Set mj k v b = (b', Some e) \<Longrightarrow> b' = b"
  by (auto simp: props_Set_def split: sum.splits if_splits)

lemma set_all_readonly: "readonly b \<Longrightarrow> fst (set_all mj kvs b) = b"
  by (cases kvs) (auto simp: props_Set_readonly)

lemma UnmarshalJSON_readonly: "readonly b \<Longrightarrow> fst (UnmarshalJSON mj dj d b) = b"
  by (auto simp: UnmarshalJSON_def set_all_readonly split: sum.splits)

lemma set_all_Get:
  "set_all mj kvs b = (b', None) \<Longrightarrow> distinct (map fst kvs) \<Longrightarrow>
     props_Get k b' =
       (case map_of kvs k of
          None \<Rightarrow> props_Get k b
        | Some v \<Rightarrow> (case snapshot mj v of Inr d \<Rightarrow> Some d | Inl _ \<Rightarrow> None))"
proof (induction kvs arbitrary: b)
  case Nil
  then show ?case by simp
next
  case (Cons kv kvs)
  obtain k1 v1 where kv: "kv = (k1, v1)" by (cases kv)
  with Cons.prems(1) obtain b1 where b1: "props_Set mj k1 v1 b = (b1, None)" "set_all mj kvs b1 = (b', None)"
    by (auto split: prod.splits option.splits)
  from Cons.prems(2) kv have d: "distinct (map fst kvs)" "map_of kvs k1 = None"
    by (auto simp: map_of_eq_None_iff)
  note ih = Cons.IH [OF b1(2) d(1)]
  from props_Get_Set [OF b1(1), of k] show ?case
    using ih d(2) kv by (auto split: option.splits)
qed

lemma json_walk_eq:
  "json_walk es seen m k =
     (if k \<in> set seen then m k
      else case map_of es k of None \<Rightarrow> m k | Some v \<Rightarrow> Some (json_value v))"
proof (induction es arbitrary: seen m)
  case Nil
  then show ?case by simp
next
  case (Cons e es)
  then show ?case by (cases e) (auto split: option.split)
qed

section \<open>Read-only objects are immutable\<close>

lemma on_props_length [simp]: "length (fst (on_props f i st)) = length st"
  by (simp add: on_props_def split: prod.splits)

lemma on_props_readonly:
  assumes "readonly (st ! j)" and "\<And>b. readonly b \<Longrightarrow> fst (f b) = b"
  shows "fst (on_props f i st) ! j = st ! j"
proof (cases "i = j \<and> j < length st")
  case True
  have "fst (f (properties.truncate (st ! j))) = properties.truncate (st ! j)"
    using assms by (intro assms(2)) (simp add: properties.defs)
  with True show ?thesis
    by (auto simp: on_props_def properties.defs split: prod.splits)
next
  case False
  then show ?thesis
    by (cases "i < length st")
      (auto simp: on_props_def nth_list_update list_update_beyond split: prod.splits)
qed



lemma set_readonly_keeps:
  "readonly (st ! j) \<Longrightarrow> st[i := (st ! i)\<lparr>readonly := True\<rparr>] ! j = st ! j"
  by (cases "i < length st"; cases "i = j") (simp_all add: list_update_beyond)

lemma obj_step_readonly:
  assumes "j < length st" "readonly (st ! j)"
  shows "j < length (obj_step mj dj op st) \<and> obj_step mj dj op st ! j = st ! j"
  using assms
  by (cases op)
    (auto simp: NewPayload_def NewSignal_def Payload_Mutable_def Signal_Mutable_def Let_def nth_append
      Payload_ReadOnly_def Signal_ReadOnly_def set_readonly_keeps on_props_readonly
      props_Set_readonly UnmarshalJSON_readonly)

section \<open>Properties\<close>

text \<open>
  C23. A payload or signal that has been made read-only never changes again: no sequence of
  constructor, \<open>Mutable\<close>, \<open>ReadOnly\<close>, \<open>Set\<close> and \<open>UnmarshalJSON\<close> calls on any object of
  the store, the object itself included, alters its name, its entries or its flag.
\<close>

theorem readonly_immutable:
  assumes "j < length st" "readonly (st ! j)"
  shows "fold (obj_step mj dj) ops st ! j = st ! j"
  using assms
proof (induction ops arbitrary: st)
  case Nil
  then show ?case by simp
next
  case (Cons op ops)
  from obj_step_readonly [OF Cons.prems, of mj dj op] Cons.prems Cons.IH [of "obj_step mj dj op st"]
  show ?case by simp
qed

theorem readonly_immutable_witness:
  "let st = fold (obj_step (\<lambda>_::unit. Inl ()) (\<lambda>_. Inl ()))
              [ONewPayload ''p'', OSet 0 ''k'' (AScalar (1::int)), OPayloadReadOnly 0] [];
       st' = fold (obj_step (\<lambda>_::unit. Inl ()) (\<lambda>_. Inl ()))
              [OSet 0 ''k'' (AScalar 2), OPayloadMutable 0, OSet 1 ''k'' (AScalar 3)] st
   in readonly (st ! 0) \<and> st' ! 0 = st ! 0 \<and> props_Get ''k'' (properties.truncate (st' ! 1)) = Some (AScalar 3)"
proof -
  define st where "st = fold (obj_step (\<lambda>_::unit. Inl ()) (\<lambda>_. Inl ()))
              [ONewPayload ''p'', OSet 0 ''k'' (AScalar (1::int)), OPayloadReadOnly 0] []"
  have st: "st = [\<lparr>entries = [(''k'', AScalar 1)], readonly = True, np_name = ''p''\<rparr>]"
    by (simp add: st_def NewPayload_def on_props_def props_Set_def Payload_ReadOnly_def properties.defs)
  have h: "0 < length st" "readonly (st ! 0)" by (simp_all add: st)
  show ?thesis
    unfolding st_def [symmetric] Let_def
    using readonly_immutable [OF h, of "\<lambda>_::unit. Inl ()" "\<lambda>_. Inl ()"
        "[OSet 0 ''k'' (AScalar 2), OPayloadMutable 0, OSet 1 ''k'' (AScalar 3)]"] h
    by (simp add: st on_props_def props_Set_def Payload_Mutable_def props_Clone_def properties.defs props_Get_def)
qed

text \<open>
  \<open>MarshalJSON\<close> agrees with \<open>Get\<close>: the JSON object it builds has exactly the keys
  \<open>Get\<close> finds, each with the value \<open>Get\<close> returns (the newest one), byte slices embedded
  as raw JSON.
\<close>

theorem marshal_json_agrees_with_get:
  "MarshalJSON_map b k = map_option json_value (props_Get k b)"
  by (auto simp: MarshalJSON_map_def json_walk_eq props_Get_def split: option.splits)

text \<open>
  After a successful \<open>UnmarshalJSON\<close>, whatever order Go iterates the decoded map in,
  every decoded key reads back as the snapshot of its value and every other key reads as
  before; on a read-only object nothing changes.
\<close>

theorem unmarshal_json_get:
  assumes "dj data = Inr m" "distinct (map fst m)" "UnmarshalJSON mj dj data b = (b', None)"
  shows "props_Get k b' =
     (case map_of m k of
        None \<Rightarrow> props_Get k b
      | Some v \<Rightarrow> (case snapshot mj v of Inr d \<Rightarrow> Some d | Inl _ \<Rightarrow> None))"
  using assms by (intro set_all_Get) (simp_all add: UnmarshalJSON_def)

theorem unmarshal_json_get_witness:
  "props_Get ''a'' (fst (UnmarshalJSON (\<lambda>_::unit. Inr [7] :: unit + bytes) (\<lambda>_. Inr [(''b'', AScalar (5::int)), (''a'', AOther ())])
      [] (new_props :: (int, unit) any properties))) = Some (ABytes [7])"
proof -
  let ?mj = "(\<lambda>_::unit. Inr [7]) :: unit \<Rightarrow> unit + bytes"
  let ?m = "[(''b'', AScalar (5::int)), (''a'', AOther ())]"
  have "UnmarshalJSON ?mj (\<lambda>_. Inr ?m) [] new_props
      = (\<lparr>entries = [(''b'', AScalar 5), (''a'', ABytes [7])], readonly = False\<rparr>, None)"
    by (simp add: UnmarshalJSON_def props_Set_def new_props_def)
  note u = this
  have "props_Get ''a'' \<lparr>entries = [(''b'', AScalar (5::int)), (''a'', ABytes [7] :: (int, unit) any)],
      readonly = False\<rparr> = Some (ABytes [7])"
    using unmarshal_json_get [OF _ _ u, of ?m "''a''"] by simp
  then show ?thesis by (simp only: u fst_conv)
qed

end
