(* ===== verification/Refcount.thy ===== *)
theory Refcount
  imports Prelude
begin

text \<open>
  The contract of \<open>schema.RefCountable\<close> (\<open>internal/schema/interface.go\<close>) as the engine
  relies on it: objects live in a heap \<open>'h\<close>, \<open>refs h i\<close> is the reference count of object
  \<open>i\<close> (zero when the object is parked in its pool or does not exist), and a client that
  holds a reference may retain it again or release it.

  The locale's client is any set of holders: \<open>held\<close> counts, per object, the references
  the holders own. As long as holders only retain and release what they own, the counts in
  the heap are exactly the held references, for every interleaving of their operations.
  \<open>Media\<close> interprets the locale for audio and video; the node model relies on it.
\<close>

datatype ('a, 'i) ref_op = RNew 'a | RRetain 'i | RRelease 'i

locale refcounted =
  fixes heap_ok :: "'h \<Rightarrow> bool"
    and refs :: "'h \<Rightarrow> 'i \<Rightarrow> int"
    and new :: "'a \<Rightarrow> 'h \<Rightarrow> 'i \<times> 'h"
    and retain :: "'i \<Rightarrow> 'h \<Rightarrow> 'h"
    and release :: "'i \<Rightarrow> 'h \<Rightarrow> 'h"
  assumes new_dead: "heap_ok h \<Longrightarrow> new a h = (i, h') \<Longrightarrow> refs h i = 0"
    and new_ok: "heap_ok h \<Longrightarrow> new a h = (i, h') \<Longrightarrow> heap_ok h'"
    and new_refs: "heap_ok h \<Longrightarrow> new a h = (i, h') \<Longrightarrow> refs h' = (refs h)(i := 1)"
    and retain_ok: "heap_ok h \<Longrightarrow> 0 < refs h i \<Longrightarrow> heap_ok (retain i h)"
    and retain_refs: "heap_ok h \<Longrightarrow> 0 < refs h i \<Longrightarrow> refs (retain i h) = (refs h)(i := refs h i + 1)"
    and release_ok: "heap_ok h \<Longrightarrow> 0 < refs h i \<Longrightarrow> heap_ok (release i h)"
    and release_refs: "heap_ok h \<Longrightarrow> 0 < refs h i \<Longrightarrow> refs (release i h) = (refs h)(i := refs h i - 1)"
begin

text \<open>One operation of some holder, on the heap and on the holders' ledger.\<close>

fun ref_step :: "('a, 'i) ref_op \<Rightarrow> 'h \<times> ('i \<Rightarrow> nat) \<Rightarrow> 'h \<times> ('i \<Rightarrow> nat)" where
  "ref_step (RNew a) (h, held) = (case new a h of (i, h') \<Rightarrow> (h', held(i := Suc (held i))))"
| "ref_step (RRetain i) (h, held) =
     (if held i = 0 then (h, held) else (retain i h, held(i := Suc (held i))))"
| "ref_step (RRelease i) (h, held) =
     (if held i = 0 then (h, held) else (release i h, held(i := held i - 1)))"

definition accounted :: "'h \<times> ('i \<Rightarrow> nat) \<Rightarrow> bool" where
  "accounted s \<longleftrightarrow> heap_ok (fst s) \<and> (\<forall>i. refs (fst s) i = int (snd s i))"

lemma accounted_step: "accounted s \<Longrightarrow> accounted (ref_step op s)"
proof (cases s)
  case (Pair h held)
  assume acc: "accounted s"
  then have h: "heap_ok h" and r: "\<And>i. refs h i = int (held i)" by (auto simp: accounted_def Pair)
  show ?thesis
  proof (cases op)
    case (RNew a)
    obtain i h' where n: "new a h = (i, h')" by (cases "new a h")
    from new_dead [OF h n] r have "held i = 0" by simp
    with n RNew Pair show ?thesis
      using new_ok [OF h n] new_refs [OF h n] r by (simp add: accounted_def)
  next
    case (RRetain i)
    have pos: "0 < refs h i" if "held i \<noteq> 0" using that r [of i] by simp
    have "accounted (retain i h, held(i := Suc (held i)))" if "held i \<noteq> 0"
      using retain_ok [OF h pos [OF that]] retain_refs [OF h pos [OF that]] r by (simp add: accounted_def)
    with RRetain Pair acc show ?thesis by simp
  next
    case (RRelease i)
    have pos: "0 < refs h i" if "held i \<noteq> 0" using that r [of i] by simp
    have "accounted (release i h, held(i := held i - 1))" if "held i \<noteq> 0"
      using release_ok [OF h pos [OF that]] release_refs [OF h pos [OF that]] r that
      by (simp add: accounted_def of_nat_diff)
    with RRelease Pair acc show ?thesis by simp
  qed
qed

lemma accounted_run: "accounted s \<Longrightarrow> accounted (fold ref_step ops s)"
  by (induction ops arbitrary: s) (simp_all add: accounted_step)

text \<open>Retaining an object \<open>n\<close> times, as a fan-out does.\<close>

lemma retain_many:
  "heap_ok h \<Longrightarrow> 0 < refs h i \<Longrightarrow>
     heap_ok ((retain i ^^ n) h) \<and> refs ((retain i ^^ n) h) = (refs h)(i := refs h i + int n)"
proof (induction n)
  case 0
  then show ?case by simp
next
  case (Suc n)
  then have ih: "heap_ok ((retain i ^^ n) h)" "refs ((retain i ^^ n) h) = (refs h)(i := refs h i + int n)"
    by blast+
  with Suc.prems(2) have "0 < refs ((retain i ^^ n) h) i" by simp
  from retain_ok [OF ih(1) this] retain_refs [OF ih(1) this] ih(2) show ?case
    by (simp add: add.assoc fun_eq_iff)
qed

end

text \<open>
  The rest of the media contract: \<open>view h i\<close> is what a reader of object \<open>i\<close> sees, \<open>touch\<close>
  any setter, \<open>mutable\<close> the copy-on-write entry point. A frozen (read-only) object is never
  changed by a setter, and \<open>mutable\<close> of a frozen object is a new object with the same view
  but for the freeze (\<open>thaw\<close>).
\<close>

datatype ('a, 't, 'i) media_op = MRef "('a, 'i) ref_op" | MTouch 't 'i | MMutable "nat option" 'i

locale shared_media = refcounted heap_ok refs new retain release
  for heap_ok :: "'h \<Rightarrow> bool" and refs :: "'h \<Rightarrow> 'i \<Rightarrow> int" and new :: "'a \<Rightarrow> 'h \<Rightarrow> 'i \<times> 'h"
    and retain :: "'i \<Rightarrow> 'h \<Rightarrow> 'h" and release :: "'i \<Rightarrow> 'h \<Rightarrow> 'h" +
  fixes view :: "'h \<Rightarrow> 'i \<Rightarrow> 'o"
    and frozen :: "'o \<Rightarrow> bool"
    and thaw :: "'o \<Rightarrow> 'o"
    and touch :: "'t \<Rightarrow> 'i \<Rightarrow> 'h \<Rightarrow> 'h"
    and mutable :: "nat option \<Rightarrow> 'i \<Rightarrow> 'h \<Rightarrow> 'i \<times> 'h"
  assumes new_view: "heap_ok h \<Longrightarrow> new a h = (i, h') \<Longrightarrow> 0 < refs h j \<Longrightarrow> view h' j = view h j"
    and retain_view: "heap_ok h \<Longrightarrow> 0 < refs h i \<Longrightarrow> view (retain i h) j = view h j"
    and release_view: "heap_ok h \<Longrightarrow> 0 < refs h i \<Longrightarrow> 0 < refs (release i h) j \<Longrightarrow> view (release i h) j = view h j"
    and touch_ok: "heap_ok h \<Longrightarrow> 0 < refs h i \<Longrightarrow> heap_ok (touch t i h)"
    and touch_refs: "heap_ok h \<Longrightarrow> 0 < refs h i \<Longrightarrow> refs (touch t i h) = refs h"
    and touch_view: "heap_ok h \<Longrightarrow> 0 < refs h i \<Longrightarrow> j \<noteq> i \<or> frozen (view h i) \<Longrightarrow> view (touch t i h) j = view h j"
    and mutable_id: "heap_ok h \<Longrightarrow> 0 < refs h i \<Longrightarrow> \<not> frozen (view h i) \<Longrightarrow> mutable p i h = (i, h)"
    and mutable_copy: "heap_ok h \<Longrightarrow> 0 < refs h i \<Longrightarrow> frozen (view h i) \<Longrightarrow> mutable p i h = (j, h') \<Longrightarrow>
          refs h j = 0 \<and> heap_ok h' \<and> refs h' = (refs h)(j := 1) \<and> view h' j = thaw (view h i)"
    and mutable_view: "heap_ok h \<Longrightarrow> 0 < refs h i \<Longrightarrow> mutable p i h = (j, h') \<Longrightarrow> 0 < refs h k \<Longrightarrow>
          view h' k = view h k"
begin

fun media_step :: "('a, 't, 'i) media_op \<Rightarrow> 'h \<times> ('i \<Rightarrow> nat) \<Rightarrow> 'h \<times> ('i \<Rightarrow> nat)" where
  "media_step (MRef r) s = ref_step r s"
| "media_step (MTouch t i) (h, held) = (if held i = 0 then (h, held) else (touch t i h, held))"
| "media_step (MMutable p i) (h, held) =
     (if held i = 0 then (h, held)
      else case mutable p i h of
             (j, h') \<Rightarrow> (h', if j = i then held else held(j := Suc (held j))))"

lemma accounted_media_step: "accounted s \<Longrightarrow> accounted (media_step op s)"
proof (cases s)
  case (Pair h held)
  assume acc: "accounted s"
  then have h: "heap_ok h" and r: "\<And>i. refs h i = int (held i)" by (auto simp: accounted_def Pair)
  show ?thesis
  proof (cases op)
    case (MRef x)
    then show ?thesis using accounted_step [OF acc] by simp
  next
    case (MTouch t i)
    then show ?thesis
      using acc touch_ok [OF h] touch_refs [OF h] r by (auto simp: accounted_def Pair)
  next
    case (MMutable p i)
    show ?thesis
    proof (cases "held i = 0")
      case True
      then show ?thesis using MMutable acc by (simp add: Pair)
    next
      case False
      then have pos: "0 < refs h i" using r by simp
      obtain j h' where m: "mutable p i h = (j, h')" by (cases "mutable p i h")
      show ?thesis
      proof (cases "frozen (view h i)")
        case True
        from mutable_copy [OF h pos this m] pos r have "j \<noteq> i" "held j = 0" by auto
        with mutable_copy [OF h pos True m] MMutable False m r show ?thesis
          by (simp add: accounted_def Pair)
      next
        case thawed: False
        from mutable_id [OF h pos thawed, of p] m have "j = i" "h' = h" by simp_all
        with MMutable False m acc show ?thesis by (simp add: Pair)
      qed
    qed
  qed
qed

lemma accounted_media_run: "accounted s \<Longrightarrow> accounted (fold media_step ops s)"
  by (induction ops arbitrary: s) (simp_all add: accounted_media_step)

lemma frozen_step:
  assumes acc: "accounted (h, held)" and fr: "frozen (view h i)" "0 < held i"
    and step: "media_step op (h, held) = (h', held')" and keep: "0 < held' i"
  shows "view h' i = view h i"
proof -
  from acc have h: "heap_ok h" and r: "\<And>i. refs h i = int (held i)" by (auto simp: accounted_def)
  have pos: "held j \<noteq> 0 \<Longrightarrow> 0 < refs h j" for j using r by simp
  have r': "refs h' j = int (held' j)" for j
    using accounted_media_step [OF acc, of op] step by (simp add: accounted_def)
  show ?thesis
  proof (cases op)
    case (MRef x)
    have "0 < refs h' i" using keep r' by simp
    with MRef step fr pos r show ?thesis
      by (cases x) (auto simp: new_view [OF h] retain_view [OF h] release_view [OF h]
          split: prod.splits if_splits)
  next
    case (MTouch t j)
    then show ?thesis using step fr pos touch_view [OF h, of j i t] by (auto split: if_splits)
  next
    case (MMutable p j)
    obtain k hk where m: "mutable p j h = (k, hk)" by (cases "mutable p j h")
    have "view hk i = view h i" if "held j \<noteq> 0"
      using mutable_view [OF h pos [OF that] m pos] fr(2) by simp
    with MMutable step m show ?thesis by (auto split: if_splits)
  qed
qed

end

end
