(* ===== verification/Media.thy ===== *)
theory Media
  imports Props Slices Refcount Pool
begin

text \<open>
  \<open>internal/schema/audio.go\<close> and \<open>video.go\<close>: pooled, reference-counted media objects.

  Objects are shared by pointer, so they live in a heap \<open>mheap\<close>: the objects by index,
  the indices parked in each pool and the gauge of active objects of each pool (the
  metrics the source updates). Audio has one pool, video one pool per resolution class.
  \<open>sync.Pool\<close>'s choice is the parameter \<open>pick\<close> of \<open>Pool\<close>. Setters panic on a read-only
  object: they return \<open>Inl\<close> of the panic message.

  \<open>Recycle\<close> either keeps or drops the capacity of the entries; property sets are modelled
  without capacity, so both branches clear the entries.
\<close>

record 'o mheap =
  mh_objs :: "'o list"
  mh_pool :: "nat \<Rightarrow> nat list"
  mh_active :: "nat \<Rightarrow> int"

definition mh_empty :: "'o mheap" where
  "mh_empty = \<lparr>mh_objs = [], mh_pool = (\<lambda>_. []), mh_active = (\<lambda>_. 0)\<rparr>"

text \<open>\<open>TypedPool.Acquire\<close> on pointers: a parked object of pool \<open>c\<close>, or a newly allocated one.\<close>

definition mh_acquire :: "'o \<Rightarrow> nat \<Rightarrow> nat option \<Rightarrow> 'o mheap \<Rightarrow> nat \<times> 'o mheap" where
  "mh_acquire fresh c pick h =
     (case Pool_Acquire (length (mh_objs h)) pick (mh_pool h c) of
        (i, rest) \<Rightarrow>
          (i, h\<lparr>mh_objs := (if i = length (mh_objs h) then mh_objs h @ [fresh] else mh_objs h),
               mh_pool := (mh_pool h)(c := rest)\<rparr>))"

definition mh_update :: "nat \<Rightarrow> ('o \<Rightarrow> 'o) \<Rightarrow> 'o mheap \<Rightarrow> 'o mheap" where
  "mh_update i f h = h\<lparr>mh_objs := (mh_objs h)[i := f (mh_objs h ! i)]\<rparr>"

definition mh_gauge :: "nat \<Rightarrow> int \<Rightarrow> 'o mheap \<Rightarrow> 'o mheap" where
  "mh_gauge c d h = h\<lparr>mh_active := (mh_active h)(c := mh_active h c + d)\<rparr>"

text \<open>\<open>TypedPool.Release\<close> on pointers: recycle in place, then park.\<close>

definition mh_release :: "('o \<Rightarrow> 'o) \<Rightarrow> nat \<Rightarrow> nat \<Rightarrow> 'o mheap \<Rightarrow> 'o mheap" where
  "mh_release recycle c i h =
     (mh_update i recycle h)\<lparr>mh_pool := (mh_pool h)(c := i # mh_pool h c)\<rparr>"

section \<open>Audio\<close>

abbreviation (input) audioRecycleCap :: nat where "audioRecycleCap \<equiv> 64 * 1024"

record 'v audio = "'v properties" +
  a_name :: string
  a_buffer :: "byte slice"
  a_sampleRate :: int
  a_channels :: int
  a_duration :: int
  a_count :: int

definition fresh_audio :: "'v audio" where
  "fresh_audio = \<lparr>entries = [], readonly = False, a_name = '''', a_buffer = nil_slice,
                  a_sampleRate = 0, a_channels = 0, a_duration = 0, a_count = 0\<rparr>"

definition NewAudio :: "nat option \<Rightarrow> string \<times> int \<times> int \<Rightarrow> 'v audio mheap \<Rightarrow> nat \<times> 'v audio mheap" where
  "NewAudio pick = (\<lambda>(name, sampleRate, channels) h.
     case mh_acquire fresh_audio 0 pick (mh_gauge 0 1 h) of
       (i, h') \<Rightarrow>
         (i, mh_update i (\<lambda>b. b\<lparr>a_name := name, a_sampleRate := sampleRate,
                               a_channels := channels, a_count := 1\<rparr>) h'))"

definition Audio_Retain :: "nat \<Rightarrow> 'v audio mheap \<Rightarrow> 'v audio mheap" where
  "Audio_Retain i = mh_update i (\<lambda>b. b\<lparr>a_count := a_count b + 1\<rparr>)"

definition Audio_Recycle :: "'v audio \<Rightarrow> 'v audio" where
  "Audio_Recycle b =
     b\<lparr>readonly := False, entries := [], a_name := '''',
       a_buffer := (if cap (a_buffer b) > audioRecycleCap then nil_slice else reslice 0 (a_buffer b)),
       a_sampleRate := 0, a_channels := 0, a_duration := 0, a_count := 0\<rparr>"

definition Audio_Release :: "nat \<Rightarrow> 'v audio mheap \<Rightarrow> 'v audio mheap" where
  "Audio_Release i h =
     (let h1 = mh_update i (\<lambda>b. b\<lparr>a_count := a_count b - 1\<rparr>) h
      in if a_count (mh_objs h1 ! i) > 0 then h1
         else mh_release Audio_Recycle 0 i (mh_gauge 0 (-1) h1))"

definition Audio_SetBytes :: "bytes \<Rightarrow> 'v audio \<Rightarrow> string + 'v audio" where
  "Audio_SetBytes buf b =
     (if readonly b then Inl ''schema: call SetBytes on readonly audio''
      else
        let size = length buf in
        if cap (a_buffer b) < size
        then Inr (b\<lparr>a_buffer := copy_into (make_slice 0 (length buf)) buf\<rparr>)
        else Inr (b\<lparr>a_buffer := copy_into (reslice size (a_buffer b)) buf\<rparr>))"

definition Audio_SetDuration :: "int \<Rightarrow> 'v audio \<Rightarrow> string + 'v audio" where
  "Audio_SetDuration d b =
     (if readonly b then Inl ''schema: call SetDuration on readonly audio'' else Inr (b\<lparr>a_duration := d\<rparr>))"

definition Audio_SetSampleRate :: "int \<Rightarrow> 'v audio \<Rightarrow> string + 'v audio" where
  "Audio_SetSampleRate sr b =
     (if readonly b then Inl ''schema: call SetSampleRate on readonly audio'' else Inr (b\<lparr>a_sampleRate := sr\<rparr>))"

definition Audio_SetChannels :: "int \<Rightarrow> 'v audio \<Rightarrow> string + 'v audio" where
  "Audio_SetChannels c b =
     (if readonly b then Inl ''schema: call SetChannels on readonly audio'' else Inr (b\<lparr>a_channels := c\<rparr>))"

definition Audio_ReadOnly :: "nat \<Rightarrow> 'v audio mheap \<Rightarrow> 'v audio mheap" where
  "Audio_ReadOnly i = mh_update i (\<lambda>b. b\<lparr>readonly := True\<rparr>)"

definition Audio_Mutable :: "nat option \<Rightarrow> nat \<Rightarrow> 'v audio mheap \<Rightarrow> string + nat \<times> 'v audio mheap" where
  "Audio_Mutable pick i h =
     (let b = mh_objs h ! i in
      if readonly b then
        (case NewAudio pick (a_name b, a_sampleRate b, a_channels b) h of
           (j, h') \<Rightarrow>
             (case Audio_SetBytes (contents (a_buffer b)) ((mh_objs h' ! j)\<lparr>entries := entries b\<rparr>) of
                Inl e \<Rightarrow> Inl e
              | Inr n \<Rightarrow> Inr (j, mh_update j (\<lambda>_. n\<lparr>a_duration := a_duration b\<rparr>) h')))
      else Inr (i, h))"

section \<open>Video\<close>

abbreviation (input) sdVideoPixels :: int where "sdVideoPixels \<equiv> 640 * 480"
abbreviation (input) hdVideoPixels :: int where "hdVideoPixels \<equiv> 1280 * 720"
abbreviation (input) fhdVideoPixels :: int where "fhdVideoPixels \<equiv> 1920 * 1080"

record 'v video = "'v properties" +
  v_name :: string
  v_height :: int
  v_width :: int
  v_data :: "byte slice"
  v_duration :: int
  v_count :: int

text \<open>The three pools: class 0 is SD, 1 is HD, 2 is FHD and everything above.\<close>

definition video_class :: "int \<Rightarrow> nat" where
  "video_class pixels =
     (if pixels \<le> sdVideoPixels then 0 else if pixels \<le> hdVideoPixels then 1 else 2)"

definition class_pixels :: "nat \<Rightarrow> int" where
  "class_pixels c = (if c = 0 then sdVideoPixels else if c = 1 then hdVideoPixels else fhdVideoPixels)"

definition fresh_video :: "nat \<Rightarrow> 'v video" where
  "fresh_video c = \<lparr>entries = [], readonly = False, v_name = '''', v_height = 0, v_width = 0,
                    v_data = make_slice 0 (nat (class_pixels c * 3 div 2)), v_duration = 0, v_count = 0\<rparr>"

definition acquireVideo :: "nat option \<Rightarrow> int \<Rightarrow> int \<Rightarrow> 'v video mheap \<Rightarrow> nat \<times> 'v video mheap" where
  "acquireVideo pick height width h =
     (let c = video_class (height * width)
      in mh_acquire (fresh_video c) c pick (mh_gauge c 1 h))"

definition NewVideo :: "nat option \<Rightarrow> string \<times> int \<times> int \<times> int \<Rightarrow> 'v video mheap \<Rightarrow> nat \<times> 'v video mheap" where
  "NewVideo pick = (\<lambda>(name, height, width, duration) h.
     case acquireVideo pick height width h of
       (i, h') \<Rightarrow>
         (i, mh_update i (\<lambda>b. b\<lparr>v_name := name, v_height := height, v_width := width,
                               v_duration := duration, v_count := 1\<rparr>) h'))"

definition Video_Recycle :: "'v video \<Rightarrow> 'v video" where
  "Video_Recycle b =
     b\<lparr>entries := [], readonly := False, v_name := '''', v_height := 0, v_width := 0,
       v_count := 0, v_duration := 0, v_data := reslice 0 (v_data b)\<rparr>"

definition Video_Retain :: "nat \<Rightarrow> 'v video mheap \<Rightarrow> 'v video mheap" where
  "Video_Retain i = mh_update i (\<lambda>b. b\<lparr>v_count := v_count b + 1\<rparr>)"

definition releaseVideo :: "nat \<Rightarrow> 'v video mheap \<Rightarrow> 'v video mheap" where
  "releaseVideo i h =
     (let frame = mh_objs h ! i; c = video_class (v_width frame * v_height frame)
      in mh_release Video_Recycle c i (mh_gauge c (-1) h))"

definition Video_Release :: "nat \<Rightarrow> 'v video mheap \<Rightarrow> 'v video mheap" where
  "Video_Release i h =
     (let h1 = mh_update i (\<lambda>b. b\<lparr>v_count := v_count b - 1\<rparr>) h
      in if v_count (mh_objs h1 ! i) > 0 then h1 else releaseVideo i h1)"

text \<open>
  The planes; \<open>None\<close> is a nil slice. Frames have non-negative dimensions (a negative product
  makes the source's slice expressions panic), where \<open>div\<close> is Go's division.
\<close>

definition YBytes :: "'v video \<Rightarrow> bytes option" where
  "YBytes b =
     (let size = v_width b * v_height b
      in if int (sl_len (v_data b)) < size then None else Some (take (nat size) (sl_arr (v_data b))))"

definition UBytes :: "'v video \<Rightarrow> bytes option" where
  "UBytes b =
     (let pixels = v_width b * v_height b; size = pixels div 4
      in if int (sl_len (v_data b)) < pixels + size then None
         else Some (take (nat size) (drop (nat pixels) (sl_arr (v_data b)))))"

definition VBytes :: "'v video \<Rightarrow> bytes option" where
  "VBytes b =
     (let pixels = v_width b * v_height b; size = pixels div 4
      in if int (sl_len (v_data b)) < pixels + size * 2 then None
         else Some (take (nat size) (drop (nat (pixels + size)) (sl_arr (v_data b)))))"

definition Video_setData :: "bytes \<Rightarrow> 'v video \<Rightarrow> 'v video" where
  "Video_setData src b =
     (let size = length src
      in b\<lparr>v_data := copy_into (if cap (v_data b) < size then make_slice 0 size
                               else reslice size (v_data b)) src\<rparr>)"

text \<open>\<open>SetYUV\<close>: three copies into adjacent ranges of one buffer.\<close>

definition copy_at :: "nat \<Rightarrow> 'a list \<Rightarrow> 'a slice \<Rightarrow> 'a slice" where
  "copy_at off src s = s\<lparr>sl_arr := take off (sl_arr s) @ src @ drop (off + length src) (sl_arr s)\<rparr>"

definition SetYUV :: "bytes \<Rightarrow> bytes \<Rightarrow> bytes \<Rightarrow> 'v video \<Rightarrow> string + 'v video" where
  "SetYUV y u v b =
     (if readonly b then Inl ''schema: call SetYUV on readonly video''
      else
        let ySize = length y; uSize = length u; vSize = length v; total = ySize + uSize + vSize;
            buf = (if cap (v_data b) < total then make_slice 0 total else reslice total (v_data b))
        in Inr (b\<lparr>v_data := copy_at (ySize + uSize) v (copy_at ySize u (copy_at 0 y buf))\<rparr>))"

definition Video_SetDuration :: "int \<Rightarrow> 'v video \<Rightarrow> string + 'v video" where
  "Video_SetDuration d b =
     (if readonly b then Inl ''schema: call SetDuration on readonly video'' else Inr (b\<lparr>v_duration := d\<rparr>))"

definition Video_ReadOnly :: "nat \<Rightarrow> 'v video mheap \<Rightarrow> 'v video mheap" where
  "Video_ReadOnly i = mh_update i (\<lambda>b. b\<lparr>readonly := True\<rparr>)"

definition Video_Mutable :: "nat option \<Rightarrow> nat \<Rightarrow> 'v video mheap \<Rightarrow> nat \<times> 'v video mheap" where
  "Video_Mutable pick i h =
     (let b = mh_objs h ! i in
      if readonly b then
        (case acquireVideo pick (v_height b) (v_width b) h of
           (j, h') \<Rightarrow>
             (j, mh_update j (\<lambda>f. (Video_setData (contents (v_data b))
                    (f\<lparr>v_name := v_name b, v_height := v_height b, v_width := v_width b,
                       v_duration := v_duration b, entries := entries b\<rparr>))\<lparr>v_count := 1\<rparr>) h'))
      else (i, h))"

section \<open>The heap invariant\<close>

text \<open>
  Stated once over what the two media types have in common: \<open>cnt\<close> reads the reference
  count, \<open>cls\<close> the pool class, \<open>bl c\<close> is what a parked object of class \<open>c\<close> satisfies
  and \<open>lv\<close> what a live object satisfies. An object is live while its count is positive;
  otherwise it is parked in exactly one pool, once. Each gauge counts the live objects of
  its class.
\<close>

definition live_ids :: "('o \<Rightarrow> int) \<Rightarrow> ('o \<Rightarrow> nat) \<Rightarrow> nat \<Rightarrow> 'o list \<Rightarrow> nat set" where
  "live_ids cnt cls c os = {i. i < length os \<and> 0 < cnt (os ! i) \<and> cls (os ! i) = c}"

definition mh_ok ::
  "('o \<Rightarrow> int) \<Rightarrow> ('o \<Rightarrow> nat) \<Rightarrow> (nat \<Rightarrow> 'o \<Rightarrow> bool) \<Rightarrow> ('o \<Rightarrow> bool) \<Rightarrow> 'o mheap \<Rightarrow> bool" where
  "mh_ok cnt cls bl lv h \<longleftrightarrow>
     (\<forall>c. distinct (mh_pool h c)) \<and>
     (\<forall>c d. c \<noteq> d \<longrightarrow> set (mh_pool h c) \<inter> set (mh_pool h d) = {}) \<and>
     (\<forall>c. \<forall>i\<in>set (mh_pool h c). i < length (mh_objs h) \<and> cnt (mh_objs h ! i) = 0 \<and> bl c (mh_objs h ! i)) \<and>
     (\<forall>i<length (mh_objs h). 0 \<le> cnt (mh_objs h ! i) \<and>
        (if 0 < cnt (mh_objs h ! i) then lv (mh_objs h ! i) else \<exists>c. i \<in> set (mh_pool h c))) \<and>
     (\<forall>c. mh_active h c = int (card (live_ids cnt cls c (mh_objs h))))"

definition mh_refs :: "('o \<Rightarrow> int) \<Rightarrow> 'o mheap \<Rightarrow> nat \<Rightarrow> int" where
  "mh_refs cnt h i = (if i < length (mh_objs h) then cnt (mh_objs h ! i) else 0)"

lemma finite_live_ids [simp]: "finite (live_ids cnt cls c os)"
  by (simp add: live_ids_def)

lemma mh_okI:
  assumes "\<And>c. distinct (mh_pool h c)"
    and "\<And>c d. c \<noteq> d \<Longrightarrow> set (mh_pool h c) \<inter> set (mh_pool h d) = {}"
    and "\<And>c i. i \<in> set (mh_pool h c) \<Longrightarrow>
           i < length (mh_objs h) \<and> cnt (mh_objs h ! i) = 0 \<and> bl c (mh_objs h ! i)"
    and "\<And>i. i < length (mh_objs h) \<Longrightarrow> 0 \<le> cnt (mh_objs h ! i) \<and>
           (if 0 < cnt (mh_objs h ! i) then lv (mh_objs h ! i) else \<exists>c. i \<in> set (mh_pool h c))"
    and "\<And>c. mh_active h c = int (card (live_ids cnt cls c (mh_objs h)))"
  shows "mh_ok cnt cls bl lv h"
  unfolding mh_ok_def using assms by blast

lemma mh_okD:
  assumes "mh_ok cnt cls bl lv h"
  shows "distinct (mh_pool h c)"
    and "c \<noteq> d \<Longrightarrow> set (mh_pool h c) \<inter> set (mh_pool h d) = {}"
    and "i \<in> set (mh_pool h c) \<Longrightarrow> i < length (mh_objs h) \<and> cnt (mh_objs h ! i) = 0 \<and> bl c (mh_objs h ! i)"
    and "i < length (mh_objs h) \<Longrightarrow> 0 \<le> cnt (mh_objs h ! i)"
    and "i < length (mh_objs h) \<Longrightarrow> 0 < cnt (mh_objs h ! i) \<Longrightarrow> lv (mh_objs h ! i)"
    and "i < length (mh_objs h) \<Longrightarrow> \<not> 0 < cnt (mh_objs h ! i) \<Longrightarrow> \<exists>c. i \<in> set (mh_pool h c)"
    and "mh_active h c = int (card (live_ids cnt cls c (mh_objs h)))"
  using assms unfolding mh_ok_def by (blast, blast, blast, blast, metis, metis, blast)

lemma mh_ok_empty: "mh_ok cnt cls bl lv mh_empty"
  by (rule mh_okI) (simp_all add: mh_empty_def live_ids_def)

lemma live_not_parked:
  assumes "mh_ok cnt cls bl lv h" "0 < cnt (mh_objs h ! i)"
  shows "i \<notin> set (mh_pool h c)"
  using mh_okD(3) [OF assms(1), of i c] assms(2) by auto

lemma mh_refs_pos: "0 < mh_refs cnt h i \<longleftrightarrow> i < length (mh_objs h) \<and> 0 < cnt (mh_objs h ! i)"
  by (simp add: mh_refs_def)

lemma live_ids_update:
  "i < length os \<Longrightarrow> live_ids cnt cls c (os[i := x]) =
     (if 0 < cnt x \<and> cls x = c then insert i (live_ids cnt cls c os) else live_ids cnt cls c os - {i})"
  by (auto simp: live_ids_def nth_list_update split: if_splits)

text \<open>A live object changes in place.\<close>

lemma mh_ok_update_live:
  assumes ok: "mh_ok cnt cls bl lv h" and i: "i < length (mh_objs h)" and pos: "0 < cnt (mh_objs h ! i)"
    and f: "0 < cnt (f (mh_objs h ! i))" "cls (f (mh_objs h ! i)) = cls (mh_objs h ! i)" "lv (f (mh_objs h ! i))"
  shows "mh_ok cnt cls bl lv (mh_update i f h)"
proof (rule mh_okI)
  have np: "i \<notin> set (mh_pool h c)" for c by (rule live_not_parked [OF ok pos])
  show "distinct (mh_pool (mh_update i f h) c)" for c
    using mh_okD(1) [OF ok] by (simp add: mh_update_def)
  show "set (mh_pool (mh_update i f h) c) \<inter> set (mh_pool (mh_update i f h) d) = {}" if "c \<noteq> d" for c d
    using mh_okD(2) [OF ok that] by (simp add: mh_update_def)
  show "j < length (mh_objs (mh_update i f h)) \<and> cnt (mh_objs (mh_update i f h) ! j) = 0 \<and>
      bl c (mh_objs (mh_update i f h) ! j)" if "j \<in> set (mh_pool (mh_update i f h) c)" for c j
    using that i np [of c] mh_okD(3) [OF ok, of j c] by (auto simp: mh_update_def nth_list_update)
  show "0 \<le> cnt (mh_objs (mh_update i f h) ! j) \<and>
      (if 0 < cnt (mh_objs (mh_update i f h) ! j) then lv (mh_objs (mh_update i f h) ! j)
       else \<exists>c. j \<in> set (mh_pool (mh_update i f h) c))" if "j < length (mh_objs (mh_update i f h))" for j
    using that f i mh_okD(4-6) [OF ok, of j] by (auto simp: mh_update_def nth_list_update)
  have "live_ids cnt cls c (mh_objs (mh_update i f h)) = live_ids cnt cls c (mh_objs h)" for c
    using i pos f by (auto simp: mh_update_def live_ids_update) (auto simp: live_ids_def)
  then show "mh_active (mh_update i f h) c = int (card (live_ids cnt cls c (mh_objs (mh_update i f h))))" for c
    using mh_okD(7) [OF ok, of c] by (simp add: mh_update_def)
qed

text \<open>An object leaves the pool, or is allocated, and is initialised with one reference.\<close>

lemma mh_acquire_cases:
  assumes "mh_acquire fresh c pick h = (i, h')" "\<forall>j\<in>set (mh_pool h c). j < length (mh_objs h)"
  obtains (fresh) "i = length (mh_objs h)" "h' = h\<lparr>mh_objs := mh_objs h @ [fresh]\<rparr>"
    | (parked) us vs where "mh_pool h c = us @ i # vs" "i < length (mh_objs h)"
        "h' = h\<lparr>mh_pool := (mh_pool h)(c := us @ vs)\<rparr>"
proof (cases "\<exists>k. pick = Some k \<and> k < length (mh_pool h c)")
  case True
  then obtain k where k: "pick = Some k" "k < length (mh_pool h c)" by blast
  let ?us = "take k (mh_pool h c)" and ?vs = "drop (Suc k) (mh_pool h c)"
  from k(2) have split: "mh_pool h c = ?us @ (mh_pool h c ! k) # ?vs"
    by (rule id_take_nth_drop)
  from k assms(2) have less: "mh_pool h c ! k < length (mh_objs h)" by simp
  from k less assms(1) have "i = mh_pool h c ! k" "h' = h\<lparr>mh_pool := (mh_pool h)(c := ?us @ ?vs)\<rparr>"
    by (auto simp: mh_acquire_def Pool_Acquire_def)
  with split less show ?thesis by (intro parked) simp_all
next
  case False
  then have "Pool_Acquire (length (mh_objs h)) pick (mh_pool h c) = (length (mh_objs h), mh_pool h c)"
    by (auto simp: Pool_Acquire_def split: option.splits)
  with assms(1) show ?thesis by (intro fresh) (auto simp: mh_acquire_def)
qed

lemma mh_ok_acquire:
  assumes ok: "mh_ok cnt cls bl lv h" and acq: "mh_acquire fresh c pick (mh_gauge c 1 h) = (i, h1)"
    and init: "\<And>b. b = fresh \<or> bl c b \<Longrightarrow> cnt (f b) = 1 \<and> cls (f b) = c \<and> lv (f b)"
  shows "mh_ok cnt cls bl lv (mh_update i f h1) \<and> mh_refs cnt h i = 0 \<and>
         mh_refs cnt (mh_update i f h1) = (mh_refs cnt h)(i := 1)"
proof -
  have pl: "\<forall>j\<in>set (mh_pool (mh_gauge c 1 h) c). j < length (mh_objs (mh_gauge c 1 h))"
    using mh_okD(3) [OF ok] by (simp add: mh_gauge_def)
  from acq pl show ?thesis
  proof (cases rule: mh_acquire_cases)
    case fresh
    define k where k_eq: "k = mh_update i f h1"
    have i: "i = length (mh_objs h)" using fresh by (simp add: mh_gauge_def)
    have objs: "mh_objs k = mh_objs h @ [f fresh]" and pool: "mh_pool k = mh_pool h"
      and act: "mh_active k = (mh_active h)(c := mh_active h c + 1)"
      using fresh by (simp_all add: k_eq mh_gauge_def mh_update_def list_update_append)
    have f: "cnt (f fresh) = 1" "cls (f fresh) = c" "lv (f fresh)" using init by simp_all
    have live: "live_ids cnt cls d (mh_objs k) =
        (if d = c then insert i (live_ids cnt cls d (mh_objs h)) else live_ids cnt cls d (mh_objs h))" for d
      using f i by (auto simp: objs live_ids_def nth_append less_Suc_eq split: if_splits)
    have "i \<notin> live_ids cnt cls d (mh_objs h)" for d using i by (simp add: live_ids_def)
    then have card: "mh_active k d = int (card (live_ids cnt cls d (mh_objs k)))" for d
      using mh_okD(7) [OF ok, of d] by (cases "d = c") (simp_all add: act live)
    have "mh_ok cnt cls bl lv k"
    proof (rule mh_okI)
      show "0 \<le> cnt (mh_objs k ! j) \<and> (if 0 < cnt (mh_objs k ! j) then lv (mh_objs k ! j)
          else \<exists>c. j \<in> set (mh_pool k c))" if "j < length (mh_objs k)" for j
        using that f mh_okD(4-6) [OF ok, of j] by (cases "j = length (mh_objs h)") (auto simp: objs pool nth_append)
      show "j < length (mh_objs k) \<and> cnt (mh_objs k ! j) = 0 \<and> bl d (mh_objs k ! j)"
        if "j \<in> set (mh_pool k d)" for d j
        using that mh_okD(3) [OF ok, of j d] by (simp add: objs pool nth_append)
    qed (use card mh_okD(1,2) [OF ok] in \<open>simp_all add: pool\<close>)
    moreover have "mh_refs cnt k = (mh_refs cnt h)(i := 1)"
      using f i by (auto simp: mh_refs_def objs nth_append fun_eq_iff)
    ultimately show ?thesis using i by (simp add: mh_refs_def k_eq)
  next
    case (parked us vs)
    define k where k_eq: "k = mh_update i f h1"
    have pool: "mh_pool h c = us @ i # vs" using parked by (simp add: mh_gauge_def)
    then have mem: "i \<in> set (mh_pool h c)" by simp
    from mh_okD(3) [OF ok mem] have i: "i < length (mh_objs h)" "cnt (mh_objs h ! i) = 0" "bl c (mh_objs h ! i)"
      by simp_all
    have objs: "mh_objs k = (mh_objs h)[i := f (mh_objs h ! i)]" and pools: "mh_pool k = (mh_pool h)(c := us @ vs)"
      and act: "mh_active k = (mh_active h)(c := mh_active h c + 1)"
      using parked by (simp_all add: k_eq mh_gauge_def mh_update_def)
    have f: "cnt (f (mh_objs h ! i)) = 1" "cls (f (mh_objs h ! i)) = c" "lv (f (mh_objs h ! i))"
      using init i(3) by simp_all
    have dist: "distinct (us @ vs)" "i \<notin> set (us @ vs)" using mh_okD(1) [OF ok, of c] pool by auto
    have other: "i \<notin> set (mh_pool h d)" if "d \<noteq> c" for d using mh_okD(2) [OF ok that] mem by auto
    have notlive: "i \<notin> live_ids cnt cls d (mh_objs h)" for d using i by (simp add: live_ids_def)
    have pool_sub: "set (mh_pool k d) = set (mh_pool h d) - {i}" for d
      using pool dist other by (cases "d = c") (auto simp: pools)
    have "mh_ok cnt cls bl lv k"
    proof (rule mh_okI)
      show "distinct (mh_pool k d)" for d using dist mh_okD(1) [OF ok] by (simp add: pools)
      show "set (mh_pool k d) \<inter> set (mh_pool k e) = {}" if "d \<noteq> e" for d e
        using mh_okD(2) [OF ok that] by (auto simp: pool_sub)
      show "j < length (mh_objs k) \<and> cnt (mh_objs k ! j) = 0 \<and> bl d (mh_objs k ! j)"
        if "j \<in> set (mh_pool k d)" for d j
        using that mh_okD(3) [OF ok, of j d] by (simp add: pool_sub objs)
      show "0 \<le> cnt (mh_objs k ! j) \<and> (if 0 < cnt (mh_objs k ! j) then lv (mh_objs k ! j)
          else \<exists>c. j \<in> set (mh_pool k c))" if "j < length (mh_objs k)" for j
        using that f i mh_okD(4-6) [OF ok, of j] by (cases "j = i") (auto simp: pool_sub objs)
      show "mh_active k d = int (card (live_ids cnt cls d (mh_objs k)))" for d
        using f i notlive mh_okD(7) [OF ok, of d] by (cases "d = c") (simp_all add: objs act live_ids_update)
    qed
    moreover have "mh_refs cnt k = (mh_refs cnt h)(i := 1)"
      using f i by (auto simp: mh_refs_def objs fun_eq_iff)
    ultimately show ?thesis using i by (simp add: mh_refs_def k_eq)
  qed
qed

text \<open>The last reference goes: the object is recycled and parked.\<close>

lemma mh_ok_release:
  assumes ok: "mh_ok cnt cls bl lv h" and i: "i < length (mh_objs h)" and pos: "0 < cnt (mh_objs h ! i)"
    and c: "cls (mh_objs h ! i) = c" and x: "x = recycle (f (mh_objs h ! i))" "cnt x = 0" "bl c x"
    and h': "h' = mh_release recycle c i (mh_gauge c (-1) (mh_update i f h))"
  shows "mh_ok cnt cls bl lv h' \<and> mh_refs cnt h' = (mh_refs cnt h)(i := 0)"
proof
  have objs: "mh_objs h' = (mh_objs h)[i := x]" and pools: "mh_pool h' = (mh_pool h)(c := i # mh_pool h c)"
    and act: "mh_active h' = (mh_active h)(c := mh_active h c - 1)"
    using i x by (simp_all add: h' mh_release_def mh_gauge_def mh_update_def)
  have np: "i \<notin> set (mh_pool h d)" for d by (rule live_not_parked [OF ok pos])
  have live: "i \<in> live_ids cnt cls c (mh_objs h)" "d \<noteq> c \<Longrightarrow> i \<notin> live_ids cnt cls d (mh_objs h)" for d
    using i pos c by (auto simp: live_ids_def)
  have pool_set: "set (mh_pool h' d) = (if d = c then insert i (set (mh_pool h d)) else set (mh_pool h d))" for d
    by (simp add: pools)
  show "mh_ok cnt cls bl lv h'"
  proof (rule mh_okI)
    show "distinct (mh_pool h' d)" for d using np mh_okD(1) [OF ok] by (simp add: pools)
    show "set (mh_pool h' d) \<inter> set (mh_pool h' e) = {}" if "d \<noteq> e" for d e
      using mh_okD(2) [OF ok that] np that by (auto simp: pool_set)
    show "j < length (mh_objs h') \<and> cnt (mh_objs h' ! j) = 0 \<and> bl d (mh_objs h' ! j)"
      if "j \<in> set (mh_pool h' d)" for d j
      using that i x np [of d] mh_okD(3) [OF ok, of j d]
      by (cases "j = i") (auto simp: pool_set objs split: if_splits)
    show "0 \<le> cnt (mh_objs h' ! j) \<and> (if 0 < cnt (mh_objs h' ! j) then lv (mh_objs h' ! j)
        else \<exists>c. j \<in> set (mh_pool h' c))" if "j < length (mh_objs h')" for j
    proof (cases "j = i")
      case True
      then show ?thesis using i x(2) by (auto simp: objs pool_set)
    next
      case False
      with that mh_okD(4-6) [OF ok, of j] have "0 \<le> cnt (mh_objs h ! j) \<and>
          (if 0 < cnt (mh_objs h ! j) then lv (mh_objs h ! j) else \<exists>c. j \<in> set (mh_pool h c))"
        by (simp add: objs)
      moreover have "\<exists>d. j \<in> set (mh_pool h' d)" if "\<exists>d. j \<in> set (mh_pool h d)"
      proof -
        from that obtain d where "j \<in> set (mh_pool h d)" by blast
        then have "j \<in> set (mh_pool h' d)" by (auto simp: pool_set)
        then show ?thesis by blast
      qed
      ultimately have "0 \<le> cnt (mh_objs h ! j) \<and>
          (if 0 < cnt (mh_objs h ! j) then lv (mh_objs h ! j) else \<exists>c. j \<in> set (mh_pool h' c))"
        by (cases "0 < cnt (mh_objs h ! j)") simp_all
      then show ?thesis unfolding objs nth_list_update_neq [OF False [symmetric]] .
    qed
    have "card (live_ids cnt cls c (mh_objs h)) = Suc (card (live_ids cnt cls c (mh_objs h) - {i}))"
      by (rule card.remove) (simp_all add: live(1))
    then have one: "int (card (live_ids cnt cls c (mh_objs h) - {i})) = int (card (live_ids cnt cls c (mh_objs h))) - 1"
      by linarith
    have ids: "live_ids cnt cls d (mh_objs h') = live_ids cnt cls d (mh_objs h) - {i}" for d
      using i x(2) by (simp add: objs live_ids_update)
    show "mh_active h' d = int (card (live_ids cnt cls d (mh_objs h')))" for d
      using one live(2) [of d] mh_okD(7) [OF ok, of d] by (cases "d = c") (simp_all add: ids act)
  qed
  show "mh_refs cnt h' = (mh_refs cnt h)(i := 0)"
    using x i by (auto simp: mh_refs_def objs fun_eq_iff)
qed

lemma mh_acquire_obj:
  assumes ok: "mh_ok cnt cls bl lv h" and acq: "mh_acquire fresh c pick (mh_gauge c 1 h) = (i, h1)"
  shows "mh_objs h1 ! i = fresh \<or> bl c (mh_objs h1 ! i)" and "i < length (mh_objs h1)"
    and "0 < mh_refs cnt h j \<Longrightarrow> mh_objs h1 ! j = mh_objs h ! j \<and> j < length (mh_objs h1)"
proof -
  have pl: "\<forall>j\<in>set (mh_pool (mh_gauge c 1 h) c). j < length (mh_objs (mh_gauge c 1 h))"
    using mh_okD(3) [OF ok] by (simp add: mh_gauge_def)
  from acq pl have "(mh_objs h1 ! i = fresh \<or> bl c (mh_objs h1 ! i)) \<and> i < length (mh_objs h1) \<and>
      (0 < mh_refs cnt h j \<longrightarrow> mh_objs h1 ! j = mh_objs h ! j \<and> j < length (mh_objs h1))"
  proof (cases rule: mh_acquire_cases)
    case fresh
    then show ?thesis by (auto simp: mh_gauge_def mh_refs_def nth_append)
  next
    case (parked us vs)
    then show ?thesis using mh_okD(3) [OF ok, of i c] by (auto simp: mh_gauge_def mh_refs_def)
  qed
  then show "mh_objs h1 ! i = fresh \<or> bl c (mh_objs h1 ! i)" "i < length (mh_objs h1)"
    "0 < mh_refs cnt h j \<Longrightarrow> mh_objs h1 ! j = mh_objs h ! j \<and> j < length (mh_objs h1)" by blast+
qed

lemma mh_update_nth:
  "mh_objs (mh_update i f h) ! j = (if j = i \<and> i < length (mh_objs h) then f (mh_objs h ! i) else mh_objs h ! j)"
  by (cases "i < length (mh_objs h)") (auto simp: mh_update_def nth_list_update list_update_beyond)

lemma length_mh_update [simp]: "length (mh_objs (mh_update i f h)) = length (mh_objs h)"
  by (simp add: mh_update_def)

lemma mh_release_nth:
  "mh_objs (mh_release r c i (mh_gauge d n h)) ! j =
     (if j = i \<and> i < length (mh_objs h) then r (mh_objs h ! i) else mh_objs h ! j)"
  using mh_update_nth [of i r "mh_gauge d n h" j] by (simp add: mh_release_def mh_gauge_def)

lemma mh_refs_update:
  "i < length (mh_objs h) \<Longrightarrow> mh_refs cnt (mh_update i f h) = (mh_refs cnt h)(i := cnt (f (mh_objs h ! i)))"
  by (auto simp: mh_refs_def mh_update_nth fun_eq_iff)

section \<open>Audio meets the media contract\<close>

datatype ('s, 'o) audio_write =
  WBytes bytes | WDuration int | WSampleRate int | WChannels int | WProp string "('s, 'o) any" | WReadOnly

text \<open>Every way a holder can write to an audio object; a panic or an error writes nothing.\<close>

fun audio_set :: "('o \<Rightarrow> 'e + bytes) \<Rightarrow> ('s, 'o) audio_write \<Rightarrow> ('s, 'o) any audio \<Rightarrow> string + ('s, 'o) any audio" where
  "audio_set mj (WBytes xs) b = Audio_SetBytes xs b"
| "audio_set mj (WDuration d) b = Audio_SetDuration d b"
| "audio_set mj (WSampleRate n) b = Audio_SetSampleRate n b"
| "audio_set mj (WChannels n) b = Audio_SetChannels n b"
| "audio_set mj (WProp k v) b =
     Inr (b\<lparr>entries := entries (fst (props_Set mj k v \<lparr>entries = entries b, readonly = readonly b\<rparr>))\<rparr>)"
| "audio_set mj WReadOnly b = Inr (b\<lparr>readonly := True\<rparr>)"

definition audio_touch ::
  "('o \<Rightarrow> 'e + bytes) \<Rightarrow> ('s, 'o) audio_write \<Rightarrow> nat \<Rightarrow> ('s, 'o) any audio mheap \<Rightarrow> ('s, 'o) any audio mheap" where
  "audio_touch mj w i = mh_update i (\<lambda>b. case audio_set mj w b of Inl _ \<Rightarrow> b | Inr b' \<Rightarrow> b')"

definition audio_copy :: "nat option \<Rightarrow> nat \<Rightarrow> 'v audio mheap \<Rightarrow> nat \<times> 'v audio mheap" where
  "audio_copy p i h = (case Audio_Mutable p i h of Inl _ \<Rightarrow> (i, h) | Inr r \<Rightarrow> r)"

definition audio_blank :: "nat \<Rightarrow> 'v audio \<Rightarrow> bool" where
  "audio_blank c b \<longleftrightarrow> c = 0 \<and> \<not> readonly b \<and> entries b = [] \<and> a_name b = [] \<and> slice_ok (a_buffer b) \<and>
     sl_len (a_buffer b) = 0 \<and> a_sampleRate b = 0 \<and> a_channels b = 0 \<and> a_duration b = 0"

definition audio_ok :: "'v audio mheap \<Rightarrow> bool" where
  "audio_ok = mh_ok a_count (\<lambda>_. 0) audio_blank (\<lambda>b. slice_ok (a_buffer b))"

definition audio_view :: "'v audio mheap \<Rightarrow> nat \<Rightarrow> bool \<times> (string \<times> 'v) list \<times> string \<times> bytes \<times> int \<times> int \<times> int" where
  "audio_view h i =
     (let b = mh_objs h ! i
      in (readonly b, entries b, a_name b, contents (a_buffer b), a_sampleRate b, a_channels b, a_duration b))"

definition thawed :: "bool \<times> 'r \<Rightarrow> bool \<times> 'r" where
  "thawed v = (False, snd v)"

lemma Audio_Recycle_blank: "slice_ok (a_buffer b) \<Longrightarrow> audio_blank 0 (Audio_Recycle b)"
  by (simp add: audio_blank_def Audio_Recycle_def)

lemma Audio_SetBytes_cases:
  assumes "slice_ok (a_buffer b)" "\<not> readonly b"
  obtains s where "Audio_SetBytes xs b = Inr (b\<lparr>a_buffer := s\<rparr>)" "slice_ok s" "contents s = xs"
proof (rule that)
  show "Audio_SetBytes xs b = Inr (b\<lparr>a_buffer := copy_into (fit_slice 0 (a_buffer b) (length xs)) xs\<rparr>)"
    using assms by (simp add: Audio_SetBytes_def fit_slice_def Let_def)
qed simp_all

lemma audio_set_keeps:
  assumes "audio_set mj w b = Inr b'" "slice_ok (a_buffer b)"
  shows "a_count b' = a_count b \<and> slice_ok (a_buffer b') \<and> (readonly b \<longrightarrow> b' = b)"
  using assms
  by (cases w) (auto simp: Audio_SetBytes_def Audio_SetDuration_def Audio_SetSampleRate_def Audio_SetChannels_def
      props_Set_def Let_def split: if_splits sum.splits)

lemma NewAudio_ok:
  assumes ok: "audio_ok h" and new: "NewAudio pick (n, sr, ch) h = (i, h')"
  shows "audio_ok h'" "mh_refs a_count h i = 0" "mh_refs a_count h' = (mh_refs a_count h)(i := 1)"
    and "0 < mh_refs a_count h j \<Longrightarrow> mh_objs h' ! j = mh_objs h ! j"
    and "\<exists>s. mh_objs h' ! i = \<lparr>entries = [], readonly = False, a_name = n, a_buffer = s, a_sampleRate = sr,
           a_channels = ch, a_duration = 0, a_count = 1\<rparr> \<and> slice_ok s"
    and "i < length (mh_objs h')"
proof -
  obtain k h1 where acq: "mh_acquire fresh_audio 0 pick (mh_gauge 0 1 h) = (k, h1)"
    by (cases "mh_acquire fresh_audio 0 pick (mh_gauge 0 1 h)")
  let ?f = "\<lambda>b. b\<lparr>a_name := n, a_sampleRate := sr, a_channels := ch, a_count := 1\<rparr>"
  from new acq have h': "h' = mh_update i ?f h1" and acq: "mh_acquire fresh_audio 0 pick (mh_gauge 0 1 h) = (i, h1)"
    by (auto simp: NewAudio_def)
  have ok': "mh_ok a_count (\<lambda>_. 0) audio_blank (\<lambda>b. slice_ok (a_buffer b)) h"
    using ok by (simp add: audio_ok_def)
  have upd: "mh_ok a_count (\<lambda>_. 0) audio_blank (\<lambda>b. slice_ok (a_buffer b)) (mh_update i ?f h1) \<and>
      mh_refs a_count h i = 0 \<and> mh_refs a_count (mh_update i ?f h1) = (mh_refs a_count h)(i := 1)"
    by (rule mh_ok_acquire [OF ok' acq]) (auto simp: fresh_audio_def audio_blank_def)
  then show "audio_ok h'" "mh_refs a_count h i = 0" "mh_refs a_count h' = (mh_refs a_count h)(i := 1)"
    by (simp_all add: h' audio_ok_def)
  note objs = mh_acquire_obj [OF ok' acq]
  show "mh_objs h' ! j = mh_objs h ! j" if "0 < mh_refs a_count h j"
    using that objs(3) [OF that] upd by (auto simp: h' mh_update_nth)
  show "i < length (mh_objs h')" using objs(2) by (simp add: h')
  show "\<exists>s. mh_objs h' ! i = \<lparr>entries = [], readonly = False, a_name = n, a_buffer = s, a_sampleRate = sr,
           a_channels = ch, a_duration = 0, a_count = 1\<rparr> \<and> slice_ok s"
    using objs(1,2) by (auto simp: h' mh_update_nth fresh_audio_def audio_blank_def intro!: exI [of _ "a_buffer (mh_objs h1 ! i)"])
qed

lemma Audio_Release_ok:
  assumes ok: "audio_ok h" and pos: "0 < mh_refs a_count h i"
  shows "audio_ok (Audio_Release i h)"
    and "mh_refs a_count (Audio_Release i h) = (mh_refs a_count h)(i := mh_refs a_count h i - 1)"
proof -
  let ?f = "\<lambda>b. b\<lparr>a_count := a_count b - 1\<rparr>"
  have ok': "mh_ok a_count (\<lambda>_. 0) audio_blank (\<lambda>b. slice_ok (a_buffer b)) h"
    using ok by (simp add: audio_ok_def)
  from pos have i: "i < length (mh_objs h)" and cnt: "0 < a_count (mh_objs h ! i)" by (simp_all add: mh_refs_pos)
  then have sl: "slice_ok (a_buffer (mh_objs h ! i))" by (rule mh_okD(5) [OF ok'])
  have "audio_ok (Audio_Release i h) \<and>
    mh_refs a_count (Audio_Release i h) = (mh_refs a_count h)(i := mh_refs a_count h i - 1)"
  proof (cases "a_count (mh_objs h ! i) = 1")
    case True
    have "audio_blank 0 (Audio_Recycle (?f (mh_objs h ! i)))" using sl by (intro Audio_Recycle_blank) simp
    then show ?thesis
      using mh_ok_release [OF ok' i cnt _ refl, of 0 Audio_Recycle ?f] True i
      by (simp add: Audio_Release_def audio_ok_def mh_update_nth Audio_Recycle_def mh_refs_def)
  next
    case False
    then show ?thesis
      using mh_ok_update_live [OF ok' i cnt, of ?f] cnt i sl
      by (simp add: Audio_Release_def audio_ok_def mh_update_nth mh_refs_update) (simp add: mh_refs_def)
  qed
  then show "audio_ok (Audio_Release i h)"
    "mh_refs a_count (Audio_Release i h) = (mh_refs a_count h)(i := mh_refs a_count h i - 1)" by blast+
qed

lemma audio_update_ok:
  assumes ok: "audio_ok h" and pos: "0 < mh_refs a_count h i"
    and f: "slice_ok (a_buffer (mh_objs h ! i)) \<Longrightarrow>
      a_count (mh_objs h ! i) \<le> a_count (f (mh_objs h ! i)) \<and> slice_ok (a_buffer (f (mh_objs h ! i)))"
  shows "audio_ok (mh_update i f h)"
    and "mh_refs a_count (mh_update i f h) = (mh_refs a_count h)(i := a_count (f (mh_objs h ! i)))"
proof -
  have ok': "mh_ok a_count (\<lambda>_. 0) audio_blank (\<lambda>b. slice_ok (a_buffer b)) h"
    using ok by (simp add: audio_ok_def)
  from pos have i: "i < length (mh_objs h)" and cnt: "0 < a_count (mh_objs h ! i)" by (simp_all add: mh_refs_pos)
  from f [OF mh_okD(5) [OF ok' i cnt]] cnt show "audio_ok (mh_update i f h)"
    unfolding audio_ok_def by (intro mh_ok_update_live [OF ok' i cnt]) auto
  show "mh_refs a_count (mh_update i f h) = (mh_refs a_count h)(i := a_count (f (mh_objs h ! i)))"
    by (rule mh_refs_update [OF i])
qed

lemma audio_live:
  assumes "audio_ok h" "0 < mh_refs a_count h i"
  shows "i < length (mh_objs h)" "slice_ok (a_buffer (mh_objs h ! i))"
  using assms mh_okD(5) [of a_count "\<lambda>_. 0" audio_blank "\<lambda>b. slice_ok (a_buffer b)" h i]
  by (simp_all add: audio_ok_def mh_refs_pos)

lemma audio_touch_ok:
  assumes ok: "audio_ok h" and pos: "0 < mh_refs a_count h i"
  shows "audio_ok (audio_touch mj w i h)" "mh_refs a_count (audio_touch mj w i h) = mh_refs a_count h"
    and "j \<noteq> i \<or> fst (audio_view h i) \<Longrightarrow> audio_view (audio_touch mj w i h) j = audio_view h j"
proof -
  let ?f = "\<lambda>b. case audio_set mj w b of Inl _ \<Rightarrow> b | Inr b' \<Rightarrow> b'"
  have f: "a_count (?f b) = a_count b \<and> slice_ok (a_buffer (?f b)) \<and> (readonly b \<longrightarrow> ?f b = b)"
    if "slice_ok (a_buffer b)" for b
    using audio_set_keeps [OF _ that, of mj w] that by (auto split: sum.splits)
  note live = audio_live [OF ok pos]
  show "audio_ok (audio_touch mj w i h)"
    unfolding audio_touch_def by (rule audio_update_ok(1) [OF ok pos]) (use f in auto)
  have "mh_refs a_count (audio_touch mj w i h) = (mh_refs a_count h)(i := a_count (?f (mh_objs h ! i)))"
    unfolding audio_touch_def by (rule audio_update_ok(2) [OF ok pos]) (use f in auto)
  then show "mh_refs a_count (audio_touch mj w i h) = mh_refs a_count h"
    using f [OF live(2)] live(1) by (simp add: fun_eq_iff mh_refs_def)
  show "audio_view (audio_touch mj w i h) j = audio_view h j" if "j \<noteq> i \<or> fst (audio_view h i)"
    using that f [OF live(2)] by (auto simp: audio_view_def audio_touch_def mh_update_nth Let_def)
qed

lemma Audio_Mutable_copy:
  assumes ok: "audio_ok h" and pos: "0 < mh_refs a_count h i" and ro: "readonly (mh_objs h ! i)"
  obtains j h' where "Audio_Mutable p i h = Inr (j, h')" "mh_refs a_count h j = 0" "audio_ok h'"
    "mh_refs a_count h' = (mh_refs a_count h)(j := 1)" "audio_view h' j = thawed (audio_view h i)"
    "\<forall>k. 0 < mh_refs a_count h k \<longrightarrow> mh_objs h' ! k = mh_objs h ! k"
proof -
  let ?b = "mh_objs h ! i"
  obtain j h1 where new: "NewAudio p (a_name ?b, a_sampleRate ?b, a_channels ?b) h = (j, h1)"
    by (cases "NewAudio p (a_name ?b, a_sampleRate ?b, a_channels ?b) h")
  note n = NewAudio_ok [OF ok new]
  from n(5) obtain s where s: "mh_objs h1 ! j = \<lparr>entries = [], readonly = False, a_name = a_name ?b, a_buffer = s,
      a_sampleRate = a_sampleRate ?b, a_channels = a_channels ?b, a_duration = 0, a_count = 1\<rparr>" "slice_ok s" by blast
  let ?n = "(mh_objs h1 ! j)\<lparr>entries := entries ?b\<rparr>"
  from s have "slice_ok (a_buffer ?n)" "\<not> readonly ?n" by simp_all
  then obtain t where t: "Audio_SetBytes (contents (a_buffer ?b)) ?n = Inr (?n\<lparr>a_buffer := t\<rparr>)"
      "slice_ok t" "contents t = contents (a_buffer ?b)" by (rule Audio_SetBytes_cases)
  define m where "m = ?n\<lparr>a_buffer := t, a_duration := a_duration ?b\<rparr>"
  have mut: "Audio_Mutable p i h = Inr (j, mh_update j (\<lambda>_. m) h1)"
    using ro t(1) by (simp add: Audio_Mutable_def new m_def Let_def)
  have pos1: "0 < mh_refs a_count h1 j" using n(3) by simp
  have "audio_ok (mh_update j (\<lambda>_. m) h1)"
    by (rule audio_update_ok(1) [OF n(1) pos1]) (use t in \<open>simp add: m_def\<close>)
  moreover have "mh_refs a_count (mh_update j (\<lambda>_. m) h1) = (mh_refs a_count h1)(j := a_count m)"
    by (rule mh_refs_update [OF n(6)])
  moreover have "mh_objs (mh_update j (\<lambda>_. m) h1) ! k = mh_objs h ! k" if "0 < mh_refs a_count h k" for k
    using n(2) n(4) [OF that] that by (auto simp: mh_update_nth)
  ultimately show ?thesis
    using n(2,3) by (intro that [OF mut]) (auto simp: audio_view_def thawed_def mh_update_nth n(6) m_def s t(3) fun_eq_iff Let_def)
qed

definition audio_new :: "nat option \<times> string \<times> int \<times> int \<Rightarrow> 'v audio mheap \<Rightarrow> nat \<times> 'v audio mheap" where
  "audio_new = (\<lambda>(pick, a). NewAudio pick a)"

lemma audio_new_ok:
  assumes "audio_ok h" "audio_new a h = (i, h')"
  shows "mh_refs a_count h i = 0" "audio_ok h'" "mh_refs a_count h' = (mh_refs a_count h)(i := 1)"
    and "0 < mh_refs a_count h j \<Longrightarrow> audio_view h' j = audio_view h j"
proof -
  obtain p n sr ch where a: "a = (p, n, sr, ch)" by (cases a) auto
  with assms(2) have "NewAudio p (n, sr, ch) h = (i, h')" by (simp add: audio_new_def)
  note n = NewAudio_ok [OF assms(1) this]
  show "mh_refs a_count h i = 0" "audio_ok h'" "mh_refs a_count h' = (mh_refs a_count h)(i := 1)"
    by (fact n(1-3))+
  show "0 < mh_refs a_count h j \<Longrightarrow> audio_view h' j = audio_view h j"
    using n(4) by (simp add: audio_view_def)
qed

lemma Audio_Retain_ok:
  assumes "audio_ok h" "0 < mh_refs a_count h i"
  shows "audio_ok (Audio_Retain i h)" "mh_refs a_count (Audio_Retain i h) = (mh_refs a_count h)(i := mh_refs a_count h i + 1)"
    and "audio_view (Audio_Retain i h) j = audio_view h j"
proof -
  show "audio_ok (Audio_Retain i h)"
    unfolding Audio_Retain_def by (rule audio_update_ok(1) [OF assms]) simp
  show "mh_refs a_count (Audio_Retain i h) = (mh_refs a_count h)(i := mh_refs a_count h i + 1)"
    using audio_live(1) [OF assms] by (simp add: Audio_Retain_def mh_refs_update) (simp add: mh_refs_def)
  show "audio_view (Audio_Retain i h) j = audio_view h j"
    by (simp add: Audio_Retain_def audio_view_def mh_update_nth Let_def)
qed

lemma Audio_Release_view:
  assumes "audio_ok h" "0 < mh_refs a_count h i" "0 < mh_refs a_count (Audio_Release i h) j"
  shows "audio_view (Audio_Release i h) j = audio_view h j"
proof (cases "j = i")
  case True
  then have "1 < mh_refs a_count h i" using assms Audio_Release_ok(2) [OF assms(1,2)] by simp
  then have "1 < a_count (mh_objs h ! i)" by (simp add: mh_refs_def split: if_splits)
  with True audio_live [OF assms(1,2)] show ?thesis
    by (simp add: Audio_Release_def audio_view_def mh_update_nth Let_def)
next
  case False
  then show ?thesis by (simp add: Audio_Release_def audio_view_def mh_update_nth mh_release_nth Let_def)
qed

lemma audio_copy_ok:
  assumes "audio_ok h" "0 < mh_refs a_count h i"
  shows "\<not> fst (audio_view h i) \<Longrightarrow> audio_copy p i h = (i, h)"
    and "fst (audio_view h i) \<Longrightarrow> audio_copy p i h = (j, h') \<Longrightarrow> mh_refs a_count h j = 0 \<and> audio_ok h' \<and>
          mh_refs a_count h' = (mh_refs a_count h)(j := 1) \<and> audio_view h' j = thawed (audio_view h i)"
    and "audio_copy p i h = (j, h') \<Longrightarrow> 0 < mh_refs a_count h k \<Longrightarrow> audio_view h' k = audio_view h k"
proof -
  have ro: "fst (audio_view h i) = readonly (mh_objs h ! i)" by (simp add: audio_view_def Let_def)
  show id: "\<not> fst (audio_view h i) \<Longrightarrow> audio_copy p i h = (i, h)"
    by (simp add: ro audio_copy_def Audio_Mutable_def)
  { assume r: "fst (audio_view h i)" and c: "audio_copy p i h = (j, h')"
    from assms r [unfolded ro] obtain j1 h1 where m: "Audio_Mutable p i h = Inr (j1, h1)" "mh_refs a_count h j1 = 0"
      "audio_ok h1" "mh_refs a_count h1 = (mh_refs a_count h)(j1 := 1)" "audio_view h1 j1 = thawed (audio_view h i)"
      "\<forall>k. 0 < mh_refs a_count h k \<longrightarrow> mh_objs h1 ! k = mh_objs h ! k" by (rule Audio_Mutable_copy [where p = p])
    with c have "mh_refs a_count h j = 0 \<and> audio_ok h' \<and>
          mh_refs a_count h' = (mh_refs a_count h)(j := 1) \<and> audio_view h' j = thawed (audio_view h i) \<and>
          (0 < mh_refs a_count h k \<longrightarrow> audio_view h' k = audio_view h k)"
      by (simp add: audio_copy_def) (simp add: audio_view_def) }
  note copy = this
  then show "fst (audio_view h i) \<Longrightarrow> audio_copy p i h = (j, h') \<Longrightarrow> mh_refs a_count h j = 0 \<and> audio_ok h' \<and>
          mh_refs a_count h' = (mh_refs a_count h)(j := 1) \<and> audio_view h' j = thawed (audio_view h i)" by blast
  show "audio_copy p i h = (j, h') \<Longrightarrow> 0 < mh_refs a_count h k \<Longrightarrow> audio_view h' k = audio_view h k"
    using copy id by (cases "fst (audio_view h i)") auto
qed

interpretation audio_rc: shared_media audio_ok "mh_refs a_count" audio_new Audio_Retain Audio_Release
  audio_view fst thawed "audio_touch mj" audio_copy for mj :: "'o \<Rightarrow> 'e + bytes"
  by unfold_locales
    (rule audio_new_ok Audio_Retain_ok Audio_Release_ok Audio_Release_view audio_touch_ok audio_copy_ok; assumption)+

section \<open>Video meets the media contract\<close>

datatype ('s, 'o) video_write =
  WYUV bytes bytes bytes | WFrameDuration int | WFrameProp string "('s, 'o) any" | WFrameReadOnly

fun video_set :: "('o \<Rightarrow> 'e + bytes) \<Rightarrow> ('s, 'o) video_write \<Rightarrow> ('s, 'o) any video \<Rightarrow> string + ('s, 'o) any video" where
  "video_set mj (WYUV y u v) b = SetYUV y u v b"
| "video_set mj (WFrameDuration d) b = Video_SetDuration d b"
| "video_set mj (WFrameProp k v) b =
     Inr (b\<lparr>entries := entries (fst (props_Set mj k v \<lparr>entries = entries b, readonly = readonly b\<rparr>))\<rparr>)"
| "video_set mj WFrameReadOnly b = Inr (b\<lparr>readonly := True\<rparr>)"

definition video_touch ::
  "('o \<Rightarrow> 'e + bytes) \<Rightarrow> ('s, 'o) video_write \<Rightarrow> nat \<Rightarrow> ('s, 'o) any video mheap \<Rightarrow> ('s, 'o) any video mheap" where
  "video_touch mj w i = mh_update i (\<lambda>b. case video_set mj w b of Inl _ \<Rightarrow> b | Inr b' \<Rightarrow> b')"

definition video_new :: "nat option \<times> string \<times> int \<times> int \<times> int \<Rightarrow> 'v video mheap \<Rightarrow> nat \<times> 'v video mheap" where
  "video_new = (\<lambda>(pick, a). NewVideo pick a)"

abbreviation frame_class :: "'v video \<Rightarrow> nat" where
  "frame_class b \<equiv> video_class (v_width b * v_height b)"

text \<open>The bytes a frame of a class is allocated with: a full 4:2:0 picture of that class.\<close>

definition class_room :: "nat \<Rightarrow> nat" where
  "class_room c = nat (class_pixels c * 3 div 2)"

definition video_blank :: "nat \<Rightarrow> 'v video \<Rightarrow> bool" where
  "video_blank c b \<longleftrightarrow> \<not> readonly b \<and> entries b = [] \<and> v_name b = [] \<and> slice_ok (v_data b) \<and>
     sl_len (v_data b) = 0 \<and> class_room c \<le> cap (v_data b) \<and> v_height b = 0 \<and> v_width b = 0 \<and> v_duration b = 0"

definition video_live :: "'v video \<Rightarrow> bool" where
  "video_live b \<longleftrightarrow> slice_ok (v_data b) \<and> class_room (frame_class b) \<le> cap (v_data b)"

definition video_ok :: "'v video mheap \<Rightarrow> bool" where
  "video_ok = mh_ok v_count frame_class video_blank video_live"

definition video_view :: "'v video mheap \<Rightarrow> nat \<Rightarrow> bool \<times> (string \<times> 'v) list \<times> string \<times> int \<times> int \<times> bytes \<times> int" where
  "video_view h i =
     (let b = mh_objs h ! i
      in (readonly b, entries b, v_name b, v_height b, v_width b, contents (v_data b), v_duration b))"

lemma Video_Recycle_blank: "video_live b \<Longrightarrow> video_blank (frame_class b) (Video_Recycle b)"
  by (simp add: video_live_def video_blank_def Video_Recycle_def)

lemma copy_at_arr:
  "off + length src \<le> length (sl_arr s) \<Longrightarrow>
     length (sl_arr (copy_at off src s)) = length (sl_arr s) \<and> sl_len (copy_at off src s) = sl_len s \<and>
     take off (sl_arr (copy_at off src s)) = take off (sl_arr s) \<and>
     take (off + length src) (sl_arr (copy_at off src s)) = take off (sl_arr s) @ src"
  by (simp add: copy_at_def)

lemma SetYUV_cases:
  assumes "\<not> readonly b"
  obtains s where "SetYUV y u v b = Inr (b\<lparr>v_data := s\<rparr>)" "slice_ok s" "contents s = y @ u @ v"
    "cap (v_data b) \<le> cap s"
proof -
  define buf where "buf = fit_slice 0 (v_data b) (length y + length u + length v)"
  define s1 where "s1 = copy_at 0 y buf"
  define s2 where "s2 = copy_at (length y) u s1"
  define s3 where "s3 = copy_at (length y + length u) v s2"
  have len: "length y + length u + length v \<le> length (sl_arr buf)" "sl_len buf = length y + length u + length v"
    using cap_fit_slice [of "0 :: byte" "v_data b" "length y + length u + length v"] by (auto simp: buf_def cap_def)
  have 1: "length (sl_arr s1) = length (sl_arr buf)" "sl_len s1 = sl_len buf" "take (length y) (sl_arr s1) = y"
    using copy_at_arr [of 0 y buf] len by (simp_all add: s1_def)
  have 2: "length (sl_arr s2) = length (sl_arr buf)" "sl_len s2 = sl_len buf"
      "take (length y + length u) (sl_arr s2) = y @ u"
    using copy_at_arr [of "length y" u s1] len 1 by (simp_all add: s2_def)
  have 3: "length (sl_arr s3) = length (sl_arr buf)" "sl_len s3 = sl_len buf"
      "take (length y + length u + length v) (sl_arr s3) = y @ u @ v"
    using copy_at_arr [of "length y + length u" v s2] len 2 by (simp_all add: s3_def)
  show ?thesis
  proof (rule that)
    show "SetYUV y u v b = Inr (b\<lparr>v_data := s3\<rparr>)"
      using assms by (simp add: SetYUV_def s3_def s2_def s1_def buf_def fit_slice_def Let_def)
    show "slice_ok s3" "contents s3 = y @ u @ v" using 3 len by (simp_all add: slice_ok_def contents_def)
    show "cap (v_data b) \<le> cap s3"
      using 3(1) cap_fit_slice [of "0 :: byte" "v_data b"] by (simp add: cap_def buf_def)
  qed
qed

lemma video_set_keeps:
  assumes "video_set mj w b = Inr b'" "video_live b"
  shows "v_count b' = v_count b \<and> video_live b' \<and> frame_class b' = frame_class b \<and> (readonly b \<longrightarrow> b' = b)"
proof (cases w)
  case (WYUV y u v)
  show ?thesis
  proof (cases "readonly b")
    case True
    then show ?thesis using assms WYUV by (simp add: SetYUV_def)
  next
    case False
    then obtain s where "SetYUV y u v b = Inr (b\<lparr>v_data := s\<rparr>)" "slice_ok s" "cap (v_data b) \<le> cap s"
      by (rule SetYUV_cases)
    then show ?thesis using assms WYUV False by (auto simp: video_live_def)
  qed
qed (use assms in \<open>auto simp: Video_SetDuration_def props_Set_def video_live_def split: if_splits sum.splits\<close>)

lemma video_base:
  "b = fresh_video c \<or> video_blank c b \<Longrightarrow>
     \<not> readonly b \<and> entries b = [] \<and> slice_ok (v_data b) \<and> class_room c \<le> cap (v_data b)"
  by (elim disjE) (simp_all add: fresh_video_def class_room_def video_blank_def)

lemma acquireVideo_ok:
  assumes ok: "video_ok h" and acq: "acquireVideo pick ht wd h = (i, h1)"
    and f: "\<And>b. \<not> readonly b \<Longrightarrow> entries b = [] \<Longrightarrow> slice_ok (v_data b) \<Longrightarrow> class_room (video_class (wd * ht)) \<le> cap (v_data b) \<Longrightarrow>
      v_count (f b) = 1 \<and> v_width (f b) = wd \<and> v_height (f b) = ht \<and> video_live (f b)"
  shows "video_ok (mh_update i f h1)" "mh_refs v_count h i = 0"
    and "mh_refs v_count (mh_update i f h1) = (mh_refs v_count h)(i := 1)"
    and "0 < mh_refs v_count h j \<Longrightarrow> mh_objs (mh_update i f h1) ! j = mh_objs h ! j"
    and "mh_objs (mh_update i f h1) ! i = f (mh_objs h1 ! i)"
    and "\<not> readonly (mh_objs h1 ! i)" "entries (mh_objs h1 ! i) = []" "slice_ok (v_data (mh_objs h1 ! i))"
proof -
  let ?c = "video_class (wd * ht)"
  have ok': "mh_ok v_count frame_class video_blank video_live h"
    using ok by (simp add: video_ok_def)
  have acq': "mh_acquire (fresh_video ?c) ?c pick (mh_gauge ?c 1 h) = (i, h1)"
    using acq unfolding acquireVideo_def Let_def mult.commute [of ht wd] .
  have init: "v_count (f b) = 1 \<and> frame_class (f b) = ?c \<and> video_live (f b)"
    if "b = fresh_video ?c \<or> video_blank ?c b" for b
    using f [of b] video_base [OF that] by simp
  have upd: "mh_ok v_count frame_class video_blank video_live (mh_update i f h1) \<and>
      mh_refs v_count h i = 0 \<and> mh_refs v_count (mh_update i f h1) = (mh_refs v_count h)(i := 1)"
    by (rule mh_ok_acquire [OF ok' acq' init])
  then show "video_ok (mh_update i f h1)" "mh_refs v_count h i = 0"
    "mh_refs v_count (mh_update i f h1) = (mh_refs v_count h)(i := 1)" by (simp_all add: video_ok_def)
  note objs = mh_acquire_obj [OF ok' acq']
  show "mh_objs (mh_update i f h1) ! j = mh_objs h ! j" if "0 < mh_refs v_count h j"
    using that objs(3) [OF that] upd by (auto simp: mh_update_nth)
  show "mh_objs (mh_update i f h1) ! i = f (mh_objs h1 ! i)" using objs(2) by (simp add: mh_update_nth)
  show "\<not> readonly (mh_objs h1 ! i)" "entries (mh_objs h1 ! i) = []" "slice_ok (v_data (mh_objs h1 ! i))"
    using video_base [OF objs(1)] by simp_all
qed

lemma video_new_ok:
  assumes ok: "video_ok h" and new: "video_new a h = (i, h')"
  shows "mh_refs v_count h i = 0" "video_ok h'" "mh_refs v_count h' = (mh_refs v_count h)(i := 1)"
    and "0 < mh_refs v_count h j \<Longrightarrow> video_view h' j = video_view h j"
proof -
  obtain p n ht wd d where a: "a = (p, n, ht, wd, d)" by (cases a) auto
  obtain k h1 where acq: "acquireVideo p ht wd h = (k, h1)" by (cases "acquireVideo p ht wd h")
  let ?f = "\<lambda>b. b\<lparr>v_name := n, v_height := ht, v_width := wd, v_duration := d, v_count := 1\<rparr>"
  from new acq have h': "k = i" "h' = mh_update i ?f h1" by (auto simp: a video_new_def NewVideo_def)
  note n = acquireVideo_ok [OF ok acq, of ?f]
  show "mh_refs v_count h i = 0" "video_ok h'" "mh_refs v_count h' = (mh_refs v_count h)(i := 1)"
    using n(1-3) by (simp_all add: h' video_live_def)
  show "0 < mh_refs v_count h j \<Longrightarrow> video_view h' j = video_view h j"
    using n(4) by (simp add: video_view_def h' video_live_def)
qed

lemma video_update_ok:
  assumes ok: "video_ok h" and pos: "0 < mh_refs v_count h i"
    and f: "video_live (mh_objs h ! i) \<Longrightarrow>
      v_count (mh_objs h ! i) \<le> v_count (f (mh_objs h ! i)) \<and> video_live (f (mh_objs h ! i)) \<and>
      frame_class (f (mh_objs h ! i)) = frame_class (mh_objs h ! i)"
  shows "video_ok (mh_update i f h)"
    and "mh_refs v_count (mh_update i f h) = (mh_refs v_count h)(i := v_count (f (mh_objs h ! i)))"
proof -
  have ok': "mh_ok v_count frame_class video_blank video_live h" using ok by (simp add: video_ok_def)
  from pos have i: "i < length (mh_objs h)" and cnt: "0 < v_count (mh_objs h ! i)" by (simp_all add: mh_refs_pos)
  from f [OF mh_okD(5) [OF ok' i cnt]] cnt show "video_ok (mh_update i f h)"
    unfolding video_ok_def by (intro mh_ok_update_live [OF ok' i cnt]) auto
  show "mh_refs v_count (mh_update i f h) = (mh_refs v_count h)(i := v_count (f (mh_objs h ! i)))"
    by (rule mh_refs_update [OF i])
qed

lemma video_held:
  assumes "video_ok h" "0 < mh_refs v_count h i"
  shows "i < length (mh_objs h)" "video_live (mh_objs h ! i)"
  using assms mh_okD(5) [of v_count frame_class video_blank video_live h i]
  by (simp_all add: video_ok_def mh_refs_pos)

lemma Video_Retain_ok:
  assumes "video_ok h" "0 < mh_refs v_count h i"
  shows "video_ok (Video_Retain i h)" "mh_refs v_count (Video_Retain i h) = (mh_refs v_count h)(i := mh_refs v_count h i + 1)"
    and "video_view (Video_Retain i h) j = video_view h j"
proof -
  show "video_ok (Video_Retain i h)"
    unfolding Video_Retain_def by (rule video_update_ok(1) [OF assms]) (simp add: video_live_def)
  show "mh_refs v_count (Video_Retain i h) = (mh_refs v_count h)(i := mh_refs v_count h i + 1)"
    using video_held(1) [OF assms] by (simp add: Video_Retain_def mh_refs_update) (simp add: mh_refs_def)
  show "video_view (Video_Retain i h) j = video_view h j"
    by (simp add: Video_Retain_def video_view_def mh_update_nth Let_def)
qed

lemma Video_Release_ok:
  assumes ok: "video_ok h" and pos: "0 < mh_refs v_count h i"
  shows "video_ok (Video_Release i h)"
    and "mh_refs v_count (Video_Release i h) = (mh_refs v_count h)(i := mh_refs v_count h i - 1)"
proof -
  let ?f = "\<lambda>b. b\<lparr>v_count := v_count b - 1\<rparr>" and ?b = "mh_objs h ! i"
  have ok': "mh_ok v_count frame_class video_blank video_live h" using ok by (simp add: video_ok_def)
  from pos have i: "i < length (mh_objs h)" and cnt: "0 < v_count ?b" by (simp_all add: mh_refs_pos)
  then have lv: "video_live ?b" by (rule mh_okD(5) [OF ok'])
  have "video_ok (Video_Release i h) \<and>
    mh_refs v_count (Video_Release i h) = (mh_refs v_count h)(i := mh_refs v_count h i - 1)"
  proof (cases "v_count ?b = 1")
    case True
    define x where "x = Video_Recycle (?f ?b)"
    have x: "v_count x = 0" "video_blank (frame_class ?b) x"
      using Video_Recycle_blank [of "?f ?b"] lv by (simp_all add: x_def video_live_def Video_Recycle_def)
    have rel: "Video_Release i h = mh_release Video_Recycle (frame_class ?b) i (mh_gauge (frame_class ?b) (-1) (mh_update i ?f h))"
      using i True by (simp add: Video_Release_def releaseVideo_def mh_update_nth Let_def)
    from mh_ok_release [OF ok' i cnt refl x_def x rel] True i show ?thesis
      by (simp add: video_ok_def) (simp add: mh_refs_def)
  next
    case False
    have "video_ok (mh_update i ?f h)"
      unfolding video_ok_def
      by (rule mh_ok_update_live [OF ok' i cnt]) (use False cnt lv in \<open>simp_all add: video_live_def\<close>)
    then show ?thesis using False cnt i
      by (simp add: Video_Release_def mh_update_nth mh_refs_update) (simp add: mh_refs_def)
  qed
  then show "video_ok (Video_Release i h)"
    "mh_refs v_count (Video_Release i h) = (mh_refs v_count h)(i := mh_refs v_count h i - 1)" by blast+
qed

lemma Video_Release_view:
  assumes "video_ok h" "0 < mh_refs v_count h i" "0 < mh_refs v_count (Video_Release i h) j"
  shows "video_view (Video_Release i h) j = video_view h j"
proof (cases "j = i")
  case True
  then have "1 < mh_refs v_count h i" using assms Video_Release_ok(2) [OF assms(1,2)] by simp
  then have "1 < v_count (mh_objs h ! i)" by (simp add: mh_refs_def split: if_splits)
  with True video_held [OF assms(1,2)] show ?thesis
    by (simp add: Video_Release_def video_view_def mh_update_nth Let_def)
next
  case False
  then show ?thesis
    by (simp add: Video_Release_def releaseVideo_def video_view_def mh_update_nth mh_release_nth Let_def)
qed

lemma video_touch_ok:
  assumes ok: "video_ok h" and pos: "0 < mh_refs v_count h i"
  shows "video_ok (video_touch mj w i h)" "mh_refs v_count (video_touch mj w i h) = mh_refs v_count h"
    and "j \<noteq> i \<or> fst (video_view h i) \<Longrightarrow> video_view (video_touch mj w i h) j = video_view h j"
proof -
  let ?f = "\<lambda>b. case video_set mj w b of Inl _ \<Rightarrow> b | Inr b' \<Rightarrow> b'"
  have f: "v_count (?f b) = v_count b \<and> video_live (?f b) \<and> frame_class (?f b) = frame_class b \<and> (readonly b \<longrightarrow> ?f b = b)"
    if "video_live b" for b
    using video_set_keeps [OF _ that, of mj w] that by (auto split: sum.splits)
  note live = video_held [OF ok pos]
  show "video_ok (video_touch mj w i h)"
    unfolding video_touch_def by (rule video_update_ok(1) [OF ok pos]) (use f in auto)
  have "mh_refs v_count (video_touch mj w i h) = (mh_refs v_count h)(i := v_count (?f (mh_objs h ! i)))"
    unfolding video_touch_def by (rule mh_refs_update [OF live(1)])
  then show "mh_refs v_count (video_touch mj w i h) = mh_refs v_count h"
    using f [OF live(2)] live(1) by (simp add: fun_eq_iff mh_refs_def)
  show "video_view (video_touch mj w i h) j = video_view h j" if "j \<noteq> i \<or> fst (video_view h i)"
    using that f [OF live(2)] by (auto simp: video_view_def video_touch_def mh_update_nth Let_def)
qed

lemma Video_setData_fit:
  "Video_setData src b = b\<lparr>v_data := copy_into (fit_slice 0 (v_data b) (length src)) src\<rparr>"
  by (simp add: Video_setData_def fit_slice_def Let_def)

lemma Video_Mutable_ok:
  assumes ok: "video_ok h" and pos: "0 < mh_refs v_count h i"
  shows "\<not> fst (video_view h i) \<Longrightarrow> Video_Mutable p i h = (i, h)"
    and "fst (video_view h i) \<Longrightarrow> Video_Mutable p i h = (j, h') \<Longrightarrow> mh_refs v_count h j = 0 \<and> video_ok h' \<and>
          mh_refs v_count h' = (mh_refs v_count h)(j := 1) \<and> video_view h' j = thawed (video_view h i)"
    and "Video_Mutable p i h = (j, h') \<Longrightarrow> 0 < mh_refs v_count h k \<Longrightarrow> video_view h' k = video_view h k"
proof -
  let ?b = "mh_objs h ! i"
  have ro: "fst (video_view h i) = readonly ?b" by (simp add: video_view_def Let_def)
  show id: "\<not> fst (video_view h i) \<Longrightarrow> Video_Mutable p i h = (i, h)"
    by (simp add: ro Video_Mutable_def Let_def)
  { assume r: "fst (video_view h i)" and c: "Video_Mutable p i h = (j, h')"
    obtain k1 h1 where acq: "acquireVideo p (v_height ?b) (v_width ?b) h = (k1, h1)"
      by (cases "acquireVideo p (v_height ?b) (v_width ?b) h")
    define f where "f = (\<lambda>x. (Video_setData (contents (v_data ?b))
      (x\<lparr>v_name := v_name ?b, v_height := v_height ?b, v_width := v_width ?b,
         v_duration := v_duration ?b, entries := entries ?b\<rparr>))\<lparr>v_count := 1\<rparr>)"
    from c r acq have eq: "k1 = j" "h' = mh_update j f h1" by (auto simp: ro Video_Mutable_def f_def Let_def)
    have f: "v_count (f x) = 1 \<and> v_width (f x) = v_width ?b \<and> v_height (f x) = v_height ?b \<and> video_live (f x)"
      if "class_room (video_class (v_width ?b * v_height ?b)) \<le> cap (v_data x)" for x
      using that cap_fit_slice [of "0 :: byte"] by (simp add: f_def Video_setData_fit video_live_def)
    note n = acquireVideo_ok [where f = f, OF ok acq [unfolded eq] f]
    have "mh_refs v_count h j = 0 \<and> video_ok h' \<and>
          mh_refs v_count h' = (mh_refs v_count h)(j := 1) \<and> video_view h' j = thawed (video_view h i) \<and>
          (0 < mh_refs v_count h k \<longrightarrow> video_view h' k = video_view h k)"
      using n(1-3,6) by (simp add: eq video_view_def n(4,5) Let_def) (simp add: f_def Video_setData_fit thawed_def) }
  note copy = this
  then show "fst (video_view h i) \<Longrightarrow> Video_Mutable p i h = (j, h') \<Longrightarrow> mh_refs v_count h j = 0 \<and> video_ok h' \<and>
          mh_refs v_count h' = (mh_refs v_count h)(j := 1) \<and> video_view h' j = thawed (video_view h i)" by blast
  show "Video_Mutable p i h = (j, h') \<Longrightarrow> 0 < mh_refs v_count h k \<Longrightarrow> video_view h' k = video_view h k"
    using copy id by (cases "fst (video_view h i)") auto
qed

interpretation video_rc: shared_media video_ok "mh_refs v_count" video_new Video_Retain Video_Release
  video_view fst thawed "video_touch mj" Video_Mutable for mj :: "'o \<Rightarrow> 'e + bytes"
  by unfold_locales
    (rule video_new_ok Video_Retain_ok Video_Release_ok Video_Release_view video_touch_ok Video_Mutable_ok; assumption)+

section \<open>What every interleaving of holders sees\<close>

lemma live_ids_held:
  "(\<And>i. mh_refs cnt h i = int (held i)) \<Longrightarrow>
     live_ids cnt cls c (mh_objs h) = {i. 0 < held i \<and> cls (mh_objs h ! i) = c}"
proof -
  assume r: "\<And>i. mh_refs cnt h i = int (held i)"
  have "0 < held i \<longleftrightarrow> i < length (mh_objs h) \<and> 0 < cnt (mh_objs h ! i)" for i
    using r [of i] mh_refs_pos [of cnt h i] by simp
  then show ?thesis by (auto simp: live_ids_def)
qed

lemma held_disjoint_pool:
  assumes "mh_ok cnt cls bl lv h" "\<And>i. mh_refs cnt h i = int (held i)"
  shows "set (mh_pool h c) \<inter> {i. 0 < held i} = {}"
proof -
  have "held i = 0" if "i \<in> set (mh_pool h c)" for i
    using mh_okD(3) [OF assms(1) that] assms(2) [of i] by (simp add: mh_refs_def)
  then show ?thesis by auto
qed

lemma mh_refs_empty [simp]: "mh_refs cnt mh_empty i = 0"
  by (simp add: mh_refs_def mh_empty_def)

text \<open>The steps of the holders, over this theory's operations.\<close>

definition audio_step where
  "audio_step mj = shared_media.media_step audio_new Audio_Retain Audio_Release (audio_touch mj) audio_copy"

definition video_step where
  "video_step mj = shared_media.media_step video_new Video_Retain Video_Release (video_touch mj) Video_Mutable"

lemma audio_reachable:
  assumes "fold (audio_step mj) ops (mh_empty, \<lambda>_. 0) = (h, held)"
  shows "audio_ok h" "mh_refs a_count h i = int (held i)" "refcounted.accounted audio_ok (mh_refs a_count) (h, held)"
proof -
  have "refcounted.accounted audio_ok (mh_refs a_count) (mh_empty :: ('a, 'b) any audio mheap, \<lambda>_. 0)"
    unfolding audio_rc.accounted_def by (simp add: audio_ok_def mh_ok_empty)
  from audio_rc.accounted_media_run [OF this, of mj ops] assms [unfolded audio_step_def]
  show acc: "refcounted.accounted audio_ok (mh_refs a_count) (h, held)" by simp
  then show "audio_ok h" "mh_refs a_count h i = int (held i)" by (simp_all add: audio_rc.accounted_def)
qed


lemma video_reachable:
  assumes "fold (video_step mj) ops (mh_empty, \<lambda>_. 0) = (h, held)"
  shows "video_ok h" "mh_refs v_count h i = int (held i)" "refcounted.accounted video_ok (mh_refs v_count) (h, held)"
proof -
  have "refcounted.accounted video_ok (mh_refs v_count) (mh_empty :: ('a, 'b) any video mheap, \<lambda>_. 0)"
    unfolding video_rc.accounted_def by (simp add: video_ok_def mh_ok_empty)
  from video_rc.accounted_media_run [OF this, of mj ops] assms [unfolded video_step_def]
  show acc: "refcounted.accounted video_ok (mh_refs v_count) (h, held)" by simp
  then show "video_ok h" "mh_refs v_count h i = int (held i)" by (simp_all add: video_rc.accounted_def)
qed


text \<open>C17. A frozen audio buffer is immutable for everyone who holds it: in every reachable state, no
  operation of any holder changes what a reader sees of a read-only object that stays held.\<close>

theorem frozen_audio_immutable:
  assumes "fold (audio_step mj) ops (mh_empty, \<lambda>_. 0) = (h, held)"
    and "readonly (mh_objs h ! i)" "0 < held i" "audio_step mj op (h, held) = (h', held')" "0 < held' i"
  shows "audio_view h' i = audio_view h i"
  using audio_rc.frozen_step [OF audio_reachable(3) [OF assms(1)], of i mj op h' held'] assms
  by (simp add: audio_step_def audio_view_def Let_def)

abbreviation (input) no_json :: "unit \<Rightarrow> unit + bytes" where "no_json \<equiv> \<lambda>_. Inr []"

lemma audio_new_apply: "audio_new (p, a) h = NewAudio p a h"
  by (simp add: audio_new_def)

lemma video_new_apply: "video_new (p, a) h = NewVideo p a h"
  by (simp add: video_new_def)

lemma audio_step_apply:
  "audio_step mj (MRef (RNew a)) (h, held) = (case audio_new a h of (i, h') \<Rightarrow> (h', held(i := Suc (held i))))"
  "audio_step mj (MTouch w i) (h, held) = (if held i = 0 then (h, held) else (audio_touch mj w i h, held))"
  by (simp_all add: audio_step_def)

lemma video_step_apply:
  "video_step mj (MRef (RNew a)) (h, held) = (case video_new a h of (i, h') \<Rightarrow> (h', held(i := Suc (held i))))"
  by (simp add: video_step_def)

lemma NewAudio_empty:
  "NewAudio None (n, sr, ch) mh_empty =
     (0, \<lparr>mh_objs = [fresh_audio\<lparr>a_name := n, a_sampleRate := sr, a_channels := ch, a_count := 1\<rparr>],
         mh_pool = (\<lambda>_. []), mh_active = (\<lambda>_. 0)(0 := 1)\<rparr>)"
  by (simp add: NewAudio_def mh_acquire_def Pool_Acquire_def mh_gauge_def mh_update_def mh_empty_def)

theorem frozen_audio_immutable_witness:
  "\<exists>h held h' held'.
     fold (audio_step no_json) [MRef (RNew (None, ''mic'', 16000, 1)), MTouch (WReadOnly :: (unit, unit) audio_write) 0]
       (mh_empty, \<lambda>_. 0) = (h, held) \<and>
     readonly (mh_objs h ! 0) \<and> audio_step no_json (MTouch (WDuration 5) 0) (h, held) = (h', held') \<and>
     0 < held 0 \<and> 0 < held' 0 \<and> audio_view h' 0 = audio_view h 0"
proof -
  define s where "s = fold (audio_step no_json)
    [MRef (RNew (None, ''mic'', 16000, 1)), MTouch (WReadOnly :: (unit, unit) audio_write) 0] (mh_empty, \<lambda>_. 0)"
  define s' where "s' = audio_step no_json (MTouch (WDuration 5) 0) s"
  have s: "readonly (mh_objs (fst s) ! 0)" "snd s = (\<lambda>_. 0)(0 := 1)"
    by (simp_all add: s_def audio_step_apply audio_new_apply NewAudio_empty audio_touch_def mh_update_def)
  have s': "snd s' = snd s" by (cases s) (simp add: s'_def audio_step_apply)
  show ?thesis
    using frozen_audio_immutable [of no_json _ "fst s" "snd s" 0 "MTouch (WDuration 5) 0" "fst s'" "snd s'"] s s'
    by (metis s_def s'_def prod.collapse fun_upd_same zero_less_one)
qed

lemma class_room_enough: "0 \<le> n \<Longrightarrow> n \<le> 1920 * 1080 \<Longrightarrow> nat (n * 3 div 2) \<le> class_room (video_class n)"
  unfolding class_room_def by (rule nat_mono) (auto simp: video_class_def class_pixels_def)


text \<open>C19. Planes round trip: after \<open>SetYUV\<close> with planes of the 4:2:0 sizes of the frame, \<open>YBytes\<close>,
  \<open>UBytes\<close> and \<open>VBytes\<close> return the three planes, whatever the buffer held before.\<close>

theorem planes_roundtrip:
  assumes "\<not> readonly b" "n = v_width b * v_height b" "0 \<le> n"
    and "length y = nat n" "length u = nat (n div 4)" "length v = nat (n div 4)"
  shows "\<exists>b'. SetYUV y u v b = Inr b' \<and> YBytes b' = Some y \<and> UBytes b' = Some u \<and> VBytes b' = Some v"
proof -
  obtain s where s: "SetYUV y u v b = Inr (b\<lparr>v_data := s\<rparr>)" "slice_ok s" "contents s = y @ u @ v"
    using assms(1) by (rule SetYUV_cases)
  from s(2,3) have len: "sl_len s = length y + length u + length v" by (metis length_contents length_append add.assoc)
  have "take (sl_len s) (sl_arr s) = y @ u @ v" using s(3) by (simp add: contents_def)
  then obtain rest where arr: "sl_arr s = y @ u @ v @ rest" by (metis append_take_drop_id append.assoc)
  have "nat (n + n div 4) = nat n + nat (n div 4)" using assms(3) by (simp add: nat_add_distrib)
  then show ?thesis using s(1) len arr assms(2-6)
    by (auto simp: YBytes_def UBytes_def VBytes_def Let_def)
qed

lemma sample_frame:
  "NewVideo None (''cam'', 2, 2, 40) (mh_empty :: (unit, unit) any video mheap) =
     (0, \<lparr>mh_objs = [(fresh_video 0)\<lparr>v_name := ''cam'', v_height := 2, v_width := 2, v_duration := 40, v_count := 1\<rparr>],
         mh_pool = (\<lambda>_. []), mh_active = (\<lambda>_. 0)(0 := 1)\<rparr>)"
  by (simp add: NewVideo_def acquireVideo_def mh_acquire_def Pool_Acquire_def mh_gauge_def mh_update_def mh_empty_def
      video_class_def)

theorem planes_roundtrip_witness:
  "\<exists>b'. SetYUV [1, 2, 3, 4] [5] [6] ((fresh_video 0 :: nat video)\<lparr>v_height := 2, v_width := 2\<rparr>) = Inr b' \<and>
     YBytes b' = Some [1, 2, 3, 4] \<and> UBytes b' = Some [5] \<and> VBytes b' = Some [6]"
  by (rule planes_roundtrip [of _ 4]) (simp_all add: fresh_video_def)


end
