(* ===== verification/Node.thy ===== *)
theory Node
  imports Registry Media Syncx
begin

text \<open>
  The runtime graph: \<open>internal/engine/node.go\<close> (routing), \<open>node_loop.go\<close> (one goroutine
  per node), \<open>node_scheduler.go\<close> and \<open>scheduler.go\<close> (nodes on a worker pool).

  Nodes refer to each other by index in one engine state, which also holds the worker
  queues, the workflow context, the scheduler context and the heaps of audio and video
  objects (\<open>Media\<close>). An event is a reference to an object. \<open>Input\<close> is a method of the
  \<open>Node\<close> interface: it dispatches on the kind of node.

  A blocking send (\<open>SendWithContext\<close> of a signal or a payload to a full queue) parks the
  calling goroutine: the operations return the deliveries still to be made, with the
  blocked one first, and the goroutine resumes with them. Media is never blocking.

  The channels of nodes and workers are never closed, so the panic of a send on a closed
  channel does not occur; the branches below treat it as a failed send.

  Not modelled: handler deadlines, logging, and the plugin code itself, which acts on the
  engine through the \<open>Flow\<close> calls defined here.
\<close>

abbreviation (input) ctrlBufferSize :: nat where "ctrlBufferSize \<equiv> 8"
abbreviation (input) signalBufferSize :: nat where "signalBufferSize \<equiv> 12"
abbreviation (input) payloadBufferSize :: nat where "payloadBufferSize \<equiv> 24"
abbreviation (input) audioBufferSize :: nat where "audioBufferSize \<equiv> 64"
abbreviation (input) videoBufferSize :: nat where "videoBufferSize \<equiv> 24"

datatype event = EvSignal nat | EvPayload nat | EvAudio nat | EvVideo nat

datatype controlType = controlPause | controlResume | controlStop

fun controlType_String :: "controlType \<Rightarrow> string" where
  "controlType_String controlPause = ''pause''"
| "controlType_String controlResume = ''resume''"
| "controlType_String controlStop = ''stop''"

record routeTable =
  signals :: "nat list"
  payloads :: "nat list"
  audios :: "nat list"
  videos :: "nat list"

definition empty_table :: routeTable where
  "empty_table = \<lparr>signals = [], payloads = [], audios = [], videos = []\<rparr>"

datatype node_kind = LoopNode | SchedulerNode nat

record node =
  nd_name :: string
  nd_kind :: node_kind
  nd_running :: bool
  nd_table :: routeTable
  nd_portTable :: "routeTable list"
  nd_ctrlChan :: "controlType chan"
  nd_signalChan :: "nat chan"
  nd_payloadChan :: "nat chan"
  nd_audioChan :: "nat chan"
  nd_videoChan :: "nat chan"

record Task =
  t_node :: nat
  t_event :: "event option"
  t_control :: "controlType option"

record worker =
  highPriorityCh :: "Task chan"
  normalPriorityCh :: "Task chan"

record 'v engine =
  en_ctx :: ctx
  en_sctx :: ctx
  en_nodes :: "node list"
  en_workers :: "worker list"
  en_audio :: "'v audio mheap"
  en_video :: "'v video mheap"

definition newBaseNode :: "node_kind \<Rightarrow> string \<Rightarrow> node" where
  "newBaseNode kind name =
     \<lparr>nd_name = name, nd_kind = kind, nd_running = False, nd_table = empty_table,
      nd_portTable = replicate MaxPortCount empty_table,
      nd_ctrlChan = make_chan ctrlBufferSize, nd_signalChan = make_chan signalBufferSize,
      nd_payloadChan = make_chan payloadBufferSize, nd_audioChan = make_chan audioBufferSize,
      nd_videoChan = make_chan videoBufferSize\<rparr>"

definition newLoopNode :: "string \<Rightarrow> node" where
  "newLoopNode name = newBaseNode LoopNode name"

definition upd_node :: "nat \<Rightarrow> (node \<Rightarrow> node) \<Rightarrow> 'v engine \<Rightarrow> 'v engine" where
  "upd_node i f w = w\<lparr>en_nodes := (en_nodes w)[i := f (en_nodes w ! i)]\<rparr>"

definition upd_worker :: "nat \<Rightarrow> (worker \<Rightarrow> worker) \<Rightarrow> 'v engine \<Rightarrow> 'v engine" where
  "upd_worker i f w = w\<lparr>en_workers := (en_workers w)[i := f (en_workers w ! i)]\<rparr>"

section \<open>Routing tables\<close>

definition addNextNode :: "EventType \<Rightarrow> nat \<Rightarrow> node \<Rightarrow> node" where
  "addNextNode event nextNode n =
     (let t = nd_table n in
      if event = EventSignal then n\<lparr>nd_table := t\<lparr>signals := add_unique nextNode (signals t)\<rparr>\<rparr>
      else if event = EventPayload then n\<lparr>nd_table := t\<lparr>payloads := add_unique nextNode (payloads t)\<rparr>\<rparr>
      else if event = EventAudio then n\<lparr>nd_table := t\<lparr>audios := add_unique nextNode (audios t)\<rparr>\<rparr>
      else if event = EventVideo then n\<lparr>nd_table := t\<lparr>videos := add_unique nextNode (videos t)\<rparr>\<rparr>
      else n)"

definition addNextPortNode :: "EventType \<Rightarrow> nat \<Rightarrow> int \<Rightarrow> node \<Rightarrow> node" where
  "addNextPortNode event nextNode port n =
     (if port < 0 \<or> port \<ge> int MaxPortCount then n
      else
        let p = nat port; t = nd_table n; pt = nd_portTable n ! p in
        if event = EventSignal then
          n\<lparr>nd_portTable := (nd_portTable n)[p := pt\<lparr>signals := add_unique nextNode (signals pt)\<rparr>],
            nd_table := t\<lparr>signals := add_unique nextNode (signals t)\<rparr>\<rparr>
        else if event = EventPayload then
          n\<lparr>nd_portTable := (nd_portTable n)[p := pt\<lparr>payloads := add_unique nextNode (payloads pt)\<rparr>],
            nd_table := t\<lparr>payloads := add_unique nextNode (payloads t)\<rparr>\<rparr>
        else if event = EventAudio then
          n\<lparr>nd_portTable := (nd_portTable n)[p := pt\<lparr>audios := add_unique nextNode (audios pt)\<rparr>],
            nd_table := t\<lparr>audios := add_unique nextNode (audios t)\<rparr>\<rparr>
        else if event = EventVideo then
          n\<lparr>nd_portTable := (nd_portTable n)[p := pt\<lparr>videos := add_unique nextNode (videos pt)\<rparr>],
            nd_table := t\<lparr>videos := add_unique nextNode (videos t)\<rparr>\<rparr>
        else n)"

section \<open>References to media objects\<close>

text \<open>\<open>value.Retain()\<close> on media, and \<open>if ref, ok := data.(schema.RefCountable); ok { ref.Release() }\<close>.\<close>

fun retain_ev :: "event \<Rightarrow> 'v engine \<Rightarrow> 'v engine" where
  "retain_ev (EvAudio i) w = w\<lparr>en_audio := Audio_Retain i (en_audio w)\<rparr>"
| "retain_ev (EvVideo i) w = w\<lparr>en_video := Video_Retain i (en_video w)\<rparr>"
| "retain_ev _ w = w"

fun release_ev :: "event \<Rightarrow> 'v engine \<Rightarrow> 'v engine" where
  "release_ev (EvAudio i) w = w\<lparr>en_audio := Audio_Release i (en_audio w)\<rparr>"
| "release_ev (EvVideo i) w = w\<lparr>en_video := Video_Release i (en_video w)\<rparr>"
| "release_ev _ w = w"

section \<open>Input\<close>

definition loop_Input :: "nat \<Rightarrow> event \<Rightarrow> 'v engine \<Rightarrow> 'v engine \<times> bool" where
  "loop_Input i data w =
     (let n = en_nodes w ! i in
      if en_ctx w \<noteq> None \<or> \<not> nd_running n then (release_ev data w, False)
      else case data of
             EvSignal v \<Rightarrow>
               (case SendWithContext (en_ctx w) (nd_signalChan n) v of
                  Sent c \<Rightarrow> (upd_node i (\<lambda>n. n\<lparr>nd_signalChan := c\<rparr>) w, False)
                | Parked \<Rightarrow> (w, True)
                | _ \<Rightarrow> (w, False))
           | EvPayload v \<Rightarrow>
               (case SendWithContext (en_ctx w) (nd_payloadChan n) v of
                  Sent c \<Rightarrow> (upd_node i (\<lambda>n. n\<lparr>nd_payloadChan := c\<rparr>) w, False)
                | Parked \<Rightarrow> (w, True)
                | _ \<Rightarrow> (w, False))
           | EvAudio v \<Rightarrow>
               (case SendWithNonBlocking (en_ctx w) (nd_audioChan n) v of
                  Sent c \<Rightarrow> (upd_node i (\<lambda>n. n\<lparr>nd_audioChan := c\<rparr>) w, False)
                | _ \<Rightarrow> (release_ev data w, False))
           | EvVideo v \<Rightarrow>
               (case SendWithNonBlocking (en_ctx w) (nd_videoChan n) v of
                  Sent c \<Rightarrow> (upd_node i (\<lambda>n. n\<lparr>nd_videoChan := c\<rparr>) w, False)
                | _ \<Rightarrow> (release_ev data w, False)))"

definition SubmitToWorker :: "nat \<Rightarrow> nat \<Rightarrow> event \<Rightarrow> 'v engine \<Rightarrow> 'v engine \<times> bool" where
  "SubmitToWorker k i data w =
     (let wk = en_workers w ! k; task = \<lparr>t_node = i, t_event = Some data, t_control = None\<rparr> in
      case data of
        EvSignal _ \<Rightarrow>
          (case SendWithContext (en_sctx w) (highPriorityCh wk) task of
             Sent c \<Rightarrow> (upd_worker k (\<lambda>wk. wk\<lparr>highPriorityCh := c\<rparr>) w, False)
           | Parked \<Rightarrow> (w, True)
           | _ \<Rightarrow> (w, False))
      | EvPayload _ \<Rightarrow>
          (case SendWithContext (en_sctx w) (normalPriorityCh wk) task of
             Sent c \<Rightarrow> (upd_worker k (\<lambda>wk. wk\<lparr>normalPriorityCh := c\<rparr>) w, False)
           | Parked \<Rightarrow> (w, True)
           | _ \<Rightarrow> (w, False))
      | _ \<Rightarrow>
          (case SendWithNonBlocking (en_sctx w) (normalPriorityCh wk) task of
             Sent c \<Rightarrow> (upd_worker k (\<lambda>wk. wk\<lparr>normalPriorityCh := c\<rparr>) w, False)
           | _ \<Rightarrow> (release_ev data w, False)))"

definition scheduler_Input :: "nat \<Rightarrow> nat \<Rightarrow> event \<Rightarrow> 'v engine \<Rightarrow> 'v engine \<times> bool" where
  "scheduler_Input workerIdx i data w =
     (if en_ctx w \<noteq> None \<or> \<not> nd_running (en_nodes w ! i) then (release_ev data w, False)
      else SubmitToWorker workerIdx i data w)"

definition Input :: "nat \<Rightarrow> event \<Rightarrow> 'v engine \<Rightarrow> 'v engine \<times> bool" where
  "Input i data w =
     (case nd_kind (en_nodes w ! i) of
        LoopNode \<Rightarrow> loop_Input i data w
      | SchedulerNode k \<Rightarrow> scheduler_Input k i data w)"

text \<open>\<open>for _, next := range nodes { next.Input(value) }\<close>, stopping where the goroutine parks.\<close>

fun inputs :: "(nat \<times> event) list \<Rightarrow> 'v engine \<Rightarrow> 'v engine \<times> (nat \<times> event) list" where
  "inputs [] w = (w, [])"
| "inputs ((i, e) # todo) w =
     (case Input i e w of (w', parked) \<Rightarrow> if parked then (w', (i, e) # todo) else inputs todo w')"

section \<open>Sends\<close>

definition fan_out :: "(nat \<Rightarrow> event) \<Rightarrow> nat list \<Rightarrow> nat \<Rightarrow> 'v engine \<Rightarrow> 'v engine \<times> (nat \<times> event) list" where
  "fan_out mk nodes v w = inputs (map (\<lambda>nn. (nn, mk v)) nodes) w"

definition SendSignal :: "nat \<Rightarrow> nat \<Rightarrow> 'v engine \<Rightarrow> 'v engine \<times> (nat \<times> event) list" where
  "SendSignal i v w =
     (let n = en_nodes w ! i in
      if signals (nd_table n) = [] \<or> en_ctx w \<noteq> None \<or> \<not> nd_running n then (w, [])
      else fan_out EvSignal (signals (nd_table n)) v w)"

definition SendSignalToPort :: "nat \<Rightarrow> int \<Rightarrow> nat \<Rightarrow> 'v engine \<Rightarrow> 'v engine \<times> (nat \<times> event) list" where
  "SendSignalToPort i port v w =
     (let n = en_nodes w ! i in
      if port < 0 \<or> port \<ge> int MaxPortCount \<or> signals (nd_portTable n ! nat port) = [] \<or>
         en_ctx w \<noteq> None \<or> \<not> nd_running n then (w, [])
      else fan_out EvSignal (signals (nd_portTable n ! nat port)) v w)"

definition SendPayload :: "nat \<Rightarrow> nat \<Rightarrow> 'v engine \<Rightarrow> 'v engine \<times> (nat \<times> event) list" where
  "SendPayload i v w =
     (let n = en_nodes w ! i in
      if payloads (nd_table n) = [] \<or> en_ctx w \<noteq> None \<or> \<not> nd_running n then (w, [])
      else fan_out EvPayload (payloads (nd_table n)) v w)"

definition SendPayloadToPort :: "nat \<Rightarrow> int \<Rightarrow> nat \<Rightarrow> 'v engine \<Rightarrow> 'v engine \<times> (nat \<times> event) list" where
  "SendPayloadToPort i port v w =
     (let n = en_nodes w ! i in
      if port < 0 \<or> port \<ge> int MaxPortCount \<or> payloads (nd_portTable n ! nat port) = [] \<or>
         en_ctx w \<noteq> None \<or> \<not> nd_running n then (w, [])
      else fan_out EvPayload (payloads (nd_portTable n ! nat port)) v w)"

text \<open>Media is retained once per downstream node before the first delivery.\<close>

definition SendAudio :: "nat \<Rightarrow> nat \<Rightarrow> 'v engine \<Rightarrow> 'v engine \<times> (nat \<times> event) list" where
  "SendAudio i v w =
     (let n = en_nodes w ! i; downstreamCount = length (audios (nd_table n)) in
      if downstreamCount = 0 \<or> en_ctx w \<noteq> None \<or> \<not> nd_running n then (w, [])
      else fan_out EvAudio (audios (nd_table n)) v ((retain_ev (EvAudio v) ^^ downstreamCount) w))"

definition SendAudioToPort :: "nat \<Rightarrow> int \<Rightarrow> nat \<Rightarrow> 'v engine \<Rightarrow> 'v engine \<times> (nat \<times> event) list" where
  "SendAudioToPort i port v w =
     (let n = en_nodes w ! i in
      if port < 0 \<or> port \<ge> int MaxPortCount \<or> en_ctx w \<noteq> None \<or> \<not> nd_running n then (w, [])
      else
        let nodes = audios (nd_portTable n ! nat port); downstreamCount = length nodes in
        if downstreamCount = 0 then (w, [])
        else fan_out EvAudio nodes v ((retain_ev (EvAudio v) ^^ downstreamCount) w))"

definition SendVideo :: "nat \<Rightarrow> nat \<Rightarrow> 'v engine \<Rightarrow> 'v engine \<times> (nat \<times> event) list" where
  "SendVideo i v w =
     (let n = en_nodes w ! i; downstreamCount = length (videos (nd_table n)) in
      if downstreamCount = 0 \<or> en_ctx w \<noteq> None \<or> \<not> nd_running n then (w, [])
      else fan_out EvVideo (videos (nd_table n)) v ((retain_ev (EvVideo v) ^^ downstreamCount) w))"

definition SendVideoToPort :: "nat \<Rightarrow> int \<Rightarrow> nat \<Rightarrow> 'v engine \<Rightarrow> 'v engine \<times> (nat \<times> event) list" where
  "SendVideoToPort i port v w =
     (let n = en_nodes w ! i in
      if port < 0 \<or> port \<ge> int MaxPortCount \<or> en_ctx w \<noteq> None \<or> \<not> nd_running n then (w, [])
      else
        let nodes = videos (nd_portTable n ! nat port); downstreamCount = length nodes in
        if downstreamCount = 0 then (w, [])
        else fan_out EvVideo nodes v ((retain_ev (EvVideo v) ^^ downstreamCount) w))"

section \<open>The goroutine of a loop node\<close>

text \<open>
  One turn of \<open>readLoop\<close>: the first \<open>select\<close> (\<open>loop_outer\<close>) offers the ready ones among
  cancellation, signals and controls; when none is ready the loop moves to the second
  \<open>select\<close> (\<open>loop_inner\<close>) over all queues, evaluated when the goroutine is there. Go
  picks any ready case: the functions return all of them. A choice is what the loop does
  and the node after the receive. No choice means the goroutine waits.
\<close>

datatype loop_act = LExit | LControl controlType | LEvent event

definition take_signal :: "node \<Rightarrow> (loop_act \<times> node) list" where
  "take_signal n =
     (case recv (nd_signalChan n) of None \<Rightarrow> [] | Some (v, c) \<Rightarrow> [(LEvent (EvSignal v), n\<lparr>nd_signalChan := c\<rparr>)])"

definition take_ctrl :: "node \<Rightarrow> (loop_act \<times> node) list" where
  "take_ctrl n =
     (case recv (nd_ctrlChan n) of
        None \<Rightarrow> []
      | Some (v, c) \<Rightarrow> [(if v = controlStop then LExit else LControl v, n\<lparr>nd_ctrlChan := c\<rparr>)])"

definition take_payload :: "node \<Rightarrow> (loop_act \<times> node) list" where
  "take_payload n =
     (case recv (nd_payloadChan n) of None \<Rightarrow> [] | Some (v, c) \<Rightarrow> [(LEvent (EvPayload v), n\<lparr>nd_payloadChan := c\<rparr>)])"

definition take_audio :: "node \<Rightarrow> (loop_act \<times> node) list" where
  "take_audio n =
     (case recv (nd_audioChan n) of None \<Rightarrow> [] | Some (v, c) \<Rightarrow> [(LEvent (EvAudio v), n\<lparr>nd_audioChan := c\<rparr>)])"

definition take_video :: "node \<Rightarrow> (loop_act \<times> node) list" where
  "take_video n =
     (case recv (nd_videoChan n) of None \<Rightarrow> [] | Some (v, c) \<Rightarrow> [(LEvent (EvVideo v), n\<lparr>nd_videoChan := c\<rparr>)])"

definition ctx_done :: "ctx \<Rightarrow> node \<Rightarrow> (loop_act \<times> node) list" where
  "ctx_done c n = (if c \<noteq> None then [(LExit, n)] else [])"

definition loop_outer :: "ctx \<Rightarrow> node \<Rightarrow> (loop_act \<times> node) list" where
  "loop_outer c n =
     (if c \<noteq> None \<or> \<not> nd_running n then [(LExit, n)]
      else ctx_done c n @ take_signal n @ take_ctrl n)"

definition loop_inner :: "ctx \<Rightarrow> node \<Rightarrow> (loop_act \<times> node) list" where
  "loop_inner c n = ctx_done c n @ take_ctrl n @ take_signal n @ take_payload n @ take_audio n @ take_video n"

text \<open>
  \<open>drainChannels\<close>: receives and releases queued audio and video until both queues are
  empty. \<open>select\<close> may mix the two queues in any way; releases of different objects commute,
  so the model drains audio first.
\<close>

definition drainChannels :: "nat \<Rightarrow> 'v engine \<Rightarrow> 'v engine" where
  "drainChannels i w =
     (let n = en_nodes w ! i;
          w1 = fold (\<lambda>v. release_ev (EvAudio v)) (ch_buf (nd_audioChan n)) w;
          w2 = fold (\<lambda>v. release_ev (EvVideo v)) (ch_buf (nd_videoChan n)) w1
      in upd_node i (\<lambda>n. n\<lparr>nd_audioChan := (nd_audioChan n)\<lparr>ch_buf := []\<rparr>,
                          nd_videoChan := (nd_videoChan n)\<lparr>ch_buf := []\<rparr>\<rparr>) w2)"

text \<open>The deferred function of \<open>readLoop\<close>; \<open>OnStop\<close> is the plugin's.\<close>

definition loop_exit :: "nat \<Rightarrow> 'v engine \<Rightarrow> 'v engine" where
  "loop_exit i w = drainChannels i (upd_node i (\<lambda>n. n\<lparr>nd_running := False\<rparr>) w)"

text \<open>\<open>Start\<close>: \<open>onStart\<close> is the plugin's answer. \<open>Stop\<close>, \<open>Pause\<close> and \<open>Resume\<close> post a control.\<close>

definition node_Start :: "nat \<Rightarrow> 'x option \<Rightarrow> 'v engine \<Rightarrow> 'v engine \<times> 'x option" where
  "node_Start i onStart w =
     (case onStart of Some err \<Rightarrow> (w, Some err) | None \<Rightarrow> (upd_node i (\<lambda>n. n\<lparr>nd_running := True\<rparr>) w, None))"

definition loop_Stop :: "nat \<Rightarrow> 'v engine \<Rightarrow> 'v engine" where
  "loop_Stop i w =
     (let n = en_nodes w ! i in
      if \<not> nd_running n then w
      else upd_node i (\<lambda>n. n\<lparr>nd_running := False,
             nd_ctrlChan := (if chan_full (nd_ctrlChan n) then nd_ctrlChan n
               else (nd_ctrlChan n)\<lparr>ch_buf := ch_buf (nd_ctrlChan n) @ [controlStop]\<rparr>)\<rparr>) w)"

definition post_control :: "nat \<Rightarrow> controlType \<Rightarrow> 'v engine \<Rightarrow> 'v engine \<times> bool" where
  "post_control i ctrl w =
     (let n = en_nodes w ! i in
      if \<not> nd_running n then (w, False)
      else case SendWithContext (en_ctx w) (nd_ctrlChan n) ctrl of
             Sent c \<Rightarrow> (upd_node i (\<lambda>n. n\<lparr>nd_ctrlChan := c\<rparr>) w, False)
           | Parked \<Rightarrow> (w, True)
           | _ \<Rightarrow> (w, False))"

definition loop_Pause :: "nat \<Rightarrow> 'v engine \<Rightarrow> 'v engine \<times> bool" where
  "loop_Pause i = post_control i controlPause"

definition loop_Resume :: "nat \<Rightarrow> 'v engine \<Rightarrow> 'v engine \<times> bool" where
  "loop_Resume i = post_control i controlResume"

end
