(* ===== verification/Scheduler.thy ===== *)
theory Scheduler
  imports Node
begin

unbundle bit_operations_syntax

text \<open>
  The worker pool: the rest of \<open>internal/engine/scheduler.go\<close> and \<open>node_scheduler.go\<close>
  (submission is in \<open>Node\<close>, where \<open>Input\<close> needs it).

  A node is bound to the worker that the 32-bit FNV-1a hash of its name selects. \<open>int\<close> has
  64 bits, so the conversion of the hash is not negative.
\<close>

definition fnv32a :: "string \<Rightarrow> 32 word" where
  "fnv32a s = fold (\<lambda>c h. (h XOR of_char c) * 16777619) s 2166136261"

definition newWorker :: "nat \<Rightarrow> worker" where
  "newWorker queueSize = \<lparr>highPriorityCh = make_chan queueSize, normalPriorityCh = make_chan queueSize\<rparr>"

definition NewScheduler :: "int \<Rightarrow> int \<Rightarrow> worker list" where
  "NewScheduler workerCount queueSize =
     (let wc = (if workerCount \<le> 0 then 1 else workerCount);
          qs = (if queueSize \<le> 0 then 100 else queueSize)
      in replicate (nat wc) (newWorker (nat qs)))"

definition selector :: "worker list \<Rightarrow> string \<Rightarrow> nat" where
  "selector workers nodeName = unat (fnv32a nodeName) mod length workers"

definition newSchedulerNode :: "worker list \<Rightarrow> string \<Rightarrow> node" where
  "newSchedulerNode workers name = newBaseNode (SchedulerNode (selector workers name)) name"

definition Scheduler_Stop :: "'v engine \<Rightarrow> 'v engine" where
  "Scheduler_Stop w = w\<lparr>en_sctx := Some Canceled\<rparr>"

definition Submit :: "nat \<Rightarrow> event \<Rightarrow> 'v engine \<Rightarrow> 'v engine \<times> bool" where
  "Submit i data w = SubmitToWorker (selector (en_workers w) (nd_name (en_nodes w ! i))) i data w"

definition SubmitControlToWorker :: "nat \<Rightarrow> nat \<Rightarrow> controlType \<Rightarrow> 'v engine \<Rightarrow> 'v engine \<times> bool" where
  "SubmitControlToWorker k i ctrl w =
     (case SendWithContext (en_sctx w) (highPriorityCh (en_workers w ! k))
             \<lparr>t_node = i, t_event = None, t_control = Some ctrl\<rparr> of
        Sent c \<Rightarrow> (upd_worker k (\<lambda>wk. wk\<lparr>highPriorityCh := c\<rparr>) w, False)
      | Parked \<Rightarrow> (w, True)
      | _ \<Rightarrow> (w, False))"

definition SubmitControl :: "nat \<Rightarrow> controlType \<Rightarrow> 'v engine \<Rightarrow> 'v engine \<times> bool" where
  "SubmitControl i ctrl w = SubmitControlToWorker (selector (en_workers w) (nd_name (en_nodes w ! i))) i ctrl w"

section \<open>The worker goroutine\<close>

datatype work_act = WExit | WTask Task

definition take_high :: "worker \<Rightarrow> (work_act \<times> worker) list" where
  "take_high wk =
     (case recv (highPriorityCh wk) of None \<Rightarrow> [] | Some (t, c) \<Rightarrow> [(WTask t, wk\<lparr>highPriorityCh := c\<rparr>)])"

definition take_normal :: "worker \<Rightarrow> (work_act \<times> worker) list" where
  "take_normal wk =
     (case recv (normalPriorityCh wk) of None \<Rightarrow> [] | Some (t, c) \<Rightarrow> [(WTask t, wk\<lparr>normalPriorityCh := c\<rparr>)])"

text \<open>The two nested \<open>select\<close>s of \<open>readLoop\<close>, as for a loop node.\<close>

definition work_outer :: "ctx \<Rightarrow> worker \<Rightarrow> (work_act \<times> worker) list" where
  "work_outer c wk = (if c \<noteq> None then [(WExit, wk)] else []) @ take_high wk"

definition work_inner :: "ctx \<Rightarrow> worker \<Rightarrow> (work_act \<times> worker) list" where
  "work_inner c wk = (if c \<noteq> None then [(WExit, wk)] else []) @ take_high wk @ take_normal wk"

text \<open>What \<open>execute\<close> does with a task: a control goes to \<open>processControl\<close>, an event to
  \<open>processEvent\<close>, with a deadline for signals and payloads only.\<close>

datatype execution = ExecControl nat controlType | ExecEvent nat "event option" bool

definition execute :: "Task \<Rightarrow> execution" where
  "execute task =
     (case t_control task of
        Some c \<Rightarrow> ExecControl (t_node task) c
      | None \<Rightarrow>
          ExecEvent (t_node task) (t_event task)
            (case t_event task of Some (EvSignal _) \<Rightarrow> True | Some (EvPayload _) \<Rightarrow> True | _ \<Rightarrow> False))"

definition release_task :: "Task \<Rightarrow> 'v engine \<Rightarrow> 'v engine" where
  "release_task t w = (case t_event t of Some e \<Rightarrow> release_ev e w | None \<Rightarrow> w)"

text \<open>\<open>drain\<close>: the high queue first; as for \<open>drainChannels\<close> the order does not matter.\<close>

definition worker_drain :: "nat \<Rightarrow> 'v engine \<Rightarrow> 'v engine" where
  "worker_drain k w =
     (let wk = en_workers w ! k;
          w1 = fold release_task (ch_buf (highPriorityCh wk)) w;
          w2 = fold release_task (ch_buf (normalPriorityCh wk)) w1
      in upd_worker k (\<lambda>wk. \<lparr>highPriorityCh = (highPriorityCh wk)\<lparr>ch_buf := []\<rparr>,
                            normalPriorityCh = (normalPriorityCh wk)\<lparr>ch_buf := []\<rparr>\<rparr>) w2)"

section \<open>Scheduler nodes\<close>

definition scheduler_Stop :: "nat \<Rightarrow> 'v engine \<Rightarrow> 'v engine \<times> bool" where
  "scheduler_Stop i w = (upd_node i (\<lambda>n. n\<lparr>nd_running := False\<rparr>) w, nd_running (en_nodes w ! i))"

definition scheduler_Pause :: "nat \<Rightarrow> nat \<Rightarrow> 'v engine \<Rightarrow> 'v engine \<times> bool" where
  "scheduler_Pause k i w =
     (if \<not> nd_running (en_nodes w ! i) then (w, False) else SubmitControlToWorker k i controlPause w)"

definition scheduler_Resume :: "nat \<Rightarrow> nat \<Rightarrow> 'v engine \<Rightarrow> 'v engine \<times> bool" where
  "scheduler_Resume k i w =
     (if \<not> nd_running (en_nodes w ! i) then (w, False) else SubmitControlToWorker k i controlResume w)"

section \<open>Dispatch on the node interface\<close>

definition node_Stop :: "nat \<Rightarrow> 'v engine \<Rightarrow> 'v engine" where
  "node_Stop i w =
     (case nd_kind (en_nodes w ! i) of LoopNode \<Rightarrow> loop_Stop i w | SchedulerNode _ \<Rightarrow> fst (scheduler_Stop i w))"

definition node_Pause :: "nat \<Rightarrow> 'v engine \<Rightarrow> 'v engine \<times> bool" where
  "node_Pause i w =
     (case nd_kind (en_nodes w ! i) of LoopNode \<Rightarrow> loop_Pause i w | SchedulerNode k \<Rightarrow> scheduler_Pause k i w)"

definition node_Resume :: "nat \<Rightarrow> 'v engine \<Rightarrow> 'v engine \<times> bool" where
  "node_Resume i w =
     (case nd_kind (en_nodes w ! i) of LoopNode \<Rightarrow> loop_Resume i w | SchedulerNode k \<Rightarrow> scheduler_Resume k i w)"

text \<open>
  \<open>processEvent\<close>: the handler is the plugin's code, an arbitrary transformation of the
  engine; whether it returns or panics, the deferred function releases the event.
\<close>

definition processEvent :: "(event \<Rightarrow> bool \<Rightarrow> 'v engine \<Rightarrow> 'v engine) \<Rightarrow> event option \<Rightarrow> bool \<Rightarrow> 'v engine \<Rightarrow> 'v engine" where
  "processEvent handler value useDeadline w =
     (case value of None \<Rightarrow> w | Some e \<Rightarrow> release_ev e (handler e useDeadline w))"

text \<open>\<open>processControl\<close> calls \<open>OnPause\<close> or \<open>OnResume\<close> of the plugin; a stop is not passed on.\<close>

definition processControl :: "('v engine \<Rightarrow> 'v engine) \<Rightarrow> ('v engine \<Rightarrow> 'v engine) \<Rightarrow> controlType \<Rightarrow> 'v engine \<Rightarrow> 'v engine" where
  "processControl onPause onResume ctrl w =
     (case ctrl of controlPause \<Rightarrow> onPause w | controlResume \<Rightarrow> onResume w | controlStop \<Rightarrow> w)"

end
