(* ===== verification/Delivery.thy ===== *)
theory Delivery
  imports Scheduler
begin

text \<open>
  Ownership of media references in the runtime graph: every reference is held by someone
  (a plugin handling the event, or a caller outside) or stands in exactly one queue. The
  operations of \<open>Node\<close> and \<open>Scheduler\<close> hand references over: \<open>Input\<close> takes one reference
  from its caller, whatever it does with the event, and the node goroutine gives the one
  it dequeues to the handler.
\<close>

section \<open>The engine's media heap\<close>

fun media :: "event \<Rightarrow> bool" where
  "media (EvAudio _) = True"
| "media (EvVideo _) = True"
| "media _ = False"

definition engine_ok :: "'v engine \<Rightarrow> bool" where
  "engine_ok w \<longleftrightarrow> audio_ok (en_audio w) \<and> video_ok (en_video w)"

fun refs_of :: "'v engine \<Rightarrow> event \<Rightarrow> int" where
  "refs_of w (EvAudio i) = mh_refs a_count (en_audio w) i"
| "refs_of w (EvVideo i) = mh_refs v_count (en_video w) i"
| "refs_of w _ = 0"

fun new_ev :: "(nat option \<times> string \<times> int \<times> int) + (nat option \<times> string \<times> int \<times> int \<times> int) \<Rightarrow>
    'v engine \<Rightarrow> event \<times> 'v engine" where
  "new_ev (Inl a) w = (case audio_new a (en_audio w) of (i, h) \<Rightarrow> (EvAudio i, w\<lparr>en_audio := h\<rparr>))"
| "new_ev (Inr a) w = (case video_new a (en_video w) of (i, h) \<Rightarrow> (EvVideo i, w\<lparr>en_video := h\<rparr>))"

lemma refs_of_fun_upd:
  "refs_of (w\<lparr>en_audio := h\<rparr>) = (\<lambda>e. case e of EvAudio i \<Rightarrow> mh_refs a_count h i | _ \<Rightarrow> refs_of w e)"
  "refs_of (w\<lparr>en_video := g\<rparr>) = (\<lambda>e. case e of EvVideo i \<Rightarrow> mh_refs v_count g i | _ \<Rightarrow> refs_of w e)"
  by (auto simp: fun_eq_iff split: event.splits)

lemma refs_of_pos_media: "0 < refs_of w e \<Longrightarrow> media e"
  by (cases e) simp_all

interpretation engine_rc: refcounted engine_ok refs_of new_ev retain_ev release_ev
proof unfold_locales
  fix w w' :: "'a engine" and a e
  assume ok: "engine_ok w"
  { assume new: "new_ev a w = (e, w')"
    have "refs_of w e = 0 \<and> engine_ok w' \<and> refs_of w' = (refs_of w)(e := 1)"
    proof (cases a)
      case (Inl x)
      then obtain i h where n: "audio_new x (en_audio w) = (i, h)" "e = EvAudio i" "w' = w\<lparr>en_audio := h\<rparr>"
        using new by (auto split: prod.splits)
      then show ?thesis
        using audio_new_ok [OF _ n(1)] ok by (auto simp: engine_ok_def fun_eq_iff refs_of_fun_upd split: event.splits)
    next
      case (Inr x)
      then obtain i h where n: "video_new x (en_video w) = (i, h)" "e = EvVideo i" "w' = w\<lparr>en_video := h\<rparr>"
        using new by (auto split: prod.splits)
      then show ?thesis
        using video_new_ok [OF _ n(1)] ok by (auto simp: engine_ok_def fun_eq_iff refs_of_fun_upd split: event.splits)
    qed
    then show "refs_of w e = 0" "engine_ok w'" "refs_of w' = (refs_of w)(e := 1)" by blast+ }
  assume pos: "0 < refs_of w e"
  then have "engine_ok (retain_ev e w) \<and> refs_of (retain_ev e w) = (refs_of w)(e := refs_of w e + 1) \<and>
      engine_ok (release_ev e w) \<and> refs_of (release_ev e w) = (refs_of w)(e := refs_of w e - 1)"
    using ok Audio_Retain_ok(1,2) [of "en_audio w"] Audio_Release_ok [of "en_audio w"]
      Video_Retain_ok(1,2) [of "en_video w"] Video_Release_ok [of "en_video w"]
    by (cases e) (auto simp: engine_ok_def fun_eq_iff refs_of_fun_upd split: event.splits)
  then show "engine_ok (retain_ev e w)" "refs_of (retain_ev e w) = (refs_of w)(e := refs_of w e + 1)"
    "engine_ok (release_ev e w)" "refs_of (release_ev e w) = (refs_of w)(e := refs_of w e - 1)" by blast+
qed

section \<open>References in queues\<close>

fun node_count :: "event \<Rightarrow> node \<Rightarrow> nat" where
  "node_count (EvAudio i) n = count_list (ch_buf (nd_audioChan n)) i"
| "node_count (EvVideo i) n = count_list (ch_buf (nd_videoChan n)) i"
| "node_count _ n = 0"

definition task_count :: "event \<Rightarrow> Task chan \<Rightarrow> nat" where
  "task_count e c = (if media e then count_list (map t_event (ch_buf c)) (Some e) else 0)"

definition worker_count :: "event \<Rightarrow> worker \<Rightarrow> nat" where
  "worker_count e wk = task_count e (highPriorityCh wk) + task_count e (normalPriorityCh wk)"

definition queued :: "'v engine \<Rightarrow> event \<Rightarrow> int" where
  "queued w e = (\<Sum>n\<leftarrow>en_nodes w. int (node_count e n)) + (\<Sum>wk\<leftarrow>en_workers w. int (worker_count e wk))"

text \<open>The references of an object that are not in a queue.\<close>

definition slack :: "'v engine \<Rightarrow> event \<Rightarrow> int" where
  "slack w e = refs_of w e - queued w e"

lemma sum_list_update_int:
  "i < length xs \<Longrightarrow> (\<Sum>x\<leftarrow>xs[i := y]. (f x :: int)) = (\<Sum>x\<leftarrow>xs. f x) - f (xs ! i) + f y"
  by (induction xs arbitrary: i) (auto split: nat.splits)

lemma queued_nonneg: "0 \<le> queued w e"
  by (auto simp: queued_def intro!: add_nonneg_nonneg sum_list_nonneg)

lemma queued_upd_node:
  "i < length (en_nodes w) \<Longrightarrow> queued (upd_node i f w) e =
     queued w e - int (node_count e (en_nodes w ! i)) + int (node_count e (f (en_nodes w ! i)))"
  by (simp add: queued_def upd_node_def sum_list_update_int)

lemma queued_upd_worker:
  "k < length (en_workers w) \<Longrightarrow> queued (upd_worker k f w) e =
     queued w e - int (worker_count e (en_workers w ! k)) + int (worker_count e (f (en_workers w ! k)))"
  by (simp add: queued_def upd_worker_def sum_list_update_int)

lemma refs_of_upd [simp]:
  "refs_of (upd_node i f w) e = refs_of w e" "refs_of (upd_worker k g w) e = refs_of w e"
  by (cases e; simp add: upd_node_def upd_worker_def)+

lemma engine_ok_upd [simp]:
  "engine_ok (upd_node i f w) = engine_ok w" "engine_ok (upd_worker k g w) = engine_ok w"
  by (simp_all add: engine_ok_def upd_node_def upd_worker_def)

lemma release_ev_fields [simp]:
  "en_nodes (release_ev e w) = en_nodes w" "en_workers (release_ev e w) = en_workers w"
  "en_ctx (release_ev e w) = en_ctx w" "en_sctx (release_ev e w) = en_sctx w"
  "en_nodes (retain_ev e w) = en_nodes w" "en_workers (retain_ev e w) = en_workers w"
  "en_ctx (retain_ev e w) = en_ctx w" "en_sctx (retain_ev e w) = en_sctx w"
  by (cases e; simp)+

lemma queued_release [simp]: "queued (release_ev e w) x = queued w x" "queued (retain_ev e w) x = queued w x"
  by (simp_all add: queued_def)

lemma slack_release:
  assumes "engine_ok w" "0 < refs_of w e"
  shows "engine_ok (release_ev e w)" "slack (release_ev e w) = (slack w)(e := slack w e - 1)"
    and "engine_ok (retain_ev e w)" "slack (retain_ev e w) = (slack w)(e := slack w e + 1)"
  using engine_rc.release_ok [OF assms] engine_rc.release_refs [OF assms]
    engine_rc.retain_ok [OF assms] engine_rc.retain_refs [OF assms]
  by (auto simp: slack_def fun_eq_iff)

lemma slack_refs: "0 < slack w e \<Longrightarrow> 0 < refs_of w e"
  using queued_nonneg [of w e] by (simp add: slack_def)

lemma slack_pos_media: "0 < slack w e \<Longrightarrow> media e"
  by (rule refs_of_pos_media) (rule slack_refs)

section \<open>Input hands over one reference\<close>

definition shape :: "'v engine \<Rightarrow> (node_kind \<times> routeTable \<times> routeTable list) list \<times> nat" where
  "shape w = (map (\<lambda>n. (nd_kind n, nd_table n, nd_portTable n)) (en_nodes w), length (en_workers w))"

definition table_nodes :: "routeTable \<Rightarrow> nat set" where
  "table_nodes t = set (signals t) \<union> set (payloads t) \<union> set (audios t) \<union> set (videos t)"

text \<open>The wiring is sound: routes lead to nodes, scheduler nodes to workers.\<close>

definition wired :: "'v engine \<Rightarrow> bool" where
  "wired w \<longleftrightarrow> (case shape w of (ns, workers) \<Rightarrow>
     \<forall>(kind, t, ps)\<in>set ns. (\<forall>k. kind = SchedulerNode k \<longrightarrow> k < workers) \<and> length ps = MaxPortCount \<and>
       table_nodes t \<subseteq> {..<length ns} \<and> (\<forall>p\<in>set ps. table_nodes p \<subseteq> {..<length ns}))"

lemma wired_cong: "shape w = shape w' \<Longrightarrow> wired w = wired w'"
  by (simp add: wired_def)

lemma wiredD:
  assumes "wired w" "i < length (en_nodes w)"
  shows "nd_kind (en_nodes w ! i) = SchedulerNode k \<Longrightarrow> k < length (en_workers w)"
    and "length (nd_portTable (en_nodes w ! i)) = MaxPortCount"
    and "table_nodes (nd_table (en_nodes w ! i)) \<subseteq> {..<length (en_nodes w)}"
    and "p \<in> set (nd_portTable (en_nodes w ! i)) \<Longrightarrow> table_nodes p \<subseteq> {..<length (en_nodes w)}"
proof -
  let ?n = "en_nodes w ! i"
  have "?n \<in> set (en_nodes w)" using assms(2) by (rule nth_mem)
  with assms(1) have "(\<forall>k. nd_kind ?n = SchedulerNode k \<longrightarrow> k < length (en_workers w)) \<and> length (nd_portTable ?n) = MaxPortCount \<and>
      table_nodes (nd_table ?n) \<subseteq> {..<length (en_nodes w)} \<and> (\<forall>p\<in>set (nd_portTable ?n). table_nodes p \<subseteq> {..<length (en_nodes w)})"
    unfolding wired_def shape_def by simp
  then show "nd_kind ?n = SchedulerNode k \<Longrightarrow> k < length (en_workers w)" "length (nd_portTable ?n) = MaxPortCount"
    "table_nodes (nd_table ?n) \<subseteq> {..<length (en_nodes w)}"
    "p \<in> set (nd_portTable ?n) \<Longrightarrow> table_nodes p \<subseteq> {..<length (en_nodes w)}" by blast+
qed

lemma shape_release [simp]: "shape (release_ev e w) = shape w" "shape (retain_ev e w) = shape w"
  by (simp_all add: shape_def)

lemma shape_upd_worker [simp]: "shape (upd_worker k f w) = shape w"
  by (simp add: shape_def upd_worker_def)

lemma shape_upd_node:
  "(\<And>n. nd_kind (f n) = nd_kind n \<and> nd_table (f n) = nd_table n \<and> nd_portTable (f n) = nd_portTable n) \<Longrightarrow>
     shape (upd_node i f w) = shape w"
proof (cases "i < length (en_nodes w)")
  case True
  let ?g = "\<lambda>n. (nd_kind n, nd_table n, nd_portTable n)"
  assume "\<And>n. nd_kind (f n) = nd_kind n \<and> nd_table (f n) = nd_table n \<and> nd_portTable (f n) = nd_portTable n"
  then have "map ?g ((en_nodes w)[i := f (en_nodes w ! i)]) = (map ?g (en_nodes w))[i := map ?g (en_nodes w) ! i]"
    using True by (simp add: map_update)
  then show ?thesis by (simp add: shape_def upd_node_def)
qed (simp add: shape_def upd_node_def list_update_beyond)

lemma shape_length: "shape w = shape w' \<Longrightarrow> length (en_nodes w) = length (en_nodes w')"
  by (drule arg_cong [where f = "\<lambda>s. length (fst s)"]) (simp add: shape_def)

definition push :: "'a \<Rightarrow> 'a chan \<Rightarrow> 'a chan" where
  "push v c = c\<lparr>ch_buf := ch_buf c @ [v]\<rparr>"

lemma node_count_push:
  "node_count x (n\<lparr>nd_audioChan := push v (nd_audioChan n)\<rparr>) = node_count x n + (if x = EvAudio v then 1 else 0)"
  "node_count x (n\<lparr>nd_videoChan := push v (nd_videoChan n)\<rparr>) = node_count x n + (if x = EvVideo v then 1 else 0)"
  by (cases x; simp add: push_def)+

lemma node_count_other [simp]:
  "node_count x (n\<lparr>nd_signalChan := c\<rparr>) = node_count x n" "node_count x (n\<lparr>nd_payloadChan := c\<rparr>) = node_count x n"
  "node_count x (n\<lparr>nd_ctrlChan := d\<rparr>) = node_count x n" "node_count x (n\<lparr>nd_running := b\<rparr>) = node_count x n"
  by (cases x; simp)+

lemma worker_count_push:
  "worker_count x (wk\<lparr>highPriorityCh := push t (highPriorityCh wk)\<rparr>) =
     worker_count x wk + (if media x \<and> t_event t = Some x then 1 else 0)"
  "worker_count x (wk\<lparr>normalPriorityCh := push t (normalPriorityCh wk)\<rparr>) =
     worker_count x wk + (if media x \<and> t_event t = Some x then 1 else 0)"
  by (auto simp: worker_count_def task_count_def push_def)

text \<open>What one delivery does to the ledger: \<open>gave w w' e\<close> says one reference to \<open>e\<close> (if it is media)
  went from the caller to the engine.\<close>

definition gave :: "'v engine \<Rightarrow> 'v engine \<Rightarrow> event \<Rightarrow> bool" where
  "gave w w' e \<longleftrightarrow> engine_ok w' \<and> shape w' = shape w \<and>
     slack w' = (if media e then (slack w)(e := slack w e - 1) else slack w)"

lemma gave_release: "engine_ok w \<Longrightarrow> media e \<longrightarrow> 0 < slack w e \<Longrightarrow> gave w (release_ev e w) e"
proof (cases "media e")
  case True
  assume "engine_ok w" "media e \<longrightarrow> 0 < slack w e"
  with True slack_release [of w e] slack_refs [of w e] show ?thesis by (simp add: gave_def)
next
  case False
  assume "engine_ok w"
  moreover have "release_ev e w = w" using False by (cases e) simp_all
  ultimately show ?thesis using False by (simp add: gave_def)
qed

lemma gave_audio:
  "engine_ok w \<Longrightarrow> i < length (en_nodes w) \<Longrightarrow>
     gave w (upd_node i (\<lambda>n. n\<lparr>nd_audioChan := push v (nd_audioChan (en_nodes w ! i))\<rparr>) w) (EvAudio v)"
  by (auto simp: gave_def slack_def fun_eq_iff queued_upd_node node_count_push intro!: shape_upd_node)

lemma gave_video:
  "engine_ok w \<Longrightarrow> i < length (en_nodes w) \<Longrightarrow>
     gave w (upd_node i (\<lambda>n. n\<lparr>nd_videoChan := push v (nd_videoChan (en_nodes w ! i))\<rparr>) w) (EvVideo v)"
  by (auto simp: gave_def slack_def fun_eq_iff queued_upd_node node_count_push intro!: shape_upd_node)

lemma gave_quiet:
  assumes "engine_ok w" "\<not> media e" "i < length (en_nodes w)" "\<And>x. node_count x (f (en_nodes w ! i)) = node_count x (en_nodes w ! i)"
    and "\<And>n. nd_kind (f n) = nd_kind n \<and> nd_table (f n) = nd_table n \<and> nd_portTable (f n) = nd_portTable n"
  shows "gave w (upd_node i f w) e"
  using assms by (auto simp: gave_def slack_def fun_eq_iff queued_upd_node shape_upd_node)

lemma gave_task:
  assumes "engine_ok w" "k < length (en_workers w)"
    and "f (en_workers w ! k) = (en_workers w ! k)\<lparr>highPriorityCh := push t (highPriorityCh (en_workers w ! k))\<rparr> \<or>
         f (en_workers w ! k) = (en_workers w ! k)\<lparr>normalPriorityCh := push t (normalPriorityCh (en_workers w ! k))\<rparr>"
    and "t_event t = Some e"
  shows "gave w (upd_worker k f w) e"
  using assms by (auto simp: gave_def slack_def fun_eq_iff queued_upd_worker worker_count_push)

lemma gave_refl: "engine_ok w \<Longrightarrow> \<not> media e \<Longrightarrow> gave w w e"
  by (simp add: gave_def)

lemmas sends = SendWithContext_def SendWithNonBlocking_def push_def [symmetric]

lemma SubmitToWorker_gave:
  assumes ok: "engine_ok w" "k < length (en_workers w)" and e: "media e \<longrightarrow> 0 < slack w e"
    and s: "SubmitToWorker k i e w = (w', p)"
  shows "gave w w' e \<or> (p \<and> \<not> media e \<and> w' = w)" and "media e \<Longrightarrow> \<not> p"
proof -
  note task = gave_task [OF ok]
  have "(gave w w' e \<or> (p \<and> \<not> media e \<and> w' = w)) \<and> (media e \<longrightarrow> \<not> p)"
  proof (cases e)
    case (EvSignal v)
    then show ?thesis using s ok
      by (auto simp: SubmitToWorker_def sends Let_def split: option.splits if_splits intro!: task gave_refl)
  next
    case (EvPayload v)
    then show ?thesis using s ok
      by (auto simp: SubmitToWorker_def sends Let_def split: option.splits if_splits intro!: task gave_refl)
  next
    case (EvAudio v)
    then show ?thesis using s ok e
      by (auto simp: SubmitToWorker_def sends Let_def simp del: release_ev.simps
          split: option.splits if_splits intro!: task gave_release)
  next
    case (EvVideo v)
    then show ?thesis using s ok e
      by (auto simp: SubmitToWorker_def sends Let_def simp del: release_ev.simps
          split: option.splits if_splits intro!: task gave_release)
  qed
  then show "gave w w' e \<or> (p \<and> \<not> media e \<and> w' = w)" "media e \<Longrightarrow> \<not> p" by blast+
qed

lemma loop_Input_gave:
  assumes ok: "engine_ok w" "i < length (en_nodes w)" and e: "media e \<longrightarrow> 0 < slack w e"
    and s: "loop_Input i e w = (w', p)"
  shows "gave w w' e \<or> (p \<and> \<not> media e \<and> w' = w)" and "media e \<Longrightarrow> \<not> p"
proof -
  have "(gave w w' e \<or> (p \<and> \<not> media e \<and> w' = w)) \<and> (media e \<longrightarrow> \<not> p)"
  proof (cases "en_ctx w \<noteq> None \<or> \<not> nd_running (en_nodes w ! i)")
    case True
    then show ?thesis using s gave_release [OF ok(1) e] by (auto simp: loop_Input_def)
  next
    case False
    show ?thesis
    proof (cases e)
      case (EvSignal v)
      then show ?thesis using s ok False
        by (auto simp: loop_Input_def sends Let_def split: option.splits if_splits intro!: gave_quiet gave_refl)
    next
      case (EvPayload v)
      then show ?thesis using s ok False
        by (auto simp: loop_Input_def sends Let_def split: option.splits if_splits intro!: gave_quiet gave_refl)
    next
      case (EvAudio v)
      then show ?thesis using s ok e False
        by (auto simp: loop_Input_def sends Let_def simp del: release_ev.simps
            split: option.splits if_splits intro!: gave_audio gave_release)
    next
      case (EvVideo v)
      then show ?thesis using s ok e False
        by (auto simp: loop_Input_def sends Let_def simp del: release_ev.simps
            split: option.splits if_splits intro!: gave_video gave_release)
    qed
  qed
  then show "gave w w' e \<or> (p \<and> \<not> media e \<and> w' = w)" "media e \<Longrightarrow> \<not> p" by blast+
qed

lemma Input_gave:
  assumes ok: "engine_ok w" "wired w" "i < length (en_nodes w)" and e: "media e \<longrightarrow> 0 < slack w e"
    and s: "Input i e w = (w', p)"
  shows "gave w w' e \<or> (p \<and> \<not> media e \<and> w' = w)" and "media e \<Longrightarrow> \<not> p"
proof -
  have "(gave w w' e \<or> (p \<and> \<not> media e \<and> w' = w)) \<and> (media e \<longrightarrow> \<not> p)"
  proof (cases "nd_kind (en_nodes w ! i)")
    case LoopNode
    with loop_Input_gave [OF ok(1,3) e] s show ?thesis by (auto simp: Input_def)
  next
    case (SchedulerNode k)
    have k: "k < length (en_workers w)" using wiredD(1) [OF ok(2,3) SchedulerNode] .
    from SchedulerNode s SubmitToWorker_gave [OF ok(1) k e, of i w' p] gave_release [OF ok(1) e] show ?thesis
      by (auto simp: Input_def scheduler_Input_def split: if_splits)
  qed
  then show "gave w w' e \<or> (p \<and> \<not> media e \<and> w' = w)" "media e \<Longrightarrow> \<not> p" by blast+
qed

section \<open>Sends and drains keep the balance\<close>

definition keeps :: "'v engine \<Rightarrow> 'v engine \<Rightarrow> bool" where
  "keeps w w' \<longleftrightarrow> engine_ok w' \<and> shape w' = shape w \<and> slack w' = slack w"

lemma keeps_refl: "engine_ok w \<Longrightarrow> keeps w w"
  by (simp add: keeps_def)

lemma keeps_trans: "keeps w w' \<Longrightarrow> keeps w' w'' \<Longrightarrow> keeps w w''"
  by (simp add: keeps_def)

lemma gave_keeps: "gave w w' e \<Longrightarrow> \<not> media e \<Longrightarrow> keeps w w'"
  by (simp add: gave_def keeps_def)

lemma retain_n:
  assumes "engine_ok w" "0 < refs_of w e"
  shows "engine_ok ((retain_ev e ^^ n) w)" "shape ((retain_ev e ^^ n) w) = shape w"
    and "slack ((retain_ev e ^^ n) w) = (slack w)(e := slack w e + int n)"
proof -
  have q: "queued ((retain_ev e ^^ n) w) x = queued w x" for x by (induction n) simp_all
  show "shape ((retain_ev e ^^ n) w) = shape w" by (induction n) simp_all
  show "engine_ok ((retain_ev e ^^ n) w)" using engine_rc.retain_many [OF assms] by blast
  show "slack ((retain_ev e ^^ n) w) = (slack w)(e := slack w e + int n)"
    using engine_rc.retain_many [OF assms, of n] by (auto simp: slack_def q fun_eq_iff)
qed

lemma inputs_media:
  assumes "engine_ok w" "wired w" "set nodes \<subseteq> {..<length (en_nodes w)}" "int (length nodes) \<le> slack w e" "media e"
  shows "\<exists>w'. inputs (map (\<lambda>n. (n, e)) nodes) w = (w', []) \<and> engine_ok w' \<and> shape w' = shape w \<and>
    slack w' = (slack w)(e := slack w e - int (length nodes))"
  using assms
proof (induction nodes arbitrary: w)
  case (Cons n nodes)
  obtain w1 p where i: "Input n e w = (w1, p)" by (cases "Input n e w")
  have n: "n < length (en_nodes w)" "media e \<longrightarrow> 0 < slack w e" using Cons.prems by auto
  from Input_gave [OF Cons.prems(1,2) n i] Cons.prems(5)
  have g: "\<not> p" "engine_ok w1" "shape w1 = shape w" "slack w1 = (slack w)(e := slack w e - 1)"
    by (auto simp: gave_def)
  have "\<exists>w'. inputs (map (\<lambda>n. (n, e)) nodes) w1 = (w', []) \<and> engine_ok w' \<and> shape w' = shape w1 \<and>
      slack w' = (slack w1)(e := slack w1 e - int (length nodes))"
    using Cons.prems g wired_cong [OF g(3)] shape_length [OF g(3)] by (intro Cons.IH) auto
  then show ?case using g i by (auto simp: fun_eq_iff)
qed simp

lemma inputs_quiet:
  assumes "engine_ok w" "wired w" "\<And>n e. (n, e) \<in> set todo \<Longrightarrow> n < length (en_nodes w) \<and> \<not> media e"
    and "inputs todo w = (w', rest)"
  shows "keeps w w'"
  using assms
proof (induction todo arbitrary: w)
  case Nil
  then show ?case by (simp add: keeps_refl)
next
  case (Cons t todo)
  obtain n e where t: "t = (n, e)" by (cases t)
  obtain w1 p where i: "Input n e w = (w1, p)" by (cases "Input n e w")
  have ne: "n < length (en_nodes w)" "\<not> media e" using Cons.prems(3) t by auto
  have k: "keeps w w1"
    using Input_gave(1) [OF Cons.prems(1,2) ne(1) _ i] ne(2) gave_keeps keeps_refl [OF Cons.prems(1)] by blast
  show ?case
  proof (cases p)
    case True
    then show ?thesis using Cons.prems(4) t i k by simp
  next
    case False
    have w1: "engine_ok w1" "shape w1 = shape w" using k by (simp_all add: keeps_def)
    have "keeps w1 w'"
      using Cons.prems t i False wired_cong [OF w1(2)] shape_length [OF w1(2)]
      by (intro Cons.IH [OF w1(1)]) auto
    with k show ?thesis by (rule keeps_trans)
  qed
qed

fun flow_send :: "nat \<Rightarrow> event \<Rightarrow> 'v engine \<Rightarrow> 'v engine \<times> (nat \<times> event) list" where
  "flow_send i (EvSignal v) w = SendSignal i v w"
| "flow_send i (EvPayload v) w = SendPayload i v w"
| "flow_send i (EvAudio v) w = SendAudio i v w"
| "flow_send i (EvVideo v) w = SendVideo i v w"

fun flow_send_port :: "nat \<Rightarrow> int \<Rightarrow> event \<Rightarrow> 'v engine \<Rightarrow> 'v engine \<times> (nat \<times> event) list" where
  "flow_send_port i p (EvSignal v) w = SendSignalToPort i p v w"
| "flow_send_port i p (EvPayload v) w = SendPayloadToPort i p v w"
| "flow_send_port i p (EvAudio v) w = SendAudioToPort i p v w"
| "flow_send_port i p (EvVideo v) w = SendVideoToPort i p v w"

lemma fan_out_quiet:
  assumes "engine_ok w" "wired w" "set nodes \<subseteq> {..<length (en_nodes w)}" "\<not> media (mk v)" "fan_out mk nodes v w = (w', rest)"
  shows "keeps w w'"
  using assms(3-5) by (intro inputs_quiet [OF assms(1,2)]) (auto simp: fan_out_def)

lemma fan_out_media:
  assumes "engine_ok w" "wired w" "set nodes \<subseteq> {..<length (en_nodes w)}" "media (mk v)" "0 < slack w (mk v)"
    and "fan_out mk nodes v ((retain_ev (mk v) ^^ length nodes) w) = (w', rest)"
  shows "keeps w w' \<and> rest = []"
proof -
  note r = retain_n [OF assms(1) slack_refs [OF assms(5)], of "length nodes"]
  have "\<exists>w1. inputs (map (\<lambda>n. (n, mk v)) nodes) ((retain_ev (mk v) ^^ length nodes) w) = (w1, []) \<and> engine_ok w1 \<and>
      shape w1 = shape ((retain_ev (mk v) ^^ length nodes) w) \<and>
      slack w1 = (slack ((retain_ev (mk v) ^^ length nodes) w))
        (mk v := slack ((retain_ev (mk v) ^^ length nodes) w) (mk v) - int (length nodes))"
    using assms(2-5) wired_cong [OF r(2)] shape_length [OF r(2)] by (intro inputs_media r(1)) (auto simp: r(3))
  then show ?thesis using assms(6) r by (auto simp: fan_out_def keeps_def)
qed

lemma flow_send_keeps:
  assumes ok: "engine_ok w" "wired w" "i < length (en_nodes w)" and e: "media e \<longrightarrow> 0 < slack w e"
    and s: "flow_send i e w = (w', rest)"
  shows "keeps w w'" and "media e \<Longrightarrow> rest = []"
proof -
  have sub: "set (signals t) \<subseteq> {..<length (en_nodes w)}" "set (payloads t) \<subseteq> {..<length (en_nodes w)}"
      "set (audios t) \<subseteq> {..<length (en_nodes w)}" "set (videos t) \<subseteq> {..<length (en_nodes w)}"
    if "t = nd_table (en_nodes w ! i)" for t
    using wiredD(3) [OF ok(2,3)] that by (auto simp: table_nodes_def)
  have "keeps w w' \<and> (media e \<longrightarrow> rest = [])"
    using s e ok fan_out_quiet [where mk = EvSignal, OF ok(1,2) sub(1) [OF refl]]
      fan_out_quiet [where mk = EvPayload, OF ok(1,2) sub(2) [OF refl]]
      fan_out_media [where mk = EvAudio, OF ok(1,2) sub(3) [OF refl]]
      fan_out_media [where mk = EvVideo, OF ok(1,2) sub(4) [OF refl]]
    by (cases e) (auto simp: SendSignal_def SendPayload_def SendAudio_def SendVideo_def Let_def keeps_refl
        simp del: retain_ev.simps split: if_splits)
  then show "keeps w w'" "media e \<Longrightarrow> rest = []" by blast+
qed

lemma flow_send_port_keeps:
  assumes ok: "engine_ok w" "wired w" "i < length (en_nodes w)" and e: "media e \<longrightarrow> 0 < slack w e"
    and s: "flow_send_port i p e w = (w', rest)"
  shows "keeps w w'" and "media e \<Longrightarrow> rest = []"
proof -
  define t where "t = nd_portTable (en_nodes w ! i) ! nat p"
  have sub: "set (signals t) \<subseteq> {..<length (en_nodes w)}" "set (payloads t) \<subseteq> {..<length (en_nodes w)}"
      "set (audios t) \<subseteq> {..<length (en_nodes w)}" "set (videos t) \<subseteq> {..<length (en_nodes w)}"
    if "0 \<le> p" "p < int MaxPortCount"
  proof -
    have "t \<in> set (nd_portTable (en_nodes w ! i))" using that wiredD(2) [OF ok(2,3)] by (simp add: t_def)
    from wiredD(4) [OF ok(2,3) this]
    show "set (signals t) \<subseteq> {..<length (en_nodes w)}" "set (payloads t) \<subseteq> {..<length (en_nodes w)}"
      "set (audios t) \<subseteq> {..<length (en_nodes w)}" "set (videos t) \<subseteq> {..<length (en_nodes w)}" by (auto simp: table_nodes_def)
  qed
  have "keeps w w' \<and> (media e \<longrightarrow> rest = [])"
    using s e ok fan_out_quiet [where mk = EvSignal, OF ok(1,2) sub(1)]
      fan_out_quiet [where mk = EvPayload, OF ok(1,2) sub(2)]
      fan_out_media [where mk = EvAudio, OF ok(1,2) sub(3)] fan_out_media [where mk = EvVideo, OF ok(1,2) sub(4)]
    by (cases e) (auto simp: SendSignalToPort_def SendPayloadToPort_def SendAudioToPort_def SendVideoToPort_def Let_def
        keeps_refl t_def [symmetric] simp del: retain_ev.simps split: if_splits)
  then show "keeps w w'" "media e \<Longrightarrow> rest = []" by blast+
qed

section \<open>Draining releases what was queued\<close>

lemma fold_release:
  assumes "engine_ok w" "\<And>e. media e \<Longrightarrow> int (count_list es e) \<le> refs_of w e"
  shows "engine_ok (fold release_ev es w)"
    and "slack (fold release_ev es w) x = slack w x - (if media x then int (count_list es x) else 0)"
    and "en_nodes (fold release_ev es w) = en_nodes w" "en_workers (fold release_ev es w) = en_workers w"
proof -
  have "engine_ok (fold release_ev es w) \<and>
      (\<forall>x. slack (fold release_ev es w) x = slack w x - (if media x then int (count_list es x) else 0)) \<and>
      en_nodes (fold release_ev es w) = en_nodes w \<and> en_workers (fold release_ev es w) = en_workers w"
    using assms
  proof (induction es arbitrary: w)
    case (Cons e es)
    show ?case
    proof (cases "media e")
      case True
      then have pos: "0 < refs_of w e" using Cons.prems(2) [of e] by simp
      have "refs_of (release_ev e w) = (refs_of w)(e := refs_of w e - 1)"
        by (rule engine_rc.release_refs [OF Cons.prems(1) pos])
      then have "int (count_list es x) \<le> refs_of (release_ev e w) x" if "media x" for x
        using Cons.prems(2) [OF that] by (auto split: if_splits)
      from Cons.IH [OF slack_release(1) [OF Cons.prems(1) pos] this] show ?thesis
        using slack_release(2) [OF Cons.prems(1) pos] True by auto
    next
      case False
      then have "release_ev e w = w" by (cases e) simp_all
      moreover have "int (count_list es x) \<le> refs_of w x" if "media x" for x
        using Cons.prems(2) [OF that] False that by (auto split: if_splits)
      ultimately show ?thesis using Cons.IH [OF Cons.prems(1)] False by auto
    qed
  qed simp
  then show "engine_ok (fold release_ev es w)"
    "slack (fold release_ev es w) x = slack w x - (if media x then int (count_list es x) else 0)"
    "en_nodes (fold release_ev es w) = en_nodes w" "en_workers (fold release_ev es w) = en_workers w" by blast+
qed

definition node_media :: "node \<Rightarrow> event list" where
  "node_media n = map EvAudio (ch_buf (nd_audioChan n)) @ map EvVideo (ch_buf (nd_videoChan n))"

lemma count_list_inj: "inj f \<Longrightarrow> count_list (map f xs) (f x) = count_list xs x"
  by (induction xs) (auto dest: injD)

lemma node_media_count: "media e \<Longrightarrow> count_list (node_media n) e = node_count e n"
  by (cases e) (auto simp: node_media_def count_list_inj inj_def count_list_0_iff)

lemma drainChannels_eq:
  "drainChannels i w = upd_node i (\<lambda>n. n\<lparr>nd_audioChan := (nd_audioChan n)\<lparr>ch_buf := []\<rparr>,
     nd_videoChan := (nd_videoChan n)\<lparr>ch_buf := []\<rparr>\<rparr>) (fold release_ev (node_media (en_nodes w ! i)) w)"
  by (simp add: drainChannels_def node_media_def fold_map comp_def Let_def)

lemma sum_list_int_nonneg: "0 \<le> (\<Sum>x\<leftarrow>xs. int (f x))"
  by (induction xs) auto

lemma nth_le_sum_list: "i < length xs \<Longrightarrow> int (f (xs ! i)) \<le> (\<Sum>x\<leftarrow>xs. int (f x))"
proof (induction xs arbitrary: i)
  case (Cons x xs)
  then show ?case using sum_list_int_nonneg [of f xs] by (cases i) force+
qed simp

lemma node_count_le_queued: "i < length (en_nodes w) \<Longrightarrow> int (node_count e (en_nodes w ! i)) \<le> queued w e"
  using nth_le_sum_list [of i "en_nodes w" "node_count e"] sum_list_int_nonneg [of "worker_count e" "en_workers w"]
  by (simp add: queued_def)

lemma worker_count_le_queued: "k < length (en_workers w) \<Longrightarrow> int (worker_count e (en_workers w ! k)) \<le> queued w e"
  using nth_le_sum_list [of k "en_workers w" "worker_count e"] sum_list_int_nonneg [of "node_count e" "en_nodes w"]
  by (simp add: queued_def)

lemma drain_keeps:
  assumes ok: "engine_ok w" and nn: "\<And>e. 0 \<le> slack w e" and i: "i < length (en_nodes w)"
  shows "keeps w (drainChannels i w)"
proof -
  let ?es = "node_media (en_nodes w ! i)"
  have le: "int (count_list ?es e) \<le> refs_of w e" if "media e" for e
    using node_count_le_queued [OF i, of e] nn [of e] by (simp add: node_media_count [OF that] slack_def)
  note r = fold_release [OF ok le]
  let ?f = "\<lambda>n. n\<lparr>nd_audioChan := (nd_audioChan n)\<lparr>ch_buf := []\<rparr>, nd_videoChan := (nd_videoChan n)\<lparr>ch_buf := []\<rparr>\<rparr>"
  have zero: "node_count e (?f n) = 0" for e n by (cases e) simp_all
  have "slack (drainChannels i w) e = slack w e" for e
    using r(2) [of e] r(3) i node_media_count [of e "en_nodes w ! i"]
    by (cases "media e") (simp_all add: drainChannels_eq slack_def queued_upd_node zero, cases e, simp_all)
  moreover have "shape (fold release_ev ?es w) = shape w" by (simp add: shape_def r(3,4))
  ultimately show ?thesis
    using r(1) by (auto simp: keeps_def drainChannels_eq shape_upd_node)
qed

definition worker_media :: "worker \<Rightarrow> event list" where
  "worker_media wk = List.map_filter t_event (ch_buf (highPriorityCh wk) @ ch_buf (normalPriorityCh wk))"

lemma count_map_filter: "count_list (List.map_filter g xs) y = count_list (map g xs) (Some y)"
  by (induction xs) (auto simp: map_filter_simps split: option.splits)

lemma worker_media_count: "media e \<Longrightarrow> count_list (worker_media wk) e = worker_count e wk"
  by (simp add: worker_media_def worker_count_def task_count_def count_map_filter)

lemma fold_release_task: "fold release_task ts w = fold release_ev (List.map_filter t_event ts) w"
  by (induction ts arbitrary: w) (auto simp: map_filter_simps release_task_def split: option.splits)

lemma worker_drain_eq:
  "worker_drain k w = upd_worker k (\<lambda>wk. \<lparr>highPriorityCh = (highPriorityCh wk)\<lparr>ch_buf := []\<rparr>,
     normalPriorityCh = (normalPriorityCh wk)\<lparr>ch_buf := []\<rparr>\<rparr>) (fold release_ev (worker_media (en_workers w ! k)) w)"
proof -
  have "fold release_task (ch_buf (normalPriorityCh wk)) (fold release_task (ch_buf (highPriorityCh wk)) w) =
      fold release_ev (worker_media wk) w" for wk
    unfolding worker_media_def fold_release_task [symmetric] by simp
  then show ?thesis by (simp add: worker_drain_def Let_def)
qed

lemma worker_drain_keeps:
  assumes ok: "engine_ok w" and nn: "\<And>e. 0 \<le> slack w e" and k: "k < length (en_workers w)"
  shows "keeps w (worker_drain k w)"
proof -
  let ?es = "worker_media (en_workers w ! k)"
  have le: "int (count_list ?es e) \<le> refs_of w e" if "media e" for e
    using worker_count_le_queued [OF k, of e] nn [of e] by (simp add: worker_media_count [OF that] slack_def)
  note r = fold_release [OF ok le]
  let ?f = "\<lambda>wk. \<lparr>highPriorityCh = (highPriorityCh wk)\<lparr>ch_buf := []\<rparr>, normalPriorityCh = (normalPriorityCh wk)\<lparr>ch_buf := []\<rparr>\<rparr>"
  have zero: "worker_count e (?f wk) = 0" for e wk by (simp add: worker_count_def task_count_def)
  have quiet: "worker_count e wk = 0" if "\<not> media e" for e wk using that by (simp add: worker_count_def task_count_def)
  have "slack (worker_drain k w) e = slack w e" for e
    using r(2) [of e] r(4) k worker_media_count [of e "en_workers w ! k"] quiet [of e]
    by (cases "media e") (simp_all add: worker_drain_eq slack_def queued_upd_worker zero)
  moreover have "shape (fold release_ev ?es w) = shape w" by (simp add: shape_def r(3,4))
  ultimately show ?thesis using r(1) by (auto simp: keeps_def worker_drain_eq)
qed

section \<open>Turns of the goroutines\<close>

text \<open>\<open>took w w' e\<close>: one reference to \<open>e\<close> (if it is media) went from a queue to a handler.\<close>

definition took :: "'v engine \<Rightarrow> 'v engine \<Rightarrow> event \<Rightarrow> bool" where
  "took w w' e \<longleftrightarrow> engine_ok w' \<and> shape w' = shape w \<and>
     slack w' = (if media e then (slack w)(e := slack w e + 1) else slack w)"

lemma recv_count: "recv c = Some (v, c') \<Longrightarrow> count_list (ch_buf c) x = count_list (ch_buf c') x + (if x = v then 1 else 0)"
  by (auto simp: recv_def split: list.splits)

lemma loop_choice:
  assumes "(act, n') \<in> set (loop_outer c n) \<union> set (loop_inner c n)"
  shows "nd_kind n' = nd_kind n \<and> nd_table n' = nd_table n \<and> nd_portTable n' = nd_portTable n \<and>
    node_count x n = node_count x n' + (case act of LEvent e \<Rightarrow> if x = e \<and> media e then 1 else 0 | _ \<Rightarrow> 0)"
  using assms
  by (cases x)
     (auto simp: loop_outer_def loop_inner_def ctx_done_def take_signal_def take_ctrl_def take_payload_def take_audio_def
        take_video_def recv_count split: option.splits if_splits loop_act.splits)

lemma work_choice:
  assumes "(act, wk') \<in> set (work_outer c wk) \<union> set (work_inner c wk)"
  shows "worker_count x wk = worker_count x wk' + (case act of WTask t \<Rightarrow> if t_event t = Some x \<and> media x then 1 else 0 | _ \<Rightarrow> 0)"
proof -
  have rc: "task_count x q = task_count x q' + (if t_event t = Some x \<and> media x then 1 else 0)"
    if "recv q = Some (t, q')" for q q' t
    using that by (auto simp: recv_def task_count_def split: list.splits)
  show ?thesis
    using assms
    by (auto simp: work_outer_def work_inner_def take_high_def take_normal_def worker_count_def rc rc [OF sym]
        split: option.splits if_splits work_act.splits)
qed

lemma upd_node_const: "upd_node i (\<lambda>_. n') w = w\<lparr>en_nodes := (en_nodes w)[i := n']\<rparr>"
  by (simp add: upd_node_def)

lemma loop_turn:
  assumes ok: "engine_ok w" and i: "i < length (en_nodes w)"
    and ch: "(act, n') \<in> set (loop_outer c (en_nodes w ! i)) \<union> set (loop_inner c (en_nodes w ! i))"
  shows "act = LEvent e \<Longrightarrow> took w (upd_node i (\<lambda>_. n') w) e"
    and "(\<And>e. act \<noteq> LEvent e) \<Longrightarrow> keeps w (upd_node i (\<lambda>_. n') w)"
proof -
  note lc = loop_choice [OF ch]
  let ?g = "\<lambda>n. (nd_kind n, nd_table n, nd_portTable n)"
  have "map ?g ((en_nodes w)[i := n']) = (map ?g (en_nodes w))[i := map ?g (en_nodes w) ! i]"
    using lc i by (simp add: map_update)
  then have sh: "shape (upd_node i (\<lambda>_. n') w) = shape w" by (simp add: shape_def upd_node_def)
  show "took w (upd_node i (\<lambda>_. n') w) e" if "act = LEvent e"
    using that lc sh ok i by (auto simp: took_def slack_def fun_eq_iff queued_upd_node)
  show "keeps w (upd_node i (\<lambda>_. n') w)" if "\<And>e. act \<noteq> LEvent e"
    using that lc sh ok i by (cases act) (auto simp: keeps_def slack_def fun_eq_iff queued_upd_node)
qed

lemma work_turn:
  assumes ok: "engine_ok w" and k: "k < length (en_workers w)"
    and ch: "(act, wk') \<in> set (work_outer c (en_workers w ! k)) \<union> set (work_inner c (en_workers w ! k))"
  shows "act = WTask t \<Longrightarrow> t_event t = Some e \<Longrightarrow> took w (upd_worker k (\<lambda>_. wk') w) e"
    and "act = WExit \<or> (act = WTask t \<and> t_event t = None) \<Longrightarrow> keeps w (upd_worker k (\<lambda>_. wk') w)"
  using work_choice [OF ch] ok k
  by (auto simp: took_def keeps_def slack_def fun_eq_iff queued_upd_worker)

section \<open>Every interleaving of plugins, callers and goroutines\<close>

text \<open>
  The atomic steps of the running engine. \<open>held e\<close> counts the references to \<open>e\<close> that plugins
  and outside callers own. An owner may allocate, retain and release, send through a node it
  runs in, or pass an event to a node; it only does so with media it owns (the guard). A turn
  of a node goroutine or worker takes the \<open>k\<close>-th ready choice and gives a dequeued event to
  the handler; the release that \<open>processEvent\<close> defers is the handler's \<open>ORelease\<close>.
\<close>

datatype engine_op =
    ONew "(nat option \<times> string \<times> int \<times> int) + (nat option \<times> string \<times> int \<times> int \<times> int)"
  | ORetain event
  | ORelease event
  | OSend nat event
  | OSendPort nat int event
  | OInput nat event
  | OTurn nat bool nat
  | OWork nat bool nat
  | OStart nat
  | OStop nat
  | OPause nat
  | OResume nat
  | OCancel
  | OSchedulerStop

definition gain :: "event \<Rightarrow> (event \<Rightarrow> nat) \<Rightarrow> event \<Rightarrow> nat" where
  "gain e held = (if media e then held(e := Suc (held e)) else held)"

definition spend :: "event \<Rightarrow> (event \<Rightarrow> nat) \<Rightarrow> event \<Rightarrow> nat" where
  "spend e held = (if media e then held(e := held e - 1) else held)"

definition owns :: "(event \<Rightarrow> nat) \<Rightarrow> event \<Rightarrow> bool" where
  "owns held e \<longleftrightarrow> \<not> media e \<or> 0 < held e"

fun loop_effect :: "nat \<Rightarrow> loop_act \<Rightarrow> 'v engine \<Rightarrow> (event \<Rightarrow> nat) \<Rightarrow> 'v engine \<times> (event \<Rightarrow> nat)" where
  "loop_effect i LExit w held = (loop_exit i w, held)"
| "loop_effect i (LControl _) w held = (w, held)"
| "loop_effect i (LEvent e) w held = (w, gain e held)"

fun work_effect :: "nat \<Rightarrow> work_act \<Rightarrow> 'v engine \<Rightarrow> (event \<Rightarrow> nat) \<Rightarrow> 'v engine \<times> (event \<Rightarrow> nat)" where
  "work_effect k WExit w held = (worker_drain k w, held)"
| "work_effect k (WTask t) w held = (w, case t_event t of Some e \<Rightarrow> gain e held | None \<Rightarrow> held)"

fun engine_step :: "engine_op \<Rightarrow> 'v engine \<times> (event \<Rightarrow> nat) \<Rightarrow> 'v engine \<times> (event \<Rightarrow> nat)" where
  "engine_step (ONew a) (w, held) = (case new_ev a w of (e, w') \<Rightarrow> (w', gain e held))"
| "engine_step (ORetain e) (w, held) = (if owns held e then (retain_ev e w, gain e held) else (w, held))"
| "engine_step (ORelease e) (w, held) = (if owns held e then (release_ev e w, spend e held) else (w, held))"
| "engine_step (OSend i e) (w, held) =
     (if owns held e \<and> i < length (en_nodes w) then (fst (flow_send i e w), held) else (w, held))"
| "engine_step (OSendPort i p e) (w, held) =
     (if owns held e \<and> i < length (en_nodes w) then (fst (flow_send_port i p e w), held) else (w, held))"
| "engine_step (OInput i e) (w, held) =
     (if owns held e \<and> i < length (en_nodes w) then (fst (Input i e w), spend e held) else (w, held))"
| "engine_step (OTurn i inner k) (w, held) =
     (let choices = (if inner then loop_inner else loop_outer) (en_ctx w) (en_nodes w ! i) in
      if i < length (en_nodes w) \<and> k < length choices
      then case choices ! k of (act, n') \<Rightarrow> loop_effect i act (upd_node i (\<lambda>_. n') w) held
      else (w, held))"
| "engine_step (OWork j inner k) (w, held) =
     (let choices = (if inner then work_inner else work_outer) (en_sctx w) (en_workers w ! j) in
      if j < length (en_workers w) \<and> k < length choices
      then case choices ! k of (act, wk') \<Rightarrow> work_effect j act (upd_worker j (\<lambda>_. wk') w) held
      else (w, held))"
| "engine_step (OStart i) (w, held) = (if i < length (en_nodes w) then fst (node_Start i (None :: unit option) w) else w, held)"
| "engine_step (OStop i) (w, held) = (if i < length (en_nodes w) then node_Stop i w else w, held)"
| "engine_step (OPause i) (w, held) = (if i < length (en_nodes w) then fst (node_Pause i w) else w, held)"
| "engine_step (OResume i) (w, held) = (if i < length (en_nodes w) then fst (node_Resume i w) else w, held)"
| "engine_step OCancel (w, held) = (w\<lparr>en_ctx := Some Canceled, en_sctx := Some Canceled\<rparr>, held)"
| "engine_step OSchedulerStop (w, held) = (Scheduler_Stop w, held)"

definition ledger_ok :: "'v engine \<times> (event \<Rightarrow> nat) \<Rightarrow> bool" where
  "ledger_ok s \<longleftrightarrow> engine_ok (fst s) \<and> wired (fst s) \<and> (\<forall>e. slack (fst s) e = (if media e then int (snd s e) else 0))"

lemma ledger_okI:
  "engine_ok w \<Longrightarrow> wired w \<Longrightarrow> (\<And>e. slack w e = (if media e then int (held e) else 0)) \<Longrightarrow> ledger_ok (w, held)"
  by (simp add: ledger_ok_def)

lemma ledger_keeps: "ledger_ok (w, held) \<Longrightarrow> keeps w w' \<Longrightarrow> ledger_ok (w', held)"
  using wired_cong [of w' w] by (simp add: ledger_ok_def keeps_def)

lemma ledger_took: "ledger_ok (w, held) \<Longrightarrow> took w w' e \<Longrightarrow> ledger_ok (w', gain e held)"
  using wired_cong [of w' w] by (auto simp: ledger_ok_def took_def gain_def)

lemma ledger_gave: "ledger_ok (w, held) \<Longrightarrow> owns held e \<Longrightarrow> gave w w' e \<Longrightarrow> ledger_ok (w', spend e held)"
  using wired_cong [of w' w] by (auto simp: ledger_ok_def gave_def spend_def owns_def of_nat_diff)

lemma slack_quiet: "\<not> media e \<Longrightarrow> slack w e = 0"
proof -
  assume e: "\<not> media e"
  then have "node_count e n = 0" for n by (cases e) simp_all
  moreover have "worker_count e wk = 0" for wk using e by (simp add: worker_count_def task_count_def)
  moreover have "refs_of w e = 0" using e by (cases e) simp_all
  ultimately show ?thesis by (simp add: slack_def queued_def)
qed

lemma ledgerD:
  assumes "ledger_ok (w, held)"
  shows "engine_ok w" "wired w" "0 \<le> slack w e" "owns held e \<Longrightarrow> media e \<longrightarrow> 0 < slack w e"
  using assms by (auto simp: ledger_ok_def owns_def)

lemma upd_node_quiet:
  assumes "engine_ok w" "i < length (en_nodes w)"
    and "\<And>x. node_count x (f (en_nodes w ! i)) = node_count x (en_nodes w ! i)"
    and "\<And>n. nd_kind (f n) = nd_kind n \<and> nd_table (f n) = nd_table n \<and> nd_portTable (f n) = nd_portTable n"
  shows "keeps w (upd_node i f w)"
  using gave_quiet [OF assms(1) _ assms(2-4), of "EvSignal 0"] by (simp add: gave_def keeps_def)

lemma loop_exit_keeps:
  assumes "engine_ok w" "\<And>e. 0 \<le> slack w e" "i < length (en_nodes w)"
  shows "keeps w (loop_exit i w)"
proof -
  have k: "keeps w (upd_node i (\<lambda>n. n\<lparr>nd_running := False\<rparr>) w)"
    by (rule upd_node_quiet [OF assms(1,3)]) simp_all
  then have "keeps (upd_node i (\<lambda>n. n\<lparr>nd_running := False\<rparr>) w) (loop_exit i w)"
    unfolding loop_exit_def using assms(2,3)
    by (intro drain_keeps) (auto simp: keeps_def dest: shape_length)
  with k show ?thesis by (rule keeps_trans)
qed

lemma submit_control_keeps:
  assumes "engine_ok w" "k < length (en_workers w)" "SubmitControlToWorker k i c w = (w', p)"
  shows "keeps w w'"
proof -
  let ?t = "\<lparr>t_node = i, t_event = None, t_control = Some c\<rparr>"
  have "keeps w (upd_worker k (\<lambda>wk. wk\<lparr>highPriorityCh := push ?t (highPriorityCh (en_workers w ! k))\<rparr>) w)"
    using assms(1,2) by (auto simp: keeps_def slack_def fun_eq_iff queued_upd_worker worker_count_push)
  then show ?thesis
    using assms(3) keeps_refl [OF assms(1)]
    by (auto simp: SubmitControlToWorker_def sends split: option.splits if_splits)
qed

lemma control_keeps:
  assumes ok: "engine_ok w" "wired w" "i < length (en_nodes w)"
  shows "keeps w (node_Stop i w)" "keeps w (fst (node_Pause i w))" "keeps w (fst (node_Resume i w))"
    and "keeps w (fst (node_Start i x w))"
proof -
  have upd: "keeps w (upd_node i (\<lambda>n. n\<lparr>nd_ctrlChan := c\<rparr>) w)" "keeps w (upd_node i (\<lambda>n. n\<lparr>nd_running := b\<rparr>) w)" for c b
    by (rule upd_node_quiet [OF ok(1,3)]; simp)+
  have stop: "keeps w (upd_node i (\<lambda>n. n\<lparr>nd_running := False, nd_ctrlChan := f n\<rparr>) w)" for f
    by (rule upd_node_quiet [OF ok(1,3)]) (simp_all del: node_count.simps)
  have sub: "keeps w (fst (SubmitControlToWorker k i c w))" if "nd_kind (en_nodes w ! i) = SchedulerNode k" for k c
    using submit_control_keeps [OF ok(1) wiredD(1) [OF ok(2,3) that]] by (cases "SubmitControlToWorker k i c w") auto
  have post: "keeps w (fst (post_control i c w))" for c
    using upd(1) keeps_refl [OF ok(1)] by (auto simp: post_control_def Let_def split: send_outcome.splits)
  show "keeps w (node_Stop i w)"
    using stop upd(2) keeps_refl [OF ok(1)]
    by (auto simp: node_Stop_def loop_Stop_def scheduler_Stop_def Let_def split: node_kind.splits)
  show "keeps w (fst (node_Pause i w))" "keeps w (fst (node_Resume i w))"
    using post sub keeps_refl [OF ok(1)]
    by (auto simp: node_Pause_def node_Resume_def loop_Pause_def loop_Resume_def scheduler_Pause_def scheduler_Resume_def
        split: node_kind.splits)
  show "keeps w (fst (node_Start i x w))"
    using upd(2) keeps_refl [OF ok(1)] by (auto simp: node_Start_def split: option.splits)
qed

lemma keeps_ctx: "engine_ok w \<Longrightarrow> keeps w (w\<lparr>en_ctx := c, en_sctx := d\<rparr>)"
proof -
  have "refs_of (w\<lparr>en_ctx := c, en_sctx := d\<rparr>) e = refs_of w e" for e by (cases e) simp_all
  then show "engine_ok w \<Longrightarrow> keeps w (w\<lparr>en_ctx := c, en_sctx := d\<rparr>)"
    by (auto simp: keeps_def engine_ok_def shape_def slack_def queued_def fun_eq_iff)
qed

lemma ledger_turn:
  assumes l: "ledger_ok (w, held)" and i: "i < length (en_nodes w)"
    and ch: "(act, n') \<in> set (loop_outer c (en_nodes w ! i)) \<union> set (loop_inner c (en_nodes w ! i))"
  shows "ledger_ok (loop_effect i act (upd_node i (\<lambda>_. n') w) held)"
proof (cases act)
  case (LEvent e)
  then show ?thesis using ledger_took [OF l loop_turn(1) [OF ledgerD(1) [OF l] i ch LEvent]] by simp
next
  case LExit
  then have k: "keeps w (upd_node i (\<lambda>_. n') w)" using loop_turn(2) [OF ledgerD(1) [OF l] i ch] by simp
  note l1 = ledger_keeps [OF l k]
  have "keeps (upd_node i (\<lambda>_. n') w) (loop_exit i (upd_node i (\<lambda>_. n') w))"
    using ledgerD [OF l1] i by (intro loop_exit_keeps) (auto simp: upd_node_def)
  with LExit show ?thesis using ledger_keeps [OF l1] by simp
next
  case (LControl x)
  then have "keeps w (upd_node i (\<lambda>_. n') w)" using loop_turn(2) [OF ledgerD(1) [OF l] i ch] by simp
  with LControl show ?thesis using ledger_keeps [OF l] by simp
qed

lemma ledger_work:
  assumes l: "ledger_ok (w, held)" and k: "k < length (en_workers w)"
    and ch: "(act, wk') \<in> set (work_outer c (en_workers w ! k)) \<union> set (work_inner c (en_workers w ! k))"
  shows "ledger_ok (work_effect k act (upd_worker k (\<lambda>_. wk') w) held)"
proof (cases act)
  case WExit
  then have kp: "keeps w (upd_worker k (\<lambda>_. wk') w)" using work_turn(2) [OF ledgerD(1) [OF l] k ch] by simp
  note l1 = ledger_keeps [OF l kp]
  have "keeps (upd_worker k (\<lambda>_. wk') w) (worker_drain k (upd_worker k (\<lambda>_. wk') w))"
    using ledgerD [OF l1] k by (intro worker_drain_keeps) (auto simp: upd_worker_def)
  with WExit show ?thesis using ledger_keeps [OF l1] by simp
next
  case (WTask t)
  show ?thesis
  proof (cases "t_event t")
    case None
    then have "keeps w (upd_worker k (\<lambda>_. wk') w)" using work_turn(2) [OF ledgerD(1) [OF l] k ch] WTask by simp
    with None WTask show ?thesis using ledger_keeps [OF l] by simp
  next
    case (Some e)
    then show ?thesis using ledger_took [OF l work_turn(1) [OF ledgerD(1) [OF l] k ch WTask Some]] WTask by simp
  qed
qed

lemma ledger_step:
  assumes l: "ledger_ok (w, held)"
  shows "ledger_ok (engine_step op (w, held))"
proof -
  note d = ledgerD [OF l]
  show ?thesis
  proof (cases op)
    case (ONew a)
    obtain e w' where n: "new_ev a w = (e, w')" by (cases "new_ev a w")
    have md: "media e" using n by (cases a) (auto split: prod.splits)
    have nodes: "en_nodes w' = en_nodes w" "en_workers w' = en_workers w" using n by (cases a; auto split: prod.splits)+
    have "slack w' = (slack w)(e := slack w e + 1)"
      using engine_rc.new_refs [OF d(1) n] engine_rc.new_dead [OF d(1) n] by (auto simp: slack_def queued_def nodes fun_eq_iff)
    then have "took w w' e"
      using engine_rc.new_ok [OF d(1) n] md by (simp add: took_def shape_def nodes)
    with ONew n show ?thesis using ledger_took [OF l] by simp
  next
    case (ORetain e)
    have "took w (retain_ev e w) e" if "owns held e"
    proof (cases "media e")
      case True
      with d(4) [OF that] slack_release(3,4) [OF d(1) slack_refs] show ?thesis by (simp add: took_def)
    next
      case False
      moreover have "retain_ev e w = w" using False by (cases e) simp_all
      ultimately show ?thesis using d(1) by (simp add: took_def)
    qed
    with ORetain show ?thesis using ledger_took [OF l] l by simp
  next
    case (ORelease e)
    then show ?thesis using ledger_gave [OF l] gave_release [OF d(1) d(4)] l by simp
  next
    case (OSend i e)
    then show ?thesis using ledger_keeps [OF l] flow_send_keeps(1) [OF d(1,2) _ d(4)] l
      by (cases "flow_send i e w") auto
  next
    case (OSendPort i p e)
    then show ?thesis using ledger_keeps [OF l] flow_send_port_keeps(1) [OF d(1,2) _ d(4)] l
      by (cases "flow_send_port i p e w") auto
  next
    case (OInput i e)
    obtain w' p where i: "Input i e w = (w', p)" by (cases "Input i e w")
    have "ledger_ok (w', spend e held)" if "owns held e" "i < length (en_nodes w)"
    proof (cases "gave w w' e")
      case True
      then show ?thesis by (rule ledger_gave [OF l that(1)])
    next
      case False
      then have "\<not> media e" "w' = w" using Input_gave(1) [OF d(1,2) that(2) d(4) [OF that(1)] i] by blast+
      then show ?thesis using l by (simp add: spend_def)
    qed
    with OInput i l show ?thesis by simp
  next
    case (OTurn i inner k)
    define choices where "choices = (if inner then loop_inner else loop_outer) (en_ctx w) (en_nodes w ! i)"
    have "ledger_ok (loop_effect i (fst (choices ! k)) (upd_node i (\<lambda>_. snd (choices ! k)) w) held)"
      if "i < length (en_nodes w)" "k < length choices"
      using nth_mem [OF that(2)]
      by (intro ledger_turn [OF l that(1), where c = "en_ctx w"]) (auto simp: choices_def split: if_splits)
    then show ?thesis using OTurn l
      by (simp add: choices_def [symmetric] Let_def split: prod.splits) (metis fst_conv snd_conv)
  next
    case (OWork i inner k)
    define choices where "choices = (if inner then work_inner else work_outer) (en_sctx w) (en_workers w ! i)"
    have "ledger_ok (work_effect i (fst (choices ! k)) (upd_worker i (\<lambda>_. snd (choices ! k)) w) held)"
      if "i < length (en_workers w)" "k < length choices"
      using nth_mem [OF that(2)]
      by (intro ledger_work [OF l that(1), where c = "en_sctx w"]) (auto simp: choices_def split: if_splits)
    then show ?thesis using OWork l
      by (simp add: choices_def [symmetric] Let_def split: prod.splits) (metis fst_conv snd_conv)
  next
    case (OStart i)
    then show ?thesis
      using ledger_keeps [OF l control_keeps(4) [OF d(1,2), of i "None :: unit option"]] l by simp
  next
    case OSchedulerStop
    then show ?thesis
      using ledger_keeps [OF l keeps_ctx [where c = "en_ctx w" and d = "Some Canceled", OF d(1)]] by (simp add: Scheduler_Stop_def)
  qed (use ledger_keeps [OF l] keeps_ctx [OF d(1)] control_keeps [OF d(1,2)] l in auto)
qed

text \<open>A freshly wired engine: no media object exists yet and no queue holds anything.\<close>

definition fresh_engine :: "'v engine \<Rightarrow> bool" where
  "fresh_engine w \<longleftrightarrow> wired w \<and> en_audio w = mh_empty \<and> en_video w = mh_empty \<and>
     (\<forall>n\<in>set (en_nodes w). ch_buf (nd_audioChan n) = [] \<and> ch_buf (nd_videoChan n) = []) \<and>
     (\<forall>wk\<in>set (en_workers w). ch_buf (highPriorityCh wk) = [] \<and> ch_buf (normalPriorityCh wk) = [])"

lemma fresh_ledger: "fresh_engine w \<Longrightarrow> ledger_ok (w, \<lambda>_. 0)"
proof -
  assume f: "fresh_engine w"
  have "refs_of w e = 0" for e using f by (cases e) (simp_all add: fresh_engine_def)
  moreover have "node_count e n = 0" if "n \<in> set (en_nodes w)" for e n
    using f that by (cases e) (simp_all add: fresh_engine_def)
  moreover have "worker_count e wk = 0" if "wk \<in> set (en_workers w)" for e wk
    using f that by (simp add: fresh_engine_def worker_count_def task_count_def)
  ultimately have "slack w e = 0" for e by (simp add: slack_def queued_def cong: map_cong)
  then show ?thesis
    using f by (auto simp: fresh_engine_def ledger_ok_def engine_ok_def audio_ok_def video_ok_def mh_ok_empty)
qed

lemma ledger_run: "ledger_ok s \<Longrightarrow> ledger_ok (fold engine_step ops s)"
proof (induction ops arbitrary: s)
  case (Cons op ops)
  then show ?case using ledger_step [of "fst s" "snd s" op] by simp
qed simp

text \<open>Media references are conserved by the whole engine. Take any wired graph of loop and scheduler
  nodes and any interleaving of allocations, retains, releases, sends, port sends and inputs
  by owners, of turns of node goroutines and workers (dispatch, exit, draining), and of
  starts, stops, pauses and cancellations. Then the reference count of every audio and video
  object is exactly the number of references owned plus the number of its occurrences in
  queues; and an audio object that nobody owns and no queue holds is back in its pool.\<close>

theorem engine_references_exact:
  assumes "fresh_engine w0" "fold engine_step ops (w0, \<lambda>_. 0) = (w, held)" "media e"
  shows "refs_of w e = int (held e) + queued w e \<and>
    (\<forall>i. e = EvAudio i \<and> i < length (mh_objs (en_audio w)) \<and> held e = 0 \<and> queued w e = 0 \<longrightarrow>
       i \<in> set (mh_pool (en_audio w) 0))"
proof -
  have l: "ledger_ok (w, held)" using ledger_run [OF fresh_ledger [OF assms(1)], of ops] assms(2) by simp
  then have r: "refs_of w e = int (held e) + queued w e"    using assms(3) by (simp add: ledger_ok_def slack_def algebra_simps)
  have ok: "mh_ok a_count (\<lambda>_. 0) audio_blank (\<lambda>b. slice_ok (a_buffer b)) (en_audio w)"
    using ledgerD(1) [OF l] by (simp add: engine_ok_def audio_ok_def)
  have "i \<in> set (mh_pool (en_audio w) 0)"
    if i: "e = EvAudio i" "i < length (mh_objs (en_audio w))" "held e = 0" "queued w e = 0" for i
  proof -
    from r i have "a_count (mh_objs (en_audio w) ! i) = 0" by (simp add: mh_refs_def)
    then obtain c where c: "i \<in> set (mh_pool (en_audio w) c)" using mh_okD(6) [OF ok i(2)] by auto
    then have "c = 0" using mh_okD(3) [OF ok c] by (simp add: audio_blank_def)
    with c show ?thesis by simp
  qed
  with r show ?thesis by blast
qed

definition sample_engine :: "(unit, unit) any engine" where
  "sample_engine = \<lparr>en_ctx = None, en_sctx = None,
     en_nodes = [addNextNode EventAudio 1 (newLoopNode ''mic''), newLoopNode ''asr''], en_workers = [],
     en_audio = mh_empty, en_video = mh_empty\<rparr>"

lemma sample_engine_fresh: "fresh_engine sample_engine"
  by (auto simp: fresh_engine_def sample_engine_def wired_def shape_def addNextNode_def newLoopNode_def newBaseNode_def
      empty_table_def table_nodes_def add_unique_def in_set_replicate Let_def)

theorem engine_references_exact_witness:
  "\<exists>w held. fold engine_step [OStart 0, OStart 1, ONew (Inl (None, ''pcm'', 16000, 1)), OSend 0 (EvAudio 0), ORelease (EvAudio 0)]
      (sample_engine, \<lambda>_. 0) = (w, held) \<and> refs_of w (EvAudio 0) = int (held (EvAudio 0)) + queued w (EvAudio 0)"
proof -
  obtain w held where s: "fold engine_step [OStart 0, OStart 1, ONew (Inl (None, ''pcm'', 16000, 1)), OSend 0 (EvAudio 0),
      ORelease (EvAudio 0)] (sample_engine, \<lambda>_. 0) = (w, held)" by (meson surj_pair)
  from engine_references_exact [OF sample_engine_fresh s, of "EvAudio 0"] s show ?thesis by auto
qed

section \<open>Signals and payloads are not lost\<close>

text \<open>The queue an event is delivered to, as events in order.\<close>

definition inbox :: "nat \<Rightarrow> event \<Rightarrow> 'v engine \<Rightarrow> event list" where
  "inbox i e w =
     (case nd_kind (en_nodes w ! i) of
        LoopNode \<Rightarrow>
          (case e of
             EvSignal _ \<Rightarrow> map EvSignal (ch_buf (nd_signalChan (en_nodes w ! i)))
           | EvPayload _ \<Rightarrow> map EvPayload (ch_buf (nd_payloadChan (en_nodes w ! i)))
           | EvAudio _ \<Rightarrow> map EvAudio (ch_buf (nd_audioChan (en_nodes w ! i)))
           | EvVideo _ \<Rightarrow> map EvVideo (ch_buf (nd_videoChan (en_nodes w ! i))))
      | SchedulerNode k \<Rightarrow>
          List.map_filter t_event
            (ch_buf ((case e of EvSignal _ \<Rightarrow> highPriorityCh | _ \<Rightarrow> normalPriorityCh) (en_workers w ! k))))"

definition chans_open :: "'v engine \<Rightarrow> bool" where
  "chans_open w \<longleftrightarrow>
     (\<forall>n\<in>set (en_nodes w). \<not> ch_closed (nd_signalChan n) \<and> \<not> ch_closed (nd_payloadChan n)) \<and>
     (\<forall>wk\<in>set (en_workers w). \<not> ch_closed (highPriorityCh wk) \<and> \<not> ch_closed (normalPriorityCh wk))"

lemma upd_node_nth [simp]:
  "i < length (en_nodes w) \<Longrightarrow> en_nodes (upd_node i f w) ! i = f (en_nodes w ! i)"
  "en_workers (upd_node i f w) = en_workers w"
  by (simp_all add: upd_node_def)

lemma upd_worker_nth [simp]:
  "k < length (en_workers w) \<Longrightarrow> en_workers (upd_worker k f w) ! k = f (en_workers w ! k)"
  "en_nodes (upd_worker k f w) = en_nodes w"
  by (simp_all add: upd_worker_def)

text \<open>C8. While the workflow is live and the target runs, \<open>Input\<close> never loses a signal or a payload: it
  either parks the sender and changes nothing, or appends the event to the end of the
  target's queue (the node's own, or the right queue of its worker).\<close>

theorem input_lossless:
  assumes "wired w" "chans_open w" "i < length (en_nodes w)"
    and "en_ctx w = None" "en_sctx w = None" "nd_running (en_nodes w ! i)" "\<not> media e"
    and "Input i e w = (w', parked)"
  shows "(parked \<and> w' = w) \<or> (\<not> parked \<and> inbox i e w' = inbox i e w @ [e])"
proof (cases "nd_kind (en_nodes w ! i)")
  case LoopNode
  have "\<not> ch_closed (nd_signalChan (en_nodes w ! i))" "\<not> ch_closed (nd_payloadChan (en_nodes w ! i))"
    using assms(2,3) by (simp_all add: chans_open_def)
  with LoopNode assms show ?thesis
    by (cases e) (auto simp: Input_def loop_Input_def SendWithContext_def inbox_def Let_def split: if_splits)
next
  case (SchedulerNode k)
  have k: "k < length (en_workers w)" using wiredD(1) [OF assms(1,3) SchedulerNode] .
  then have "\<not> ch_closed (highPriorityCh (en_workers w ! k))" "\<not> ch_closed (normalPriorityCh (en_workers w ! k))"
    using assms(2) by (simp_all add: chans_open_def)
  with SchedulerNode k assms show ?thesis
    by (cases e) (auto simp: Input_def scheduler_Input_def SubmitToWorker_def SendWithContext_def inbox_def Let_def
        map_filter_def split: if_splits)
qed

theorem input_lossless_witness:
  "\<exists>w'. Input 1 (EvSignal 7) (upd_node 1 (\<lambda>n. n\<lparr>nd_running := True\<rparr>) sample_engine) = (w', False) \<and>
     inbox 1 (EvSignal 7) w' = [EvSignal 7]"
proof -
  let ?w = "upd_node 1 (\<lambda>n. n\<lparr>nd_running := True\<rparr>) sample_engine"
  have "shape ?w = shape sample_engine" by (rule shape_upd_node) simp
  then have "wired ?w" using sample_engine_fresh wired_cong by (auto simp: fresh_engine_def)
  moreover have "chans_open ?w" "1 < length (en_nodes ?w)" "en_ctx ?w = None" "en_sctx ?w = None"
      "nd_running (en_nodes ?w ! 1)" "inbox 1 (EvSignal 7) ?w = []"
    by (simp_all add: chans_open_def sample_engine_def upd_node_def newLoopNode_def newBaseNode_def addNextNode_def
        inbox_def Let_def)
  moreover obtain w' p where i: "Input 1 (EvSignal 7) ?w = (w', p)" by (cases "Input 1 (EvSignal 7) ?w")
  moreover have "\<not> p"
    using i by (auto simp: Input_def loop_Input_def sample_engine_def upd_node_def newLoopNode_def newBaseNode_def
        SendWithContext_def chan_full_def make_chan_def)
  ultimately show ?thesis using input_lossless [of ?w 1 "EvSignal 7" w' p] by simp
qed

end
