(* ===== verification/Graph.thy ===== *)
theory Graph
  imports Registry "HOL-Library.Multiset"
begin

text \<open>
  \<open>internal/engine/graph.go\<close>: validation of a workflow configuration and the order in
  which its nodes are started.

  \<open>builders\<close> is the map from node identifiers to plugin builders. The in-degree map is an
  association list in some iteration order: \<open>ids\<close> is the order in which Go iterates it when
  it fills the first queue, \<open>rest_ids\<close> the (independent) order in which it is iterated when
  nodes on cycles are appended. Sorting terminates because every push to the queue takes one
  node's in-degree from one to zero (\<open>kahn\<close>).
\<close>

datatype graph_error =
    NoHead
  | DuplicateNode string
  | BuilderMissing string
  | HeadNotFound string
  | SelfLoop string
  | SourceNotFound string
  | TargetNotFound string
  | UnknownEdgeType EventType
  | ContractFailed string string contract_error

record Graph =
  g_Config :: WorkflowConfig
  g_OrderedNodes :: "NodeConfig list"

section \<open>Validation\<close>

fun resolve_builders ::
  "string list \<Rightarrow> ('e, 'p) PluginStore \<Rightarrow> NodeConfig list \<Rightarrow> (string \<rightharpoonup> ('e, 'p) PluginBuilder) \<Rightarrow>
   'e registry_error + (string \<rightharpoonup> ('e, 'p) PluginBuilder)" where
  "resolve_builders order store [] builders = Inr builders"
| "resolve_builders order store (nodeCfg # configs) builders =
     (case LoadBuilder order (n_Namespace nodeCfg) (n_Plugin nodeCfg) store of
        Inl err \<Rightarrow> Inl err
      | Inr builder \<Rightarrow> resolve_builders order store configs (builders(n_ID nodeCfg \<mapsto> builder)))"

definition ResolvePluginBuilders ::
  "string list \<Rightarrow> ('e, 'p) PluginStore option \<Rightarrow> NodeConfig list \<Rightarrow>
   'e registry_error + (string \<rightharpoonup> ('e, 'p) PluginBuilder)" where
  "ResolvePluginBuilders order store configs =
     (case store of
        None \<Rightarrow> Inl PluginInvalid
      | Some st \<Rightarrow> resolve_builders order st configs Map.empty)"

fun parse_nodes ::
  "(string \<rightharpoonup> ('e, 'p) PluginBuilder) \<Rightarrow> NodeConfig list \<Rightarrow> (string \<rightharpoonup> NodeConfig) \<Rightarrow>
   graph_error + (string \<rightharpoonup> NodeConfig)" where
  "parse_nodes builders [] nodesMap = Inr nodesMap"
| "parse_nodes builders (n # ns) nodesMap =
     (if nodesMap (n_ID n) \<noteq> None then Inl (DuplicateNode (n_ID n))
      else if builders (n_ID n) = None then Inl (BuilderMissing (n_ID n))
      else parse_nodes builders ns (nodesMap(n_ID n \<mapsto> n)))"

definition parseNodes ::
  "NodeConfig list \<Rightarrow> (string \<rightharpoonup> ('e, 'p) PluginBuilder) \<Rightarrow> graph_error + (string \<rightharpoonup> NodeConfig)" where
  "parseNodes nodes builders = parse_nodes builders nodes Map.empty"

definition checkSelfLoops :: "EdgeConfig list \<Rightarrow> graph_error option" where
  "checkSelfLoops edges =
     first_error (\<lambda>e. if e_Source e = e_Target e then Some (SelfLoop (e_Source e)) else None) edges"

definition edge_prefix :: "EventType \<Rightarrow> string option" where
  "edge_prefix t =
     (if t = EventPayload then Some PrefixPayload else if t = EventSignal then Some PrefixSignal
      else if t = EventAudio then Some PrefixAudio else None)"

definition validateEdgeContracts ::
  "(string \<rightharpoonup> NodeConfig) \<Rightarrow> EdgeConfig list \<Rightarrow> (string \<rightharpoonup> ('e, 'p) PluginBuilder) \<Rightarrow> graph_error option" where
  "validateEdgeContracts nodesMap edges builders =
     first_error (\<lambda>e.
       if nodesMap (e_Source e) = None then Some (SourceNotFound (e_Source e))
       else if nodesMap (e_Target e) = None then Some (TargetNotFound (e_Target e))
       else case edge_prefix (e_Type e) of
              None \<Rightarrow> Some (UnknownEdgeType (e_Type e))
            | Some prefix \<Rightarrow>
                (case ValidateProperties (md_Outputs (the (builders (e_Source e))))
                        (md_Inputs (the (builders (e_Target e)))) prefix of
                   Some err \<Rightarrow> Some (ContractFailed (e_Source e) (e_Target e) err)
                 | None \<Rightarrow> None)) edges"

section \<open>Topological sort\<close>

text \<open>\<open>m[k] += d\<close> and \<open>m[k]\<close> of a Go map with int values.\<close>

fun bump :: "int \<Rightarrow> 'k \<Rightarrow> ('k \<times> int) list \<Rightarrow> ('k \<times> int) list" where
  "bump d k [] = [(k, d)]"
| "bump d k ((k', n) # m) = (if k = k' then (k', n + d) # m else (k', n) # bump d k m)"

fun deg :: "('k \<times> int) list \<Rightarrow> 'k \<Rightarrow> int" where
  "deg [] k = 0"
| "deg ((k', n) # m) k = (if k = k' then n else deg m k)"

text \<open>The inner loop over \<open>adj[curr]\<close>.\<close>

fun visit :: "'k list \<Rightarrow> ('k \<times> int) list \<Rightarrow> 'k list \<Rightarrow> ('k \<times> int) list \<times> 'k list" where
  "visit [] inDegree queue = (inDegree, queue)"
| "visit (next # ns) inDegree queue =
     (let d = bump (-1) next inDegree
      in visit ns d (if deg d next = 0 then queue @ [next] else queue))"

definition pending :: "('k \<times> int) list \<Rightarrow> nat" where
  "pending m = sum_list (map (\<lambda>(k, n). nat n) m)"

lemma pending_bump:
  "pending (bump (-1) k m) + (if deg (bump (-1) k m) k = 0 then 1 else 0) \<le> pending m"
  by (induction m) (auto simp: pending_def)

lemma pending_visit: "visit ns d q = (d', q') \<Longrightarrow> pending d' + length q' \<le> pending d + length q"
proof (induction ns arbitrary: d q)
  case (Cons n ns)
  show ?case using Cons.IH Cons.prems pending_bump [of n d] by (fastforce simp: Let_def split: if_splits)
qed simp

function kahn :: "('k \<Rightarrow> 'k list) \<Rightarrow> ('k \<times> int) list \<Rightarrow> 'k list \<Rightarrow> 'k list \<Rightarrow> ('k \<times> int) list \<times> 'k list" where
  "kahn adj inDegree [] orderedIDs = (inDegree, orderedIDs)"
| "kahn adj inDegree (cur # queue) orderedIDs =
     (case visit (adj cur) inDegree queue of
        (d, q) \<Rightarrow> kahn adj d q (orderedIDs @ [cur]))"
  by pat_completeness auto
termination
  by (relation "measure (\<lambda>(adj, d, q, acc). pending d + length q)") (auto dest: pending_visit [OF sym])

definition edge_pairs :: "WorkflowConfig \<Rightarrow> (string \<times> string) list" where
  "edge_pairs config = map (\<lambda>e. (e_Source e, e_Target e)) (w_Edges config)"

definition adjacency :: "('k \<times> 'k) list \<Rightarrow> 'k \<Rightarrow> 'k list" where
  "adjacency es s = map snd (filter (\<lambda>e. fst e = s) es)"

definition in_degrees :: "'k list \<Rightarrow> ('k \<times> 'k) list \<Rightarrow> ('k \<times> int) list" where
  "in_degrees ids es = fold (\<lambda>e. bump 1 (snd e)) es (map (\<lambda>i. (i, 0)) ids)"

definition sort_ids :: "'k list \<Rightarrow> 'k list \<Rightarrow> ('k \<times> 'k) list \<Rightarrow> nat \<Rightarrow> 'k list" where
  "sort_ids ids rest_ids es n_nodes =
     (let inDegree = in_degrees ids es;
          queue = filter (\<lambda>i. deg inDegree i = 0) (map fst inDegree);
          (inDegree', orderedIDs) = kahn (adjacency es) inDegree queue []
      in if length orderedIDs \<noteq> n_nodes
         then orderedIDs @ filter (\<lambda>i. deg inDegree' i > 0) rest_ids
         else orderedIDs)"

definition sortNodesTopologically ::
  "string list \<Rightarrow> string list \<Rightarrow> WorkflowConfig \<Rightarrow> (string \<rightharpoonup> NodeConfig) \<Rightarrow> NodeConfig list" where
  "sortNodesTopologically ids rest_ids config nodesMap =
     map (\<lambda>i. the (nodesMap i)) (sort_ids ids rest_ids (edge_pairs config) (length (w_Nodes config)))"

section \<open>BuildGraph\<close>

definition BuildGraph ::
  "string list \<Rightarrow> string list \<Rightarrow> WorkflowConfig \<Rightarrow> (string \<rightharpoonup> ('e, 'p) PluginBuilder) \<Rightarrow> graph_error + Graph" where
  "BuildGraph ids rest_ids config builders =
     (if w_Head config = '''' then Inl NoHead
      else case parseNodes (w_Nodes config) builders of
             Inl err \<Rightarrow> Inl err
           | Inr nodesMap \<Rightarrow>
               if nodesMap (w_Head config) = None then Inl (HeadNotFound (w_Head config))
               else case checkSelfLoops (w_Edges config) of
                      Some err \<Rightarrow> Inl err
                    | None \<Rightarrow>
                        (case validateEdgeContracts nodesMap (w_Edges config) builders of
                           Some err \<Rightarrow> Inl err
                         | None \<Rightarrow>
                             Inr \<lparr>g_Config = config,
                                  g_OrderedNodes = sortNodesTopologically ids rest_ids config nodesMap\<rparr>))"

section \<open>The sort is a topological sort\<close>

text \<open>\<open>topo E xs\<close>: every predecessor of an element of \<open>xs\<close> stands before it.\<close>

definition topo :: "('k \<times> 'k) set \<Rightarrow> 'k list \<Rightarrow> bool" where
  "topo E xs \<longleftrightarrow> (\<forall>ys t zs. xs = ys @ t # zs \<longrightarrow> (\<forall>s. (s, t) \<in> E \<longrightarrow> s \<in> set ys))"

lemma topo_Nil [simp]: "topo E []"
  by (simp add: topo_def)

lemma topo_snoc: "topo E xs \<Longrightarrow> (\<And>s. (s, n) \<in> E \<Longrightarrow> s \<in> set xs) \<Longrightarrow> topo E (xs @ [n])"
  unfolding topo_def by (metis (no_types, opaque_lifting) append_eq_append_conv2 append_eq_Cons_conv butlast_append butlast_snoc
      list.distinct(1) snoc_eq_iff_butlast butlast.simps(2))

lemma deg_bump [simp]: "deg (bump d k m) k' = (if k = k' then deg m k + d else deg m k')"
  by (induction m) auto

lemma keys_bump: "map fst (bump d k m) = add_unique k (map fst m)"
  by (induction m) (auto simp: add_unique_def rev_image_eqI)

lemma in_degrees_snoc: "in_degrees ids (es @ [e]) = bump 1 (snd e) (in_degrees ids es)"
  by (simp add: in_degrees_def)

lemma deg_in_degrees: "deg (in_degrees ids es) n = int (length (filter (\<lambda>e. snd e = n) es))"
proof (induction es rule: rev_induct)
  case Nil
  have "deg (map (\<lambda>i. (i, 0)) ids) n = 0" by (induction ids) auto
  then show ?case by (simp add: in_degrees_def)
qed (auto simp: in_degrees_snoc)

lemma keys_in_degrees: "snd ` set es \<subseteq> set ids \<Longrightarrow> map fst (in_degrees ids es) = ids"
proof (induction es rule: rev_induct)
  case Nil
  show ?case by (simp add: in_degrees_def comp_def)
qed (simp add: in_degrees_snoc keys_bump)

definition unmet :: "('k \<times> 'k) list \<Rightarrow> 'k list \<Rightarrow> 'k \<Rightarrow> nat" where
  "unmet es acc n = length (filter (\<lambda>e. snd e = n \<and> fst e \<notin> set acc) es)"

text \<open>
  The loop invariant, inside the visit of \<open>ns\<close>: the in-degree of a node counts its edges from
  nodes not yet taken and the edges still to visit; the nodes taken or queued are those of
  in-degree zero, each once, and they are topologically ordered.
\<close>

definition kinv :: "('k \<times> 'k) list \<Rightarrow> 'k set \<Rightarrow> 'k list \<Rightarrow> 'k list \<Rightarrow> ('k \<times> int) list \<Rightarrow> 'k list \<Rightarrow> bool" where
  "kinv es V acc ns d q \<longleftrightarrow> distinct (acc @ q) \<and> set (acc @ q) \<subseteq> V \<and>
     (\<forall>n\<in>V. deg d n = int (unmet es acc n + count_list ns n)) \<and>
     (\<forall>n\<in>V. n \<in> set (acc @ q) \<longleftrightarrow> deg d n = 0) \<and> topo (set es) (acc @ q)"

lemma unmet_0: "unmet es acc n = 0 \<Longrightarrow> (s, n) \<in> set es \<Longrightarrow> s \<in> set acc"
  by (force simp: unmet_def filter_empty_conv)

lemma kinv_visit1:
  assumes inv: "kinv es V acc (n # ns) d q" and n: "n \<in> V"
  shows "kinv es V acc ns (bump (-1) n d) (if deg (bump (-1) n d) n = 0 then q @ [n] else q)"
proof -
  define d' where "d' = bump (-1) n d"
  define q' where "q' = (if deg d' n = 0 then q @ [n] else q)"
  from inv have deg: "\<And>m. m \<in> V \<Longrightarrow> deg d m = int (unmet es acc m + count_list (n # ns) m)"
    and zero: "\<And>m. m \<in> V \<Longrightarrow> m \<in> set (acc @ q) \<longleftrightarrow> deg d m = 0"
    and rest: "distinct (acc @ q)" "set (acc @ q) \<subseteq> V" "topo (set es) (acc @ q)"
    by (auto simp: kinv_def)
  have d': "deg d' m = (if n = m then deg d n - 1 else deg d m)" for m by (simp add: d'_def)
  have new: "n \<notin> set (acc @ q)" using zero [OF n] deg [OF n] by simp
  have deg': "deg d' m = int (unmet es acc m + count_list ns m)" if "m \<in> V" for m
    using deg [OF that] by (simp add: d' split: if_splits)
  have zero': "m \<in> set (acc @ q') \<longleftrightarrow> deg d' m = 0" if "m \<in> V" for m
    using zero [OF that] new by (cases "m = n") (auto simp: q'_def d')
  have "topo (set es) (acc @ q')"
  proof (cases "deg d' n = 0")
    case True
    then have "unmet es acc n = 0" using deg' [OF n] by simp
    then have "s \<in> set (acc @ q)" if "(s, n) \<in> set es" for s using unmet_0 [of es acc n s] that by simp
    from topo_snoc [OF rest(3) this] show ?thesis using True by (simp add: q'_def)
  qed (use rest(3) in \<open>simp add: q'_def\<close>)
  moreover have "distinct (acc @ q')" "set (acc @ q') \<subseteq> V" using rest new n by (auto simp: q'_def)
  ultimately have "kinv es V acc ns d' q'" using deg' zero' by (simp add: kinv_def)
  then show ?thesis by (simp only: d'_def q'_def)
qed

lemma kinv_visit:
  "kinv es V acc ns d q \<Longrightarrow> set ns \<subseteq> V \<Longrightarrow> visit ns d q = (d', q') \<Longrightarrow> kinv es V acc [] d' q'"
proof (induction ns arbitrary: d q)
  case (Cons n ns)
  show ?case
    using Cons.IH [OF kinv_visit1 [OF Cons.prems(1)]] Cons.prems by (simp add: Let_def)
qed simp

lemma unmet_snoc:
  assumes "cur \<notin> set acc"
  shows "unmet es acc n = unmet es (acc @ [cur]) n + count_list (adjacency es cur) n"
  using assms by (induction es) (auto simp: unmet_def adjacency_def)

lemma kinv_pop:
  assumes "kinv es V acc [] d (cur # q)"
  shows "kinv es V (acc @ [cur]) (adjacency es cur) d q"
proof -
  have "cur \<notin> set acc" using assms by (simp add: kinv_def)
  from unmet_snoc [OF this, of es] assms show ?thesis by (simp add: kinv_def)
qed

lemma kinv_kahn:
  assumes "snd ` set es \<subseteq> V" "kinv es V acc [] d q" "kahn (adjacency es) d q acc = (d', acc')"
  shows "kinv es V acc' [] d' []"
  using assms
proof (induction "adjacency es" d q acc rule: kahn.induct)
  case (2 d cur q acc)
  obtain d1 q1 where v: "visit (adjacency es cur) d q = (d1, q1)" by (cases "visit (adjacency es cur) d q")
  have "set (adjacency es cur) \<subseteq> V" using 2(2) by (auto simp: adjacency_def)
  from kinv_visit [OF kinv_pop [OF 2(3)] this v] show ?case
    using 2(1) [OF v [symmetric]] 2(2,4) v by simp
qed simp

lemma kinv_init:
  assumes "distinct ids" "snd ` set es \<subseteq> set ids"
  shows "kinv es (set ids) [] [] (in_degrees ids es)
           (filter (\<lambda>i. deg (in_degrees ids es) i = 0) (map fst (in_degrees ids es)))"
proof -
  let ?q = "filter (\<lambda>i. deg (in_degrees ids es) i = 0) ids"
  have "topo (set es) ?q"
    unfolding topo_def
  proof (intro allI impI)
    fix ys t zs s
    assume "?q = ys @ t # zs" "(s, t) \<in> set es"
    then have "t \<in> set ?q" by simp
    then have "filter (\<lambda>e. snd e = t) es = []" by (simp add: deg_in_degrees)
    with \<open>(s, t) \<in> set es\<close> show "s \<in> set ys" by (auto simp: filter_empty_conv)
  qed
  then show ?thesis
    using assms by (simp add: kinv_def keys_in_degrees unmet_def deg_in_degrees)
qed

text \<open>\<open>before xs s t\<close>: some occurrence of \<open>t\<close> in \<open>xs\<close> stands after one of \<open>s\<close>.\<close>

definition before :: "'k list \<Rightarrow> 'k \<Rightarrow> 'k \<Rightarrow> bool" where
  "before xs s t \<longleftrightarrow> (\<exists>ys zs. xs = ys @ t # zs \<and> s \<in> set ys)"

definition on_cycle_path :: "('k \<times> 'k) set \<Rightarrow> 'k \<Rightarrow> bool" where
  "on_cycle_path E t \<longleftrightarrow> (\<exists>c. (c, c) \<in> E\<^sup>+ \<and> (c, t) \<in> E\<^sup>*)"

lemma topo_before: "topo E xs \<Longrightarrow> (s, t) \<in> E \<Longrightarrow> t \<in> set xs \<Longrightarrow> before (xs @ ys) s t"
  unfolding topo_def before_def by (metis append.assoc append_Cons split_list)

text \<open>A node left out by the sort has a predecessor that is left out too, so going backwards from it
  leads into a cycle.\<close>

lemma left_out_cycle:
  assumes fin: "finite E" and t: "t \<in> R" and pred: "\<And>x. x \<in> R \<Longrightarrow> \<exists>y\<in>R. (y, x) \<in> E"
  shows "on_cycle_path E t"
proof (rule ccontr)
  assume no: "\<not> on_cycle_path E t"
  define F where "F = {(a, b). (a, b) \<in> E \<and> (b, t) \<in> E\<^sup>*}"
  have sub: "F \<subseteq> E" by (auto simp: F_def)
  have "acyclic F"
    unfolding acyclic_def
  proof (intro allI notI)
    fix x assume x: "(x, x) \<in> F\<^sup>+"
    then obtain y where "(y, x) \<in> F" by (meson tranclE)
    then have "(x, t) \<in> E\<^sup>*" by (simp add: F_def)
    moreover have "(x, x) \<in> E\<^sup>+" using x trancl_mono sub by metis
    ultimately show False using no by (auto simp: on_cycle_path_def)
  qed
  then have wf: "wf F" using finite_subset [OF sub fin] by (simp add: finite_acyclic_wf)
  define Q where "Q = R \<inter> {x. (x, t) \<in> E\<^sup>*}"
  have "t \<in> Q" using t by (simp add: Q_def)
  with wf obtain z where z: "z \<in> Q" "\<And>y. (y, z) \<in> F \<Longrightarrow> y \<notin> Q" by (metis wfE_min)
  from z(1) pred obtain y where y: "y \<in> R" "(y, z) \<in> E" by (auto simp: Q_def)
  have zt: "(z, t) \<in> E\<^sup>*" using z(1) by (simp add: Q_def)
  have "(y, z) \<in> F" "y \<in> Q" using y zt by (auto simp: F_def Q_def intro: converse_rtrancl_into_rtrancl)
  with z(2) show False by blast
qed

lemma sort_ids_correct:
  assumes ids: "distinct ids" "distinct rest" "set rest = set ids" "length ids = n"
    and es: "fst ` set es \<subseteq> set ids" "snd ` set es \<subseteq> set ids"
  shows "distinct (sort_ids ids rest es n) \<and> set (sort_ids ids rest es n) = set ids \<and>
    (\<forall>(s, t)\<in>set es. before (sort_ids ids rest es n) s t \<or> on_cycle_path (set es) t)"
proof -
  let ?d = "in_degrees ids es"
  obtain d acc where k: "kahn (adjacency es) ?d (filter (\<lambda>i. deg ?d i = 0) (map fst ?d)) [] = (d, acc)"
    by (cases "kahn (adjacency es) ?d (filter (\<lambda>i. deg ?d i = 0) (map fst ?d)) []")
  from kinv_kahn [OF es(2) kinv_init [OF ids(1) es(2)] k]
  have acc: "distinct acc" "set acc \<subseteq> set ids" "topo (set es) acc"
    and zero: "\<And>m. m \<in> set ids \<Longrightarrow> m \<in> set acc \<longleftrightarrow> deg d m = 0"
    and un: "\<And>m. m \<in> set ids \<Longrightarrow> deg d m = int (unmet es acc m)"
    by (auto simp: kinv_def)
  define res where "res = sort_ids ids rest es n"
  define tl where "tl = filter (\<lambda>i. deg d i > 0) rest"
  have tl: "set tl = set ids - set acc" "distinct tl"
    using zero un ids(2,3) by (auto simp: tl_def)
  have res: "res = (if length acc \<noteq> n then acc @ tl else acc)"
    by (simp add: res_def sort_ids_def k tl_def)
  have full: "set acc = set ids" if "length acc = n"
    using that acc(1,2) ids(1,4) by (metis card_subset_eq distinct_card finite_set)
  have pre: "\<exists>zs. res = acc @ zs" by (simp add: res)
  have "distinct res" "set res = set ids" using acc tl full by (auto simp: res)
  moreover have "before res s t \<or> on_cycle_path (set es) t" if e: "(s, t) \<in> set es" for s t
  proof (cases "t \<in> set acc")
    case True
    with topo_before [OF acc(3) e] pre show ?thesis by auto
  next
    case False
    have "\<exists>y\<in>set ids - set acc. (y, x) \<in> set es" if x: "x \<in> set ids - set acc" for x
    proof -
      have "unmet es acc x \<noteq> 0" using zero [of x] un [of x] x by auto
      then obtain e' where "e' \<in> set es" "snd e' = x" "fst e' \<notin> set acc"
        by (auto simp: unmet_def filter_empty_conv)
      then have "(fst e', x) \<in> set es" "fst e' \<in> set ids - set acc" using es(1) by auto
      then show ?thesis by blast
    qed
    moreover have "t \<in> set ids - set acc" using False es(2) e by force
    ultimately show ?thesis using left_out_cycle [of "set es" t "set ids - set acc"] by blast
  qed
  ultimately show ?thesis by (auto simp: res_def)
qed

section \<open>What BuildGraph accepts and produces\<close>

definition node_map :: "NodeConfig list \<Rightarrow> (string \<rightharpoonup> NodeConfig)" where
  "node_map ns = map_of (map (\<lambda>n. (n_ID n, n)) ns)"

lemma parse_nodes_iff:
  "parse_nodes builders ns m = Inr m' \<longleftrightarrow>
     distinct (map n_ID ns) \<and> (\<forall>n\<in>set ns. m (n_ID n) = None \<and> builders (n_ID n) \<noteq> None) \<and> m' = m ++ node_map ns"
proof (induction ns arbitrary: m)
  case Nil
  then show ?case by (auto simp: node_map_def)
next
  case (Cons n ns)
  define m1 where "m1 = m(n_ID n \<mapsto> n)"
  have add: "m1 ++ node_map ns = m ++ node_map (n # ns)" if "n_ID n \<notin> n_ID ` set ns"
  proof -
    have "node_map ns (n_ID n) = None" using that by (auto simp: node_map_def map_of_eq_None_iff)
    then show ?thesis by (auto simp: m1_def fun_eq_iff map_add_def node_map_def split: option.splits)
  qed
  have keys: "(\<forall>x\<in>set ns. m1 (n_ID x) = None) \<longleftrightarrow> n_ID n \<notin> n_ID ` set ns \<and> (\<forall>x\<in>set ns. m (n_ID x) = None)"
    by (auto simp: m1_def image_iff split: if_splits)
  have "parse_nodes builders (n # ns) m = Inr m' \<longleftrightarrow>
      m (n_ID n) = None \<and> builders (n_ID n) \<noteq> None \<and> parse_nodes builders ns m1 = Inr m'"
    by (simp add: m1_def)
  also have "\<dots> \<longleftrightarrow> m (n_ID n) = None \<and> builders (n_ID n) \<noteq> None \<and> distinct (map n_ID ns) \<and>
      n_ID n \<notin> n_ID ` set ns \<and> (\<forall>x\<in>set ns. m (n_ID x) = None) \<and> (\<forall>x\<in>set ns. builders (n_ID x) \<noteq> None) \<and>
      m' = m ++ node_map (n # ns)"
    unfolding Cons.IH ball_conj_distrib keys using add by auto
  finally show ?case by auto
qed

lemma parseNodes_iff:
  "parseNodes ns builders = Inr m \<longleftrightarrow>
     distinct (map n_ID ns) \<and> (\<forall>n\<in>set ns. builders (n_ID n) \<noteq> None) \<and> m = node_map ns"
  by (auto simp: parseNodes_def parse_nodes_iff)

lemma dom_node_map: "node_map ns i = None \<longleftrightarrow> i \<notin> n_ID ` set ns"
  by (auto simp: node_map_def map_of_eq_None_iff image_iff)

lemma node_map_id: "i \<in> n_ID ` set ns \<Longrightarrow> the (node_map ns i) \<in> set ns \<and> n_ID (the (node_map ns i)) = i"
proof -
  assume "i \<in> n_ID ` set ns"
  then obtain n where "node_map ns i = Some n" using dom_node_map [of ns i] by (cases "node_map ns i") auto
  then show ?thesis by (auto simp: node_map_def dest: map_of_SomeD)
qed

definition edge_ok :: "NodeConfig list \<Rightarrow> (string \<rightharpoonup> ('e, 'p) PluginBuilder) \<Rightarrow> EdgeConfig \<Rightarrow> bool" where
  "edge_ok ns builders e \<longleftrightarrow> e_Source e \<in> n_ID ` set ns \<and> e_Target e \<in> n_ID ` set ns \<and>
     e_Source e \<noteq> e_Target e \<and>
     (\<exists>p. edge_prefix (e_Type e) = Some p \<and>
        ValidateProperties (md_Outputs (the (builders (e_Source e)))) (md_Inputs (the (builders (e_Target e)))) p = None)"

lemma edges_checked:
  "checkSelfLoops es = None \<and> validateEdgeContracts (node_map ns) es builders = None \<longleftrightarrow>
     (\<forall>e\<in>set es. edge_ok ns builders e)"
proof -
  let ?chk = "\<lambda>e. if node_map ns (e_Source e) = None then Some (SourceNotFound (e_Source e))
       else if node_map ns (e_Target e) = None then Some (TargetNotFound (e_Target e))
       else case edge_prefix (e_Type e) of
              None \<Rightarrow> Some (UnknownEdgeType (e_Type e))
            | Some prefix \<Rightarrow>
                (case ValidateProperties (md_Outputs (the (builders (e_Source e))))
                        (md_Inputs (the (builders (e_Target e)))) prefix of
                   Some err \<Rightarrow> Some (ContractFailed (e_Source e) (e_Target e) err)
                 | None \<Rightarrow> None)"
  have "edge_ok ns builders e \<longleftrightarrow> e_Source e \<noteq> e_Target e \<and> ?chk e = None" for e
    by (cases "edge_prefix (e_Type e)") (auto simp: edge_ok_def dom_node_map split: option.split)
  then show ?thesis by (auto simp: checkSelfLoops_def validateEdgeContracts_def)
qed

text \<open>C4. \<open>BuildGraph\<close> accepts a configuration exactly when it names a head among its nodes, node
  identifiers are unique and have builders, and every edge joins two different nodes of the
  configuration, has a known type and meets the contract of its type.\<close>

theorem build_graph_accepts:
  "(\<exists>g. BuildGraph ids rest_ids config builders = Inr g) \<longleftrightarrow>
     w_Head config \<noteq> '''' \<and> distinct (map n_ID (w_Nodes config)) \<and>
     (\<forall>n\<in>set (w_Nodes config). builders (n_ID n) \<noteq> None) \<and>
     w_Head config \<in> n_ID ` set (w_Nodes config) \<and> (\<forall>e\<in>set (w_Edges config). edge_ok (w_Nodes config) builders e)"
proof (cases "parseNodes (w_Nodes config) builders")
  case (Inl err)
  then have "parseNodes (w_Nodes config) builders \<noteq> Inr (node_map (w_Nodes config))" by simp
  then show ?thesis unfolding parseNodes_iff using Inl by (auto simp: BuildGraph_def)
next
  case (Inr m)
  then have "distinct (map n_ID (w_Nodes config))" "\<forall>n\<in>set (w_Nodes config). builders (n_ID n) \<noteq> None"
    "m = node_map (w_Nodes config)" by (simp_all add: parseNodes_iff)
  with Inr show ?thesis
    unfolding edges_checked [symmetric] by (auto simp: BuildGraph_def dom_node_map split: option.splits)
qed

lemma BuildGraph_Inr:
  assumes "BuildGraph ids rest_ids config builders = Inr g"
  shows "g = \<lparr>g_Config = config, g_OrderedNodes = sortNodesTopologically ids rest_ids config (node_map (w_Nodes config))\<rparr>"
    and "distinct (map n_ID (w_Nodes config))" "\<forall>e\<in>set (w_Edges config). edge_ok (w_Nodes config) builders e"
proof -
  obtain m where m: "parseNodes (w_Nodes config) builders = Inr m"
    using assms by (auto simp: BuildGraph_def split: if_splits sum.splits)
  then have "m = node_map (w_Nodes config)" "distinct (map n_ID (w_Nodes config))" by (simp_all add: parseNodes_iff)
  then show "g = \<lparr>g_Config = config, g_OrderedNodes = sortNodesTopologically ids rest_ids config (node_map (w_Nodes config))\<rparr>"
    "distinct (map n_ID (w_Nodes config))" "\<forall>e\<in>set (w_Edges config). edge_ok (w_Nodes config) builders e"
    unfolding edges_checked [symmetric]
    using assms m by (auto simp: BuildGraph_def split: if_splits option.splits)
qed

lemma ordered_nodes:
  assumes "BuildGraph ids rest_ids config builders = Inr g"
    and "distinct ids" "set ids = n_ID ` set (w_Nodes config)" "distinct rest_ids" "set rest_ids = set ids"
  shows "mset (g_OrderedNodes g) = mset (w_Nodes config) \<and>
    (\<forall>e\<in>set (w_Edges config). before (map n_ID (g_OrderedNodes g)) (e_Source e) (e_Target e) \<or>
       on_cycle_path (set (edge_pairs config)) (e_Target e))"
proof -
  let ?ns = "w_Nodes config" and ?es = "edge_pairs config"
  note b = BuildGraph_Inr [OF assms(1)]
  define srt where "srt = sort_ids ids rest_ids ?es (length ?ns)"
  have len: "length ids = length ?ns"
    using assms(2,3) b(2) by (metis distinct_card length_map set_map)
  have sub: "fst ` set ?es \<subseteq> set ids" "snd ` set ?es \<subseteq> set ids"
    using b(3) assms(3) by (auto simp: edge_pairs_def edge_ok_def)
  from sort_ids_correct [OF assms(2,4,5) len sub]
  have srt: "distinct srt" "set srt = set ids"
    and ord: "\<And>s t. (s, t) \<in> set ?es \<Longrightarrow> before srt s t \<or> on_cycle_path (set ?es) t"
    by (auto simp: srt_def)
  have nodes: "g_OrderedNodes g = map (\<lambda>i. the (node_map ?ns i)) srt"
    by (simp add: b(1) sortNodesTopologically_def srt_def)
  have ids: "map n_ID (g_OrderedNodes g) = srt"
    using srt(2) assms(3) node_map_id [of _ ?ns] by (auto simp: nodes comp_def intro: map_idI)
  have "distinct (g_OrderedNodes g)" using ids srt(1) by (metis distinct_map)
  moreover have "set (g_OrderedNodes g) = set ?ns"
  proof (rule card_subset_eq [OF finite_set])
    show "set (g_OrderedNodes g) \<subseteq> set ?ns" using node_map_id [of _ ?ns] srt(2) assms(3) by (auto simp: nodes)
    show "card (set (g_OrderedNodes g)) = card (set ?ns)"
      using calculation b(2) len ids by (metis distinct_card distinct_map length_map srt assms(2))
  qed
  ultimately have "mset (g_OrderedNodes g) = mset ?ns" using b(2) by (metis distinct_map set_eq_iff_mset_eq_distinct)
  then show ?thesis using ord by (auto simp: ids edge_pairs_def)
qed

text \<open>C3. The start order of an accepted workflow: every node appears exactly once, and for every edge
  the source comes before the target unless the target can be reached from a cycle; in
  particular an acyclic workflow is in topological order. This holds whatever order Go
  iterates its maps in.\<close>

theorem build_graph_order:
  assumes "BuildGraph ids rest_ids config builders = Inr g"
    and "distinct ids" "set ids = n_ID ` set (w_Nodes config)" "distinct rest_ids" "set rest_ids = set ids"
  shows "mset (g_OrderedNodes g) = mset (w_Nodes config) \<and>
    (\<forall>e\<in>set (w_Edges config). before (map n_ID (g_OrderedNodes g)) (e_Source e) (e_Target e) \<or>
       on_cycle_path (set (edge_pairs config)) (e_Target e))"
  by (rule ordered_nodes [OF assms])

definition sample_node :: "string \<Rightarrow> NodeConfig" where
  "sample_node i = \<lparr>n_ID = i, n_Name = i, n_Namespace = '''', n_Plugin = ''vad'', n_Config = []\<rparr>"

definition sample_config :: WorkflowConfig where
  "sample_config = \<lparr>w_ID = ''w'', w_Name = ''w'', w_Version = ''1'', w_Head = ''a'',
     w_Nodes = [sample_node ''b'', sample_node ''a''],
     w_Edges = [\<lparr>e_Source = ''a'', e_SourcePort = 0, e_Target = ''b'', e_Type = EventSignal\<rparr>],
     w_SchedulerMode = '''', w_SchedulerWorkers = 0\<rparr>"

lemma sample_graph:
  "BuildGraph [''b'', ''a''] [''a'', ''b''] sample_config (\<lambda>_. Some sample_builder) =
     Inr \<lparr>g_Config = sample_config, g_OrderedNodes = [sample_node ''a'', sample_node ''b'']\<rparr>"
  by (simp add: BuildGraph_def sample_config_def sample_node_def parseNodes_def checkSelfLoops_def
      validateEdgeContracts_def edge_prefix_def sample_builder_def GenericBuilder_def ValidateProperties_def
      sortNodesTopologically_def sort_ids_def in_degrees_def adjacency_def edge_pairs_def)

theorem build_graph_order_witness:
  "before (map n_ID [sample_node ''a'', sample_node ''b'']) ''a'' ''b'' \<or> on_cycle_path {(''a'', ''b'')} ''b''"
  using build_graph_order [OF sample_graph] by (simp add: sample_config_def edge_pairs_def sample_node_def insert_commute)

theorem build_graph_accepts_witness:
  "\<exists>g. BuildGraph [''b'', ''a''] [''a'', ''b''] sample_config (\<lambda>_. Some sample_builder) = Inr g"
  unfolding build_graph_accepts
  by (simp add: sample_config_def sample_node_def edge_ok_def edge_prefix_def sample_builder_def GenericBuilder_def
      ValidateProperties_def)

text \<open>C14. A workflow with a video edge is always rejected, whatever its plugins declare: the edge check
  knows no contract prefix for \<open>EventVideo\<close>.\<close>

theorem video_edge_rejected:
  assumes "e \<in> set (w_Edges config)" "e_Type e = EventVideo"
  shows "\<exists>err. BuildGraph ids rest_ids config builders = Inl err"
proof (cases "BuildGraph ids rest_ids config builders")
  case (Inr g)
  from BuildGraph_Inr(3) [OF this] assms show ?thesis by (auto simp: edge_ok_def edge_prefix_def)
qed simp

theorem video_edge_rejected_witness:
  "\<exists>err. BuildGraph [''b'', ''a''] [''a'', ''b'']
     (sample_config\<lparr>w_Edges := [\<lparr>e_Source = ''a'', e_SourcePort = 0, e_Target = ''b'', e_Type = EventVideo\<rparr>]\<rparr>)
     (\<lambda>_. Some sample_builder) = Inl err"
  by (rule video_edge_rejected [of "\<lparr>e_Source = ''a'', e_SourcePort = 0, e_Target = ''b'', e_Type = EventVideo\<rparr>"]) simp_all

end
