(* ===== verification/Workflow.thy ===== *)
theory Workflow
  imports Delivery Graph
begin

text \<open>
  \<open>internal/engine/workflow.go\<close>: a workflow instantiates a validated graph, wires its
  nodes, runs their lifecycle, delivers inputs and collects output packets.

  The runtime state of the nodes is an \<open>engine\<close> (\<open>Node\<close>). Plugins are values of an abstract
  type; what their \<open>OnStart\<close> answers is the argument \<open>onStart\<close> of \<open>Start\<close>. Packets are
  identified by numbers: \<open>wf_output\<close> is the egress channel, \<open>wf_released\<close> the packets given
  back to the packet pool, in order. \<open>Write\<close> consists of the state check and the \<open>select\<close>,
  between which other goroutines may run.
\<close>

abbreviation (input) outputBufferSize :: nat where "outputBufferSize \<equiv> 1024"
abbreviation (input) SchedulerModeWorkerPool :: string where "SchedulerModeWorkerPool \<equiv> ''worker-pool''"

record ('p, 'v) workflow =
  wf_graph :: Graph
  wf_plugins :: "'p list"
  wf_engine :: "'v engine"
  wf_indexMap :: "string \<rightharpoonup> nat"
  wf_nameMap :: "string \<rightharpoonup> nat"
  wf_output :: "nat chan"
  wf_state :: WorkflowState
  wf_scheduler :: bool
  wf_released :: "nat list"

datatype 'e workflow_error =
    DuplicateNodeID string
  | DuplicateNodeName string
  | NoBuilder string
  | PluginBuild string 'e
  | EdgeSourceMissing string
  | EdgeTargetMissing string
  | NotPending WorkflowState
  | NodeStartFailed string 'e
  | NotRunning WorkflowState
  | NotPaused
  | NoHeadNode
  | NodeNotFound string

section \<open>Construction\<close>

fun init_nodes ::
  "(string \<rightharpoonup> ('e, 'p) PluginBuilder) \<Rightarrow> (string \<Rightarrow> node) \<Rightarrow> NodeConfig list \<Rightarrow>
   node list \<times> 'p list \<times> (string \<rightharpoonup> nat) \<times> (string \<rightharpoonup> nat) \<Rightarrow>
   'e workflow_error + node list \<times> 'p list \<times> (string \<rightharpoonup> nat) \<times> (string \<rightharpoonup> nat)" where
  "init_nodes builders mk [] acc = Inr acc"
| "init_nodes builders mk (nodeCfg # cfgs) (nodes, exts, indexMap, nameMap) =
     (if indexMap (n_ID nodeCfg) \<noteq> None then Inl (DuplicateNodeID (n_ID nodeCfg))
      else if nameMap (n_Name nodeCfg) \<noteq> None then Inl (DuplicateNodeName (n_Name nodeCfg))
      else case builders (n_ID nodeCfg) of
             None \<Rightarrow> Inl (NoBuilder (n_ID nodeCfg))
           | Some builder \<Rightarrow>
               (case b_Build builder (n_Config nodeCfg) of
                  Inl err \<Rightarrow> Inl (PluginBuild (n_ID nodeCfg) err)
                | Inr ext \<Rightarrow>
                    init_nodes builders mk cfgs
                      (nodes @ [mk (n_Name nodeCfg)], exts @ [ext],
                       indexMap(n_ID nodeCfg \<mapsto> length nodes), nameMap(n_Name nodeCfg \<mapsto> length nodes))))"

definition initNodes ::
  "(string \<rightharpoonup> ('e, 'p) PluginBuilder) \<Rightarrow> (string \<Rightarrow> node) \<Rightarrow> NodeConfig list \<Rightarrow>
   'e workflow_error + node list \<times> 'p list \<times> (string \<rightharpoonup> nat) \<times> (string \<rightharpoonup> nat)" where
  "initNodes builders mk cfgs = init_nodes builders mk cfgs ([], [], Map.empty, Map.empty)"

definition wire_edge :: "nat \<Rightarrow> nat \<Rightarrow> EdgeConfig \<Rightarrow> node list \<Rightarrow> node list" where
  "wire_edge fromIdx toIdx edge nodes =
     (if e_SourcePort edge = 0 then nodes[fromIdx := addNextNode (e_Type edge) toIdx (nodes ! fromIdx)]
      else nodes[fromIdx := addNextPortNode (e_Type edge) toIdx (e_SourcePort edge) (nodes ! fromIdx)])"

fun wireNodes :: "(string \<rightharpoonup> nat) \<Rightarrow> EdgeConfig list \<Rightarrow> node list \<Rightarrow> 'e workflow_error + node list" where
  "wireNodes indexMap [] nodes = Inr nodes"
| "wireNodes indexMap (edge # edges) nodes =
     (case indexMap (e_Source edge) of
        None \<Rightarrow> Inl (EdgeSourceMissing (e_Source edge))
      | Some fromIdx \<Rightarrow>
          (case indexMap (e_Target edge) of
             None \<Rightarrow> Inl (EdgeTargetMissing (e_Target edge))
           | Some toIdx \<Rightarrow> wireNodes indexMap edges (wire_edge fromIdx toIdx edge nodes)))"

definition pool_size :: "Graph \<Rightarrow> int" where
  "pool_size graph =
     (let nodeCount = int (length (g_OrderedNodes graph)); workers = w_SchedulerWorkers (g_Config graph)
      in if workers < 1 \<or> workers > nodeCount then (nodeCount + 3) div 4 else workers)"

definition NewWorkflow ::
  "ctx \<Rightarrow> Graph \<Rightarrow> (string \<rightharpoonup> ('e, 'p) PluginBuilder) \<Rightarrow> 'v audio mheap \<Rightarrow> 'v video mheap \<Rightarrow>
   'e workflow_error + ('p, 'v) workflow" where
  "NewWorkflow ctx graph builders ah vh =
     (let useScheduler = (w_SchedulerMode (g_Config graph) = SchedulerModeWorkerPool);
          workers = (if useScheduler then NewScheduler (pool_size graph) 128 else []);
          mk = (if useScheduler then newSchedulerNode workers else newLoopNode)
      in case initNodes builders mk (g_OrderedNodes graph) of
           Inl err \<Rightarrow> Inl err
         | Inr (nodes, exts, indexMap, nameMap) \<Rightarrow>
             (case wireNodes indexMap (w_Edges (g_Config graph)) nodes of
                Inl err \<Rightarrow> Inl err
              | Inr nodes' \<Rightarrow>
                  Inr \<lparr>wf_graph = graph, wf_plugins = exts,
                       wf_engine = \<lparr>en_ctx = ctx, en_sctx = ctx, en_nodes = nodes', en_workers = workers,
                                    en_audio = ah, en_video = vh\<rparr>,
                       wf_indexMap = indexMap, wf_nameMap = nameMap,
                       wf_output = make_chan outputBufferSize, wf_state = Pending,
                       wf_scheduler = useScheduler, wf_released = []\<rparr>))"

section \<open>Lifecycle\<close>

abbreviation upd_engine :: "('v engine \<Rightarrow> 'v engine) \<Rightarrow> ('p, 'v) workflow \<Rightarrow> ('p, 'v) workflow" where
  "upd_engine f w \<equiv> w\<lparr>wf_engine := f (wf_engine w)\<rparr>"

text \<open>\<open>clearStartError\<close>: stop the started nodes, last started first.\<close>

fun clearStartError :: "nat \<Rightarrow> 'v engine \<Rightarrow> 'v engine" where
  "clearStartError 0 en = en"
| "clearStartError (Suc i) en = clearStartError i (node_Stop i en)"

fun start_nodes :: "(nat \<Rightarrow> 'x option) \<Rightarrow> nat \<Rightarrow> nat \<Rightarrow> 'v engine \<Rightarrow> 'v engine \<times> (nat \<times> 'x) option" where
  "start_nodes onStart i 0 en = (en, None)"
| "start_nodes onStart i (Suc n) en =
     (case node_Start i (onStart i) en of
        (en', Some err) \<Rightarrow> (clearStartError i en', Some (i, err))
      | (en', None) \<Rightarrow> start_nodes onStart (Suc i) n en')"

text \<open>
  \<open>Start\<close> claims the workflow with a compare-and-swap, starts the nodes and stores the new
  state; other goroutines may run in between.
\<close>

definition Start_claim :: "('p, 'v) workflow \<Rightarrow> ('p, 'v) workflow option" where
  "Start_claim w = (if wf_state w = Pending then Some (w\<lparr>wf_state := Starting\<rparr>) else None)"

definition Start_run :: "(nat \<Rightarrow> 'e option) \<Rightarrow> ('p, 'v) workflow \<Rightarrow> ('p, 'v) workflow \<times> 'e workflow_error option" where
  "Start_run onStart w =
     (case start_nodes onStart 0 (length (en_nodes (wf_engine w))) (wf_engine w) of
        (en, Some (i, err)) \<Rightarrow>
          (w\<lparr>wf_engine := en, wf_state := Stopped\<rparr>, Some (NodeStartFailed (nd_name (en_nodes en ! i)) err))
      | (en, None) \<Rightarrow> (w\<lparr>wf_engine := en, wf_state := Running\<rparr>, None))"

definition Start :: "(nat \<Rightarrow> 'e option) \<Rightarrow> ('p, 'v) workflow \<Rightarrow> ('p, 'v) workflow \<times> 'e workflow_error option" where
  "Start onStart w =
     (case Start_claim w of None \<Rightarrow> (w, Some (NotPending (wf_state w))) | Some w' \<Rightarrow> Start_run onStart w')"

definition cancel_engine :: "bool \<Rightarrow> 'v engine \<Rightarrow> 'v engine" where
  "cancel_engine useScheduler en =
     (let en1 = en\<lparr>en_ctx := Some Canceled, en_sctx := Some Canceled\<rparr>
      in if useScheduler then Scheduler_Stop en1 else en1)"

text \<open>
  \<open>Stop\<close> swaps the state, cancels and stops the nodes, closes the output and then receives
  until the closed channel is empty, releasing every packet. Other goroutines may run between
  these steps. Closing an already closed channel is a panic, the result \<open>None\<close>.
\<close>

definition Stop_claim :: "('p, 'v) workflow \<Rightarrow> ('p, 'v) workflow \<times> bool" where
  "Stop_claim w = (w\<lparr>wf_state := Stopped\<rparr>, wf_state w \<noteq> Stopped)"

definition Stop_nodes :: "('p, 'v) workflow \<Rightarrow> ('p, 'v) workflow" where
  "Stop_nodes w = upd_engine (\<lambda>en. fold node_Stop [0..<length (en_nodes en)] (cancel_engine (wf_scheduler w) en)) w"

definition Stop_close :: "('p, 'v) workflow \<Rightarrow> ('p, 'v) workflow option" where
  "Stop_close w =
     (if ch_closed (wf_output w) then None else Some (w\<lparr>wf_output := (wf_output w)\<lparr>ch_closed := True\<rparr>\<rparr>))"

definition Stop_drain1 :: "('p, 'v) workflow \<Rightarrow> ('p, 'v) workflow" where
  "Stop_drain1 w =
     (case recv (wf_output w) of
        None \<Rightarrow> w
      | Some (msg, out) \<Rightarrow> w\<lparr>wf_output := out, wf_released := wf_released w @ [msg]\<rparr>)"

definition Stop :: "('p, 'v) workflow \<Rightarrow> ('p, 'v) workflow option" where
  "Stop w =
     (case Stop_claim w of
        (w1, won) \<Rightarrow>
          if \<not> won then Some w1
          else map_option (\<lambda>w2. (Stop_drain1 ^^ length (ch_buf (wf_output w2))) w2) (Stop_close (Stop_nodes w1)))"

text \<open>The nodes are told in order; the list holds those a parked sender has not reached.\<close>

fun each_node :: "(nat \<Rightarrow> 'v engine \<Rightarrow> 'v engine \<times> bool) \<Rightarrow> nat list \<Rightarrow> 'v engine \<Rightarrow> 'v engine \<times> nat list" where
  "each_node f [] en = (en, [])"
| "each_node f (i # is) en = (case f i en of (en', parked) \<Rightarrow> if parked then (en', i # is) else each_node f is en')"

definition Pause :: "('p, 'v) workflow \<Rightarrow> ('p, 'v) workflow \<times> 'e workflow_error option \<times> nat list" where
  "Pause w =
     (if wf_state w \<noteq> Running then (w, Some (NotRunning (wf_state w)), [])
      else
        case each_node node_Pause [0..<length (en_nodes (wf_engine w))] (wf_engine w) of
          (en, rest) \<Rightarrow> (w\<lparr>wf_state := Paused, wf_engine := en\<rparr>, None, rest))"

definition Resume :: "('p, 'v) workflow \<Rightarrow> ('p, 'v) workflow \<times> 'e workflow_error option \<times> nat list" where
  "Resume w =
     (if wf_state w \<noteq> Paused then (w, Some NotPaused, [])
      else
        case each_node node_Resume [0..<length (en_nodes (wf_engine w))] (wf_engine w) of
          (en, rest) \<Rightarrow> (w\<lparr>wf_state := Running, wf_engine := en\<rparr>, None, rest))"

section \<open>Delivery\<close>

definition ensureRunning :: "('p, 'v) workflow \<Rightarrow> 'e workflow_error option" where
  "ensureRunning w = (if wf_state w \<noteq> Running then Some (NotRunning (wf_state w)) else None)"

definition deliver :: "(string \<rightharpoonup> nat) \<Rightarrow> string \<Rightarrow> event \<Rightarrow> ('p, 'v) workflow \<Rightarrow>
    ('p, 'v) workflow \<times> 'e workflow_error option \<times> bool" where
  "deliver m k item w =
     (case m k of
        None \<Rightarrow> (w, Some (NodeNotFound k), False)
      | Some idx \<Rightarrow>
          (case Input idx item (wf_engine w) of (en, parked) \<Rightarrow> (w\<lparr>wf_engine := en\<rparr>, None, parked)))"

definition deliverTo :: "string \<Rightarrow> event \<Rightarrow> ('p, 'v) workflow \<Rightarrow> ('p, 'v) workflow \<times> 'e workflow_error option \<times> bool" where
  "deliverTo nodeID item w = deliver (wf_indexMap w) nodeID item w"

definition SendToHead :: "event \<Rightarrow> ('p, 'v) workflow \<Rightarrow> ('p, 'v) workflow \<times> 'e workflow_error option \<times> bool" where
  "SendToHead item w =
     (case ensureRunning w of
        Some err \<Rightarrow> (w, Some err, False)
      | None \<Rightarrow>
          (let headID = w_Head (g_Config (wf_graph w))
           in if headID = '''' then (w, Some NoHeadNode, False) else deliverTo headID item w))"

definition SendToNode :: "string \<Rightarrow> event \<Rightarrow> ('p, 'v) workflow \<Rightarrow> ('p, 'v) workflow \<times> 'e workflow_error option \<times> bool" where
  "SendToNode nodeID item w =
     (case ensureRunning w of Some err \<Rightarrow> (w, Some err, False) | None \<Rightarrow> deliverTo nodeID item w)"

definition SendToNodeWithName :: "string \<Rightarrow> event \<Rightarrow> ('p, 'v) workflow \<Rightarrow> ('p, 'v) workflow \<times> 'e workflow_error option \<times> bool" where
  "SendToNodeWithName name item w =
     (case ensureRunning w of Some err \<Rightarrow> (w, Some err, False) | None \<Rightarrow> deliver (wf_nameMap w) name item w)"

text \<open>\<open>Broadcast\<close>: one reference per node, then the caller's own; the list holds the nodes not reached
  when the sender parks on a signal or payload.\<close>

fun broadcast_nodes :: "event \<Rightarrow> nat list \<Rightarrow> 'v engine \<Rightarrow> 'v engine \<times> nat list" where
  "broadcast_nodes item [] en = (release_ev item en, [])"
| "broadcast_nodes item (i # is) en =
     (case Input i item (retain_ev item en) of
        (en', parked) \<Rightarrow> if parked then (en', i # is) else broadcast_nodes item is en')"

definition Broadcast :: "event \<Rightarrow> ('p, 'v) workflow \<Rightarrow> ('p, 'v) workflow \<times> 'e workflow_error option \<times> nat list" where
  "Broadcast item w =
     (case ensureRunning w of
        Some err \<Rightarrow> (w, Some err, [])
      | None \<Rightarrow>
          (case broadcast_nodes item [0..<length (en_nodes (wf_engine w))] (wf_engine w) of
             (en, rest) \<Rightarrow> (w\<lparr>wf_engine := en\<rparr>, None, rest)))"

section \<open>Output\<close>

definition Write_check :: "nat \<Rightarrow> ('p, 'v) workflow \<Rightarrow> ('p, 'v) workflow \<times> bool" where
  "Write_check packet w =
     (if wf_state w \<noteq> Running \<or> en_ctx (wf_engine w) \<noteq> None
      then (w\<lparr>wf_released := wf_released w @ [packet]\<rparr>, False) else (w, True))"

text \<open>
  The \<open>select\<close> of \<open>Write\<close>: with the context done and a ready channel Go may pick either
  case (\<open>done_first\<close>); a send on a closed channel panics and the deferred \<open>recover\<close>
  releases the packet; a full channel takes the default case.
\<close>

definition Write_select :: "bool \<Rightarrow> nat \<Rightarrow> ('p, 'v) workflow \<Rightarrow> ('p, 'v) workflow" where
  "Write_select done_first packet w =
     (if (done_first \<and> en_ctx (wf_engine w) \<noteq> None) \<or> ch_closed (wf_output w) \<or> chan_full (wf_output w)
      then w\<lparr>wf_released := wf_released w @ [packet]\<rparr>
      else w\<lparr>wf_output := push packet (wf_output w)\<rparr>)"

definition Write :: "bool \<Rightarrow> nat \<Rightarrow> ('p, 'v) workflow \<Rightarrow> ('p, 'v) workflow" where
  "Write done_first packet w =
     (case Write_check packet w of (w', go) \<Rightarrow> if go then Write_select done_first packet w' else w')"

section \<open>Construction yields the configured wiring\<close>

definition route :: "EventType \<Rightarrow> routeTable \<Rightarrow> nat list" where
  "route t tbl =
     (if t = EventSignal then signals tbl else if t = EventPayload then payloads tbl
      else if t = EventAudio then audios tbl else if t = EventVideo then videos tbl else [])"

definition known_type :: "EventType \<Rightarrow> bool" where
  "known_type t \<longleftrightarrow> t = EventSignal \<or> t = EventPayload \<or> t = EventAudio \<or> t = EventVideo"

definition index_ok :: "('c \<Rightarrow> 'k) \<Rightarrow> 'c list \<Rightarrow> ('k \<rightharpoonup> nat) \<Rightarrow> bool" where
  "index_ok key cs m \<longleftrightarrow> (\<forall>k i. m k = Some i \<longleftrightarrow> i < length cs \<and> key (cs ! i) = k)"

lemma index_ok_snoc:
  assumes "index_ok key cs m" "m (key c) = None"
  shows "index_ok key (cs @ [c]) (m(key c \<mapsto> length cs))"
  unfolding index_ok_def
proof (intro allI)
  fix k i
  have old: "m k = Some i \<longleftrightarrow> i < length cs \<and> key (cs ! i) = k" using assms(1) by (simp add: index_ok_def)
  have "key (cs ! i) \<noteq> key c" if "i < length cs"
    using assms that unfolding index_ok_def by (metis option.distinct(1))
  with old show "(m(key c \<mapsto> length cs)) k = Some i \<longleftrightarrow> i < length (cs @ [c]) \<and> key ((cs @ [c]) ! i) = k"
    by (auto simp: nth_append less_Suc_eq)
qed

lemma init_nodes_ok:
  assumes "init_nodes builders mk cfgs (map (\<lambda>c. mk (n_Name c)) pre, exts, im, nm) = Inr (nodes, exts', im', nm')"
    and "index_ok n_ID pre im" "index_ok n_Name pre nm" "length exts = length pre"
  shows "nodes = map (\<lambda>c. mk (n_Name c)) (pre @ cfgs) \<and> index_ok n_ID (pre @ cfgs) im' \<and>
    index_ok n_Name (pre @ cfgs) nm' \<and> length exts' = length (pre @ cfgs)"
  using assms
proof (induction cfgs arbitrary: pre exts im nm)
  case (Cons c cfgs)
  from Cons.prems(1) obtain ext where c: "im (n_ID c) = None" "nm (n_Name c) = None"
    and rec: "init_nodes builders mk cfgs (map (\<lambda>c. mk (n_Name c)) (pre @ [c]), exts @ [ext],
        im(n_ID c \<mapsto> length pre), nm(n_Name c \<mapsto> length pre)) = Inr (nodes, exts', im', nm')"
    by (auto split: if_splits option.splits sum.splits)
  from Cons.IH [OF rec index_ok_snoc [OF Cons.prems(2) c(1)] index_ok_snoc [OF Cons.prems(3) c(2)]] Cons.prems(4)
  show ?case by simp
qed simp

lemma initNodes_ok:
  assumes "initNodes builders mk cfgs = Inr (nodes, exts, im, nm)"
  shows "nodes = map (\<lambda>c. mk (n_Name c)) cfgs" "index_ok n_ID cfgs im" "index_ok n_Name cfgs nm" "length exts = length cfgs"
  using init_nodes_ok [of builders mk cfgs "[]" "[]" Map.empty Map.empty] assms
  by (auto simp: initNodes_def index_ok_def)

lemma index_ok_distinct: "index_ok key cs m \<Longrightarrow> distinct (map key cs)"
  by (auto simp: index_ok_def distinct_conv_nth) (metis option.inject)

text \<open>One edge: what it adds to the tables of its source.\<close>

definition edge_step :: "nat \<Rightarrow> EdgeConfig \<Rightarrow> node \<Rightarrow> node" where
  "edge_step j e n = (if e_SourcePort e = 0 then addNextNode (e_Type e) j n else addNextPortNode (e_Type e) j (e_SourcePort e) n)"

definition port_ok :: "EdgeConfig \<Rightarrow> bool" where
  "port_ok e \<longleftrightarrow> 0 \<le> e_SourcePort e \<and> e_SourcePort e < int MaxPortCount"

lemma edge_step_frame:
  "nd_kind (edge_step j e n) = nd_kind n \<and> nd_running (edge_step j e n) = nd_running n \<and>
   nd_ctrlChan (edge_step j e n) = nd_ctrlChan n \<and> nd_signalChan (edge_step j e n) = nd_signalChan n \<and>
   nd_payloadChan (edge_step j e n) = nd_payloadChan n \<and> nd_audioChan (edge_step j e n) = nd_audioChan n \<and>
   nd_videoChan (edge_step j e n) = nd_videoChan n \<and> length (nd_portTable (edge_step j e n)) = length (nd_portTable n) \<and>
   nd_name (edge_step j e n) = nd_name n"
  by (simp add: edge_step_def addNextNode_def addNextPortNode_def Let_def)

lemma edge_step_table:
  assumes "known_type t"
  shows "route t (nd_table (edge_step j e n)) =
    (if e_Type e = t \<and> port_ok e then add_unique j (route t (nd_table n)) else route t (nd_table n))"
  using assms
  by (auto simp: edge_step_def addNextNode_def addNextPortNode_def route_def known_type_def port_ok_def Let_def)

lemma edge_step_port:
  assumes "known_type t" "p < MaxPortCount" "length (nd_portTable n) = MaxPortCount"
  shows "route t (nd_portTable (edge_step j e n) ! p) =
    (if e_Type e = t \<and> port_ok e \<and> e_SourcePort e = int p \<and> p \<noteq> 0
     then add_unique j (route t (nd_portTable n ! p)) else route t (nd_portTable n ! p))"
  using assms
  by (auto simp: edge_step_def addNextNode_def addNextPortNode_def route_def known_type_def port_ok_def
      nth_list_update Let_def)

lemma wire_edge_eq: "wire_edge i j e nodes = nodes[i := edge_step j e (nodes ! i)]"
  by (simp add: wire_edge_def edge_step_def)

definition edge_targets :: "(string \<rightharpoonup> nat) \<Rightarrow> EdgeConfig list \<Rightarrow> (EdgeConfig \<Rightarrow> bool) \<Rightarrow> nat \<Rightarrow> nat set" where
  "edge_targets im es P i = {j. \<exists>e\<in>set es. im (e_Source e) = Some i \<and> im (e_Target e) = Some j \<and> port_ok e \<and> P e}"

definition same_runtime :: "node \<Rightarrow> node \<Rightarrow> bool" where
  "same_runtime n n' \<longleftrightarrow> nd_kind n' = nd_kind n \<and> nd_running n' = nd_running n \<and> nd_ctrlChan n' = nd_ctrlChan n \<and>
     nd_signalChan n' = nd_signalChan n \<and> nd_payloadChan n' = nd_payloadChan n \<and> nd_audioChan n' = nd_audioChan n \<and>
     nd_videoChan n' = nd_videoChan n \<and> length (nd_portTable n') = length (nd_portTable n) \<and> nd_name n' = nd_name n"

lemma wireNodes_ok:
  assumes "wireNodes im es nodes = (Inr nodes' :: 'e workflow_error + node list)"
    and "\<forall>n\<in>set nodes. length (nd_portTable n) = MaxPortCount" "\<forall>k i. im k = Some i \<longrightarrow> i < length nodes"
    and "known_type t" "i < length nodes"
  shows "length nodes' = length nodes \<and> same_runtime (nodes ! i) (nodes' ! i) \<and>
    set (route t (nd_table (nodes' ! i))) = set (route t (nd_table (nodes ! i))) \<union> edge_targets im es (\<lambda>e. e_Type e = t) i \<and>
    (\<forall>p<MaxPortCount. set (route t (nd_portTable (nodes' ! i) ! p)) =
       set (route t (nd_portTable (nodes ! i) ! p)) \<union>
       (if p = 0 then {} else edge_targets im es (\<lambda>e. e_Type e = t \<and> e_SourcePort e = int p) i))"
  using assms
proof (induction es arbitrary: nodes)
  case Nil
  then show ?case by (auto simp: edge_targets_def same_runtime_def)
next
  case (Cons e es)
  from Cons.prems(1) obtain a b where ab: "im (e_Source e) = Some a" "im (e_Target e) = Some b"
    and rec: "wireNodes im es (wire_edge a b e nodes) = (Inr nodes' :: 'e workflow_error + node list)"
    by (auto split: option.splits)
  define n1 where "n1 = wire_edge a b e nodes"
  have a: "a < length nodes" using ab Cons.prems(3) by blast
  have n1: "n1 ! i = (if i = a then edge_step b e (nodes ! i) else nodes ! i)" "length n1 = length nodes"
    using a by (auto simp: n1_def wire_edge_eq)
  have pt: "\<forall>n\<in>set n1. length (nd_portTable n) = MaxPortCount"
    using Cons.prems(2) a edge_step_frame by (auto simp: n1_def wire_edge_eq dest!: set_update_subset_insert [THEN subsetD])
  have fr: "same_runtime (nodes ! i) (n1 ! i)" using n1(1) edge_step_frame [of b e "nodes ! i"]
    by (cases "i = a") (simp_all add: same_runtime_def)
  have tg: "edge_targets im (e # es) P i = edge_targets im es P i \<union> (if i = a \<and> port_ok e \<and> P e then {b} else {})" for P
    using ab by (auto simp: edge_targets_def)
  have t1: "set (route t (nd_table (n1 ! i))) =
      set (route t (nd_table (nodes ! i))) \<union> (if i = a \<and> port_ok e \<and> e_Type e = t then {b} else {})"
    using edge_step_table [OF Cons.prems(4), of b e "nodes ! i"] by (auto simp: n1)
  have p1: "set (route t (nd_portTable (n1 ! i) ! p)) = set (route t (nd_portTable (nodes ! i) ! p)) \<union>
      (if i = a \<and> port_ok e \<and> e_Type e = t \<and> e_SourcePort e = int p \<and> p \<noteq> 0 then {b} else {})" if "p < MaxPortCount" for p
    using edge_step_port [OF Cons.prems(4) that, of "nodes ! i" b e] Cons.prems(2,5) by (auto simp: n1)
  have "length nodes' = length n1 \<and> same_runtime (n1 ! i) (nodes' ! i) \<and>
    set (route t (nd_table (nodes' ! i))) = set (route t (nd_table (n1 ! i))) \<union> edge_targets im es (\<lambda>e. e_Type e = t) i \<and>
    (\<forall>p<MaxPortCount. set (route t (nd_portTable (nodes' ! i) ! p)) = set (route t (nd_portTable (n1 ! i) ! p)) \<union>
       (if p = 0 then {} else edge_targets im es (\<lambda>e. e_Type e = t \<and> e_SourcePort e = int p) i))"
    using rec pt Cons.prems(3-5) unfolding n1_def [symmetric] by (intro Cons.IH) (auto simp: n1(2))
  then show ?case using fr n1(2) t1 p1 unfolding tg same_runtime_def by auto
qed

definition workflow_nodes :: "Graph \<Rightarrow> worker list \<Rightarrow> node list" where
  "workflow_nodes g workers = map (\<lambda>c. (if w_SchedulerMode (g_Config g) = SchedulerModeWorkerPool
     then newSchedulerNode workers else newLoopNode) (n_Name c)) (g_OrderedNodes g)"

lemma NewWorkflow_Inr:
  fixes builders :: "string \<rightharpoonup> ('e, 'p) PluginBuilder"
  assumes "NewWorkflow ctx g builders ah vh = Inr w"
  obtains workers mk nodes exts im nm where
    "workers = (if w_SchedulerMode (g_Config g) = SchedulerModeWorkerPool then NewScheduler (pool_size g) 128 else [])"
    "mk = (if w_SchedulerMode (g_Config g) = SchedulerModeWorkerPool then newSchedulerNode workers else newLoopNode)"
    "initNodes builders mk (g_OrderedNodes g) = Inr (workflow_nodes g workers, exts, im, nm)"
    "wireNodes im (w_Edges (g_Config g)) (workflow_nodes g workers) = (Inr nodes :: 'e workflow_error + node list)"
    "index_ok n_ID (g_OrderedNodes g) im" "index_ok n_Name (g_OrderedNodes g) nm" "length exts = length (g_OrderedNodes g)"
    "w = \<lparr>wf_graph = g, wf_plugins = exts, wf_engine = \<lparr>en_ctx = ctx, en_sctx = ctx, en_nodes = nodes,
       en_workers = workers, en_audio = ah, en_video = vh\<rparr>, wf_indexMap = im, wf_nameMap = nm,
       wf_output = make_chan outputBufferSize, wf_state = Pending,
       wf_scheduler = (w_SchedulerMode (g_Config g) = SchedulerModeWorkerPool), wf_released = []\<rparr>"
proof -
  define workers where "workers = (if w_SchedulerMode (g_Config g) = SchedulerModeWorkerPool then NewScheduler (pool_size g) 128 else [])"
  define mk where "mk = (if w_SchedulerMode (g_Config g) = SchedulerModeWorkerPool then newSchedulerNode workers else newLoopNode)"
  obtain ns exts im nm nodes where i: "initNodes builders mk (g_OrderedNodes g) = Inr (ns, exts, im, nm)"
    and n: "wireNodes im (w_Edges (g_Config g)) ns = (Inr nodes :: 'e workflow_error + node list)"
    and w: "w = \<lparr>wf_graph = g, wf_plugins = exts, wf_engine = \<lparr>en_ctx = ctx, en_sctx = ctx, en_nodes = nodes,
       en_workers = workers, en_audio = ah, en_video = vh\<rparr>, wf_indexMap = im, wf_nameMap = nm,
       wf_output = make_chan outputBufferSize, wf_state = Pending,
       wf_scheduler = (w_SchedulerMode (g_Config g) = SchedulerModeWorkerPool), wf_released = []\<rparr>"
    using assms unfolding NewWorkflow_def Let_def workers_def [symmetric] mk_def [symmetric]
    by (auto split: sum.splits)
  note io = initNodes_ok [OF i]
  have ns: "ns = workflow_nodes g workers" by (simp add: io(1) workflow_nodes_def mk_def)
  show thesis using that [OF workers_def mk_def i [unfolded ns] n [unfolded ns] io(2-4) w] .
qed

text \<open>Configured connections between positions of the start order.\<close>

definition configured :: "Graph \<Rightarrow> (EdgeConfig \<Rightarrow> bool) \<Rightarrow> nat \<Rightarrow> nat set" where
  "configured g P i = {j. j < length (g_OrderedNodes g) \<and>
     (\<exists>e\<in>set (w_Edges (g_Config g)). e_Source e = n_ID (g_OrderedNodes g ! i) \<and>
        e_Target e = n_ID (g_OrderedNodes g ! j) \<and> port_ok e \<and> P e)}"

lemma configured_targets:
  assumes "index_ok n_ID (g_OrderedNodes g) im" "i < length (g_OrderedNodes g)"
  shows "edge_targets im (w_Edges (g_Config g)) P i = configured g P i"
  using assms by (auto simp: edge_targets_def configured_def index_ok_def) metis+

lemma workflow_nodes_nth:
  "i < length (g_OrderedNodes g) \<Longrightarrow> nd_table (workflow_nodes g ws ! i) = empty_table"
  "i < length (g_OrderedNodes g) \<Longrightarrow> nd_portTable (workflow_nodes g ws ! i) = replicate MaxPortCount empty_table"
  "length (workflow_nodes g ws) = length (g_OrderedNodes g)"
  by (simp_all add: workflow_nodes_def newSchedulerNode_def newLoopNode_def newBaseNode_def)

text \<open>C5. \<open>NewWorkflow\<close> wires the nodes exactly as configured: for every event kind the default
  route of a node leads to the targets of the edges of that kind that leave it with a port
  between 0 and the port limit, and the route of a port from 1 leads to the targets of the
  edges of that port. An edge with another port number adds no route.\<close>

theorem workflow_wiring_exact:
  assumes "NewWorkflow ctx g builders ah vh = Inr w" "i < length (g_OrderedNodes g)" "known_type t"
  shows "set (route t (nd_table (en_nodes (wf_engine w) ! i))) = configured g (\<lambda>e. e_Type e = t) i \<and>
    (\<forall>p<MaxPortCount. set (route t (nd_portTable (en_nodes (wf_engine w) ! i) ! p)) =
       (if p = 0 then {} else configured g (\<lambda>e. e_Type e = t \<and> e_SourcePort e = int p) i))"
proof (rule NewWorkflow_Inr [OF assms(1)])
  fix workers :: "worker list" and mk :: "string \<Rightarrow> node" and nodes exts im nm
  assume wn: "wireNodes im (w_Edges (g_Config g)) (workflow_nodes g workers) = (Inr nodes :: 'a workflow_error + node list)"
    and io: "index_ok n_ID (g_OrderedNodes g) im"
    and w: "w = \<lparr>wf_graph = g, wf_plugins = exts, wf_engine = \<lparr>en_ctx = ctx, en_sctx = ctx, en_nodes = nodes,
       en_workers = workers, en_audio = ah, en_video = vh\<rparr>, wf_indexMap = im, wf_nameMap = nm,
       wf_output = make_chan outputBufferSize, wf_state = Pending,
       wf_scheduler = (w_SchedulerMode (g_Config g) = SchedulerModeWorkerPool), wf_released = []\<rparr>"
  have r0: "route t empty_table = []" by (simp add: route_def empty_table_def)
  have pt: "\<forall>n\<in>set (workflow_nodes g workers). length (nd_portTable n) = MaxPortCount"
    by (auto simp: workflow_nodes_def newSchedulerNode_def newLoopNode_def newBaseNode_def)
  have ix: "\<forall>k i. im k = Some i \<longrightarrow> i < length (workflow_nodes g workers)"
    using io by (auto simp: index_ok_def workflow_nodes_nth)
  show ?thesis
    using wireNodes_ok [OF wn pt ix assms(3), of i] assms(2) configured_targets [OF io assms(2)]
    by (simp add: w workflow_nodes_nth r0)
qed

definition sample_workflow :: "(unit, (unit, unit) any) workflow" where
  "sample_workflow = \<lparr>wf_graph = \<lparr>g_Config = sample_config, g_OrderedNodes = [sample_node ''a'', sample_node ''b'']\<rparr>,
     wf_plugins = [(), ()],
     wf_engine = \<lparr>en_ctx = None, en_sctx = None, en_nodes = [addNextNode EventSignal 1 (newLoopNode ''a''), newLoopNode ''b''],
       en_workers = [], en_audio = mh_empty, en_video = mh_empty\<rparr>,
     wf_indexMap = [''a'' \<mapsto> 0, ''b'' \<mapsto> 1], wf_nameMap = [''a'' \<mapsto> 0, ''b'' \<mapsto> 1],
     wf_output = make_chan outputBufferSize, wf_state = Pending, wf_scheduler = False, wf_released = []\<rparr>"

lemma sample_workflow_new:
  "NewWorkflow None (wf_graph sample_workflow) (\<lambda>_. Some sample_builder) mh_empty mh_empty = Inr sample_workflow"
  by (simp add: NewWorkflow_def sample_workflow_def sample_config_def sample_node_def initNodes_def wire_edge_def
      sample_builder_def GenericBuilder_def GenericBuilder_Build_def)

theorem workflow_wiring_exact_witness:
  "set (route EventSignal (nd_table (en_nodes (wf_engine sample_workflow) ! 0))) =
     configured (wf_graph sample_workflow) (\<lambda>e. e_Type e = EventSignal) 0"
  using workflow_wiring_exact [OF sample_workflow_new, of 0 EventSignal]
  by (simp add: sample_workflow_def known_type_def)

section \<open>Which configurations become workflows\<close>

lemma init_nodes_iff:
  assumes "\<forall>c\<in>set cfgs. builders (n_ID c) \<noteq> None"
  shows "(\<exists>r. init_nodes builders mk cfgs (nodes, exts, im, nm) = Inr r) \<longleftrightarrow>
    distinct (map n_ID cfgs) \<and> distinct (map n_Name cfgs) \<and>
    (\<forall>c\<in>set cfgs. im (n_ID c) = None \<and> nm (n_Name c) = None \<and> (\<exists>ext. b_Build (the (builders (n_ID c))) (n_Config c) = Inr ext))"
  using assms
proof (induction cfgs arbitrary: nodes exts im nm)
  case (Cons c cfgs)
  then obtain b where b: "builders (n_ID c) = Some b" by auto
  show ?case
  proof (cases "b_Build b (n_Config c)")
    case (Inr ext)
    have "(\<exists>r. init_nodes builders mk (c # cfgs) (nodes, exts, im, nm) = Inr r) \<longleftrightarrow>
        im (n_ID c) = None \<and> nm (n_Name c) = None \<and>
        (\<exists>r. init_nodes builders mk cfgs (nodes @ [mk (n_Name c)], exts @ [ext],
           im(n_ID c \<mapsto> length nodes), nm(n_Name c \<mapsto> length nodes)) = Inr r)" by (auto simp: b Inr)
    moreover have "(im(n_ID c \<mapsto> length nodes)) k = None \<longleftrightarrow> k \<noteq> n_ID c \<and> im k = None"
      "(nm(n_Name c \<mapsto> length nodes)) k = None \<longleftrightarrow> k \<noteq> n_Name c \<and> nm k = None" for k by simp_all
    moreover have "\<forall>c\<in>set cfgs. builders (n_ID c) \<noteq> None" using Cons.prems by simp
    ultimately have "(\<exists>r. init_nodes builders mk (c # cfgs) (nodes, exts, im, nm) = Inr r) \<longleftrightarrow>
        im (n_ID c) = None \<and> nm (n_Name c) = None \<and> distinct (map n_ID cfgs) \<and> distinct (map n_Name cfgs) \<and>
        (\<forall>x\<in>set cfgs. (n_ID x \<noteq> n_ID c \<and> im (n_ID x) = None) \<and> (n_Name x \<noteq> n_Name c \<and> nm (n_Name x) = None) \<and>
           (\<exists>ext. b_Build (the (builders (n_ID x))) (n_Config x) = Inr ext))"
      by (simp only: Cons.IH)
    moreover have "distinct (map n_ID (c # cfgs)) \<longleftrightarrow> (\<forall>x\<in>set cfgs. n_ID x \<noteq> n_ID c) \<and> distinct (map n_ID cfgs)"
      "distinct (map n_Name (c # cfgs)) \<longleftrightarrow> (\<forall>x\<in>set cfgs. n_Name x \<noteq> n_Name c) \<and> distinct (map n_Name cfgs)"
      by (auto simp: image_iff)
    moreover have "\<exists>ext. b_Build (the (builders (n_ID c))) (n_Config c) = Inr ext" by (simp add: b Inr)
    ultimately show ?thesis unfolding list.set ball_simps by blast
  qed (auto simp: b)
qed simp

lemma wireNodes_iff:
  "(\<exists>ns'. wireNodes im es ns = Inr ns') \<longleftrightarrow> (\<forall>e\<in>set es. e_Source e \<in> dom im \<and> e_Target e \<in> dom im)"
  by (induction es arbitrary: ns) (auto split: option.splits)

lemma index_ok_dom: "index_ok key cs m \<Longrightarrow> dom m = key ` set cs"
  unfolding index_ok_def by (auto simp: dom_def set_conv_nth)

lemma NewWorkflow_iff:
  assumes "\<forall>c\<in>set (g_OrderedNodes g). builders (n_ID c) \<noteq> None"
    and "\<forall>e\<in>set (w_Edges (g_Config g)). e_Source e \<in> n_ID ` set (g_OrderedNodes g) \<and> e_Target e \<in> n_ID ` set (g_OrderedNodes g)"
  shows "(\<exists>w. NewWorkflow ctx g builders ah vh = Inr w) \<longleftrightarrow>
    distinct (map n_ID (g_OrderedNodes g)) \<and> distinct (map n_Name (g_OrderedNodes g)) \<and>
    (\<forall>c\<in>set (g_OrderedNodes g). \<exists>ext. b_Build (the (builders (n_ID c))) (n_Config c) = Inr ext)"
proof -
  let ?nw = "\<exists>w. NewWorkflow ctx g builders ah vh = Inr w"
  define workers where "workers = (if w_SchedulerMode (g_Config g) = SchedulerModeWorkerPool then NewScheduler (pool_size g) 128 else [])"
  define mk where "mk = (if w_SchedulerMode (g_Config g) = SchedulerModeWorkerPool then newSchedulerNode workers else newLoopNode)"
  have fwd: "?nw \<Longrightarrow> \<exists>r. initNodes builders mk (g_OrderedNodes g) = Inr r"
    unfolding NewWorkflow_def Let_def workers_def [symmetric] mk_def [symmetric] by (auto split: sum.splits)
  have bwd: ?nw if "initNodes builders mk (g_OrderedNodes g) = Inr r" for r
  proof -
    obtain nodes exts im nm where r: "r = (nodes, exts, im, nm)" by (cases r)
    from assms(2) have "\<exists>ns. wireNodes im (w_Edges (g_Config g)) nodes = (Inr ns :: 'a workflow_error + node list)"
      unfolding wireNodes_iff index_ok_dom [OF initNodes_ok(2) [OF that [unfolded r]]] .
    then show ?thesis
      unfolding NewWorkflow_def Let_def workers_def [symmetric] mk_def [symmetric] by (auto simp: that r)
  qed
  have "(\<exists>r. initNodes builders mk (g_OrderedNodes g) = Inr r) \<longleftrightarrow>
      distinct (map n_ID (g_OrderedNodes g)) \<and> distinct (map n_Name (g_OrderedNodes g)) \<and>
      (\<forall>c\<in>set (g_OrderedNodes g). \<exists>ext. b_Build (the (builders (n_ID c))) (n_Config c) = Inr ext)"
    unfolding initNodes_def init_nodes_iff [OF assms(1)] by simp
  then show ?thesis using fwd bwd by blast
qed

text \<open>C6. A configuration that \<open>BuildGraph\<close> accepted becomes a workflow exactly when its node names are
  unique and every plugin builds from its configuration; wiring never fails then, since
  \<open>BuildGraph\<close> checked the edges. Node names are not checked by \<open>BuildGraph\<close>.\<close>

theorem accepted_graph_instantiates:
  assumes "BuildGraph ids rest_ids config builders = Inr g"
    and "distinct ids" "set ids = n_ID ` set (w_Nodes config)" "distinct rest_ids" "set rest_ids = set ids"
    and "\<forall>n\<in>set (w_Nodes config). builders (n_ID n) \<noteq> None"
  shows "(\<exists>w. NewWorkflow ctx g builders ah vh = Inr w) \<longleftrightarrow>
    distinct (map n_Name (w_Nodes config)) \<and>
    (\<forall>n\<in>set (w_Nodes config). \<exists>ext. b_Build (the (builders (n_ID n))) (n_Config n) = Inr ext)"
proof -
  have perm: "mset (g_OrderedNodes g) = mset (w_Nodes config)" using ordered_nodes [OF assms(1-5)] by blast
  then have set: "set (g_OrderedNodes g) = set (w_Nodes config)" by (rule mset_eq_setD)
  have dist: "distinct (map f (g_OrderedNodes g)) = distinct (map f (w_Nodes config))" for f :: "NodeConfig \<Rightarrow> string"
    by (rule mset_eq_imp_distinct_iff) (simp add: perm)
  note b = BuildGraph_Inr [OF assms(1)]
  have "g_Config g = config" by (simp add: b(1))
  moreover have "\<forall>e\<in>set (w_Edges config). e_Source e \<in> n_ID ` set (w_Nodes config) \<and> e_Target e \<in> n_ID ` set (w_Nodes config)"
    using b(3) by (auto simp: edge_ok_def)
  ultimately show ?thesis
    using NewWorkflow_iff [of g builders ctx ah vh, unfolded set dist] assms(6) b(2) by simp
qed

theorem accepted_graph_instantiates_witness:
  "\<exists>w. NewWorkflow None (wf_graph sample_workflow) (\<lambda>_. Some sample_builder) mh_empty mh_empty = Inr w"
proof -
  have g: "BuildGraph [''b'', ''a''] [''a'', ''b''] sample_config (\<lambda>_. Some sample_builder) = Inr (wf_graph sample_workflow)"
    using sample_graph by (simp add: sample_workflow_def)
  have s: "set [''b'', ''a''] = n_ID ` set (w_Nodes sample_config)" "distinct (map n_Name (w_Nodes sample_config))"
    by (simp_all add: sample_config_def sample_node_def)
  have b: "\<exists>ext. b_Build (the (Some sample_builder)) (n_Config n) = Inr ext" if "n \<in> set (w_Nodes sample_config)" for n
    using that by (auto simp: sample_config_def sample_node_def sample_builder_def GenericBuilder_def GenericBuilder_Build_def)
  have "(\<exists>w. NewWorkflow None (wf_graph sample_workflow) (\<lambda>_. Some sample_builder) mh_empty mh_empty = Inr w) \<longleftrightarrow>
      distinct (map n_Name (w_Nodes sample_config)) \<and>
      (\<forall>n\<in>set (w_Nodes sample_config). \<exists>ext. b_Build (the (Some sample_builder)) (n_Config n) = Inr ext)"
    by (rule accepted_graph_instantiates [OF g _ s(1)]) (auto simp: insert_commute)
  then show ?thesis using s(2) b by blast
qed


lemma wireNodes_length: "wireNodes im es ns = (Inr ns' :: 'e workflow_error + node list) \<Longrightarrow> length ns' = length ns"
  by (induction es arbitrary: ns) (auto simp: wire_edge_def split: option.splits if_splits)

lemma table_nodes_routes:
  "table_nodes tb \<subseteq> A \<longleftrightarrow> (\<forall>t. known_type t \<longrightarrow> set (route t tb) \<subseteq> A)"
  by (auto simp: table_nodes_def route_def known_type_def subset_iff)

lemma edge_targets_bound: "\<forall>k i. im k = Some i \<longrightarrow> i < n \<Longrightarrow> edge_targets im es P i \<subseteq> {..<n}"
  by (auto simp: edge_targets_def)

lemma new_workflow_fresh:
  fixes builders :: "string \<rightharpoonup> ('e, 'p) PluginBuilder"
  assumes "NewWorkflow ctx g builders mh_empty mh_empty = Inr w"
  shows "fresh_engine (wf_engine w)"
proof (rule NewWorkflow_Inr [OF assms])
  fix workers :: "worker list" and mk :: "string \<Rightarrow> node" and nodes exts im nm
  assume workers: "workers = (if w_SchedulerMode (g_Config g) = SchedulerModeWorkerPool then NewScheduler (pool_size g) 128 else [])"
    and wn: "wireNodes im (w_Edges (g_Config g)) (workflow_nodes g workers) = (Inr nodes :: 'e workflow_error + node list)"
    and io: "index_ok n_ID (g_OrderedNodes g) im"
    and w: "w = \<lparr>wf_graph = g, wf_plugins = exts, wf_engine = \<lparr>en_ctx = ctx, en_sctx = ctx, en_nodes = nodes,
       en_workers = workers, en_audio = mh_empty, en_video = mh_empty\<rparr>, wf_indexMap = im, wf_nameMap = nm,
       wf_output = make_chan outputBufferSize, wf_state = Pending,
       wf_scheduler = (w_SchedulerMode (g_Config g) = SchedulerModeWorkerPool), wf_released = []\<rparr>"
  let ?L = "length (g_OrderedNodes g)" and ?n0 = "workflow_nodes g workers"
  have pt: "\<forall>n\<in>set ?n0. length (nd_portTable n) = MaxPortCount"
    by (auto simp: workflow_nodes_def newSchedulerNode_def newLoopNode_def newBaseNode_def)
  have ix: "\<forall>k i. im k = Some i \<longrightarrow> i < length ?n0" using io by (auto simp: index_ok_def workflow_nodes_nth)
  note ok = wireNodes_ok [OF wn pt ix]
  have len: "length nodes = ?L" using wireNodes_length [OF wn] by (simp add: workflow_nodes_nth)
  have r0: "route t empty_table = []" for t by (simp add: route_def empty_table_def)
  have tgt: "edge_targets im es P i \<subseteq> {..<?L}" for es P i using edge_targets_bound [OF ix] by (simp add: workflow_nodes_nth)
  have rt: "same_runtime (?n0 ! i) (nodes ! i)" if "i < ?L" for i
    using ok [of EventSignal i] that by (simp add: known_type_def workflow_nodes_nth)
  have tab: "table_nodes (nd_table (nodes ! i)) \<subseteq> {..<?L}" if "i < ?L" for i
    unfolding table_nodes_routes using ok [of _ i] that tgt by (simp add: workflow_nodes_nth r0)
  have ptab: "table_nodes (nd_portTable (nodes ! i) ! p) \<subseteq> {..<?L}" if "i < ?L" "p < MaxPortCount" for i p
    unfolding table_nodes_routes using ok [of _ i] that tgt by (simp add: workflow_nodes_nth r0)
  have kind: "nd_kind (nodes ! i) = SchedulerNode k \<Longrightarrow> k < length workers" if "i < ?L" for i k
  proof -
    assume k: "nd_kind (nodes ! i) = SchedulerNode k"
    have "nd_kind (nodes ! i) = nd_kind (?n0 ! i)" using rt [OF that] by (simp add: same_runtime_def)
    with k that have "w_SchedulerMode (g_Config g) = SchedulerModeWorkerPool \<and> k = selector workers (n_Name (g_OrderedNodes g ! i))"
      by (simp add: workflow_nodes_def newLoopNode_def newSchedulerNode_def newBaseNode_def split: if_splits)
    then show ?thesis using workers by (auto simp: selector_def NewScheduler_def Let_def)
  qed
  have bufs: "ch_buf (nd_audioChan (nodes ! i)) = [] \<and> ch_buf (nd_videoChan (nodes ! i)) = [] \<and>
      length (nd_portTable (nodes ! i)) = MaxPortCount" if "i < ?L" for i
    using rt [OF that] that by (simp add: same_runtime_def workflow_nodes_def newLoopNode_def newSchedulerNode_def
        newBaseNode_def make_chan_def)
  have in_tab: "x < ?L" if "x \<in> table_nodes (nd_table (nodes ! i))" "i < ?L" for x i using tab that by blast
  have in_ptab: "x < ?L" if "x \<in> table_nodes (nd_portTable (nodes ! i) ! p)" "i < ?L" "p < MaxPortCount" for x i p
    using ptab that by blast
  have "wired (wf_engine w)"
    using kind bufs
    by (auto simp: wired_def shape_def w len in_set_conv_nth dest: in_tab) (erule (2) in_ptab)
  then show ?thesis
    using bufs workers by (auto simp: fresh_engine_def w len in_set_conv_nth NewScheduler_def newWorker_def make_chan_def Let_def)
qed



section \<open>Output packets\<close>

text \<open>
  The goroutines around the output: producers inside \<open>Write\<close> (\<open>pk_pending\<close>, past the state
  check), one consumer (\<open>pk_received\<close>) and callers of \<open>Stop\<close> that won the swap and have not
  closed the channel yet (\<open>pk_stopping\<close>).
\<close>

record ('p, 'v) packets_state =
  pk_wf :: "('p, 'v) workflow"
  pk_pending :: "nat list"
  pk_received :: "nat list"
  pk_stopping :: nat
  pk_panic :: bool

datatype packet_op =
    PkWrite nat
  | PkSelect bool nat
  | PkRecv
  | PkStart "nat \<Rightarrow> unit option"
  | PkPause
  | PkResume
  | PkStop
  | PkClose
  | PkDrain

fun packet_step :: "packet_op \<Rightarrow> ('p, 'v) packets_state \<Rightarrow> ('p, 'v) packets_state" where
  "packet_step (PkWrite p) s =
     (case Write_check p (pk_wf s) of
        (w, go) \<Rightarrow> if go then s\<lparr>pk_pending := p # pk_pending s\<rparr> else s\<lparr>pk_wf := w\<rparr>)"
| "packet_step (PkSelect d i) s =
     (if i < length (pk_pending s)
      then s\<lparr>pk_wf := Write_select d (pk_pending s ! i) (pk_wf s),
             pk_pending := take i (pk_pending s) @ drop (Suc i) (pk_pending s)\<rparr>
      else s)"
| "packet_step PkRecv s =
     (case recv (wf_output (pk_wf s)) of
        None \<Rightarrow> s
      | Some (p, out) \<Rightarrow> s\<lparr>pk_wf := (pk_wf s)\<lparr>wf_output := out\<rparr>, pk_received := pk_received s @ [p]\<rparr>)"
| "packet_step (PkStart onStart) s = s\<lparr>pk_wf := fst (Start onStart (pk_wf s))\<rparr>"
| "packet_step PkPause s = s\<lparr>pk_wf := fst (Pause (pk_wf s) :: _ \<times> unit workflow_error option \<times> _)\<rparr>"
| "packet_step PkResume s = s\<lparr>pk_wf := fst (Resume (pk_wf s) :: _ \<times> unit workflow_error option \<times> _)\<rparr>"
| "packet_step PkStop s =
     (case Stop_claim (pk_wf s) of
        (w, won) \<Rightarrow> if won then s\<lparr>pk_wf := Stop_nodes w, pk_stopping := Suc (pk_stopping s)\<rparr> else s\<lparr>pk_wf := w\<rparr>)"
| "packet_step PkClose s =
     (if pk_stopping s = 0 then s
      else
        case Stop_close (pk_wf s) of
          None \<Rightarrow> s\<lparr>pk_stopping := pk_stopping s - 1, pk_panic := True\<rparr>
        | Some w \<Rightarrow> s\<lparr>pk_wf := w, pk_stopping := pk_stopping s - 1\<rparr>)"
| "packet_step PkDrain s = (if ch_closed (wf_output (pk_wf s)) then s\<lparr>pk_wf := Stop_drain1 (pk_wf s)\<rparr> else s)"

fun written :: "packet_op list \<Rightarrow> nat list" where
  "written [] = []"
| "written (PkWrite p # ops) = p # written ops"
| "written (_ # ops) = written ops"

definition packets_ok :: "nat multiset \<Rightarrow> ('p, 'v) packets_state \<Rightarrow> bool" where
  "packets_ok W s \<longleftrightarrow>
     W = mset (pk_pending s) + mset (ch_buf (wf_output (pk_wf s))) + mset (pk_received s) + mset (wf_released (pk_wf s)) \<and>
     \<not> pk_panic s \<and> pk_stopping s \<le> 1 \<and> (pk_stopping s = 1 \<or> ch_closed (wf_output (pk_wf s)) \<longrightarrow> wf_state (pk_wf s) = Stopped) \<and>
     (ch_closed (wf_output (pk_wf s)) \<longrightarrow> pk_stopping s = 0) \<and>
     length (ch_buf (wf_output (pk_wf s))) \<le> ch_cap (wf_output (pk_wf s))"

lemma start_run_fields:
  "wf_output (fst (Start f w)) = wf_output w" "wf_released (fst (Start f w)) = wf_released w"
  "wf_state w = Stopped \<Longrightarrow> wf_state (fst (Start f w)) = Stopped"
  by (auto simp: Start_def Start_claim_def Start_run_def split: option.splits prod.splits)

lemma mset_take_drop: "i < length xs \<Longrightarrow> mset xs = add_mset (xs ! i) (mset (take i xs @ drop (Suc i) xs))"
  by (metis id_take_nth_drop mset.simps(2) mset_append union_mset_add_mset_right)

lemma packet_step_ok:
  assumes "packets_ok W s"
  shows "packets_ok (W + mset (written [op])) (packet_step op s)"
proof (cases op)
  case (PkSelect d i)
  then show ?thesis
    using assms mset_take_drop [of i "pk_pending s"]
    by (auto simp: packets_ok_def Write_select_def push_def chan_full_def)
qed (use assms in \<open>auto simp: packets_ok_def Write_check_def Stop_claim_def Stop_nodes_def Stop_close_def Stop_drain1_def
    start_run_fields Pause_def Resume_def recv_Some_iff split: option.splits prod.splits\<close>)

lemma packet_run_ok: "packets_ok W s \<Longrightarrow> packets_ok (W + mset (written ops)) (fold packet_step ops s)"
proof (induction ops arbitrary: W s)
  case (Cons op ops)
  have "mset (written (op # ops)) = mset (written [op]) + mset (written ops)" by (cases op) simp_all
  then show ?case using Cons.IH [OF packet_step_ok [OF Cons.prems]] by (simp add: add.assoc)
qed simp

definition packets_start :: "('p, 'v) workflow \<Rightarrow> ('p, 'v) packets_state" where
  "packets_start w = \<lparr>pk_wf = w, pk_pending = [], pk_received = [], pk_stopping = 0, pk_panic = False\<rparr>"


definition sample_traffic :: "packet_op list" where
  "sample_traffic = [PkStart (\<lambda>_. None), PkWrite 7, PkWrite 8, PkSelect False 1, PkStop, PkClose, PkSelect False 0, PkDrain]"


section \<open>Start and stop\<close>

lemma start_nodes_none: "snd (start_nodes (\<lambda>_. None) i n en) = None"
  by (induction n arbitrary: i en) (simp_all add: node_Start_def split: prod.splits)

lemma node_Stop_ctx [simp]: "en_ctx (node_Stop i en) = en_ctx en" "en_sctx (node_Stop i en) = en_sctx en"
  by (simp_all add: node_Stop_def loop_Stop_def scheduler_Stop_def upd_node_def Let_def split: node_kind.split)

lemma clearStartError_ctx [simp]:
  "en_ctx (clearStartError i en) = en_ctx en" "en_sctx (clearStartError i en) = en_sctx en"
  by (induction i arbitrary: en) simp_all

lemma start_nodes_ctx:
  "en_ctx (fst (start_nodes f i n en)) = en_ctx en" "en_sctx (fst (start_nodes f i n en)) = en_sctx en"
  by (induction n arbitrary: i en) (auto simp: node_Start_def upd_node_def split: option.splits)

lemma drain_output:
  "(Stop_drain1 ^^ length (ch_buf (wf_output w))) w =
     w\<lparr>wf_output := (wf_output w)\<lparr>ch_buf := []\<rparr>, wf_released := wf_released w @ ch_buf (wf_output w)\<rparr>"
proof (induction "ch_buf (wf_output w)" arbitrary: w)
  case (Cons x xs)
  let ?w = "Stop_drain1 w"
  have "ch_buf (wf_output w) = x # xs" using Cons by simp
  then have w: "?w = w\<lparr>wf_output := (wf_output w)\<lparr>ch_buf := xs\<rparr>, wf_released := wf_released w @ [x]\<rparr>"
    by (simp add: Stop_drain1_def recv_def)
  have "(Stop_drain1 ^^ length (ch_buf (wf_output w))) w = (Stop_drain1 ^^ length (ch_buf (wf_output ?w))) ?w"
    using \<open>ch_buf (wf_output w) = x # xs\<close> by (simp add: w funpow_swap1)
  then show ?case using Cons(1) [of ?w] \<open>ch_buf (wf_output w) = x # xs\<close> by (simp add: w)
qed simp

lemma Stop_eq:
  "Stop w = (if wf_state w = Stopped then Some w
     else if ch_closed (wf_output w) then None
     else Some (w\<lparr>wf_state := Stopped,
        wf_engine := fold node_Stop [0..<length (en_nodes (wf_engine w))] (cancel_engine (wf_scheduler w) (wf_engine w)),
        wf_released := wf_released w @ ch_buf (wf_output w),
        wf_output := (wf_output w)\<lparr>ch_closed := True, ch_buf := []\<rparr>\<rparr>))"
  by (cases w) (auto simp: Stop_def Stop_claim_def Stop_close_def Stop_nodes_def drain_output)

lemma fold_node_Stop_ctx: "en_ctx (fold node_Stop is en) = en_ctx en \<and> en_sctx (fold node_Stop is en) = en_sctx en"
  by (induction "is" arbitrary: en) simp_all

lemma Stop_ctx:
  assumes "wf_state w \<noteq> Stopped" "\<not> ch_closed (wf_output w)"
  shows "\<exists>w'. Stop w = Some w' \<and> ch_closed (wf_output w') \<and> en_ctx (wf_engine w') \<noteq> None"
  using assms by (auto simp: Stop_eq cancel_engine_def Scheduler_Stop_def fold_node_Stop_ctx Let_def)

text \<open>C9. \<open>Stop\<close> leaves a stopped workflow with a cancelled context and a closed, empty output, keeps the
  packets of the output in order for the pool, and stopping again changes nothing.\<close>

theorem stop_stops:
  assumes "wf_state w \<noteq> Stopped" "\<not> ch_closed (wf_output w)"
  shows "\<exists>w'. Stop w = Some w' \<and> wf_state w' = Stopped \<and> en_ctx (wf_engine w') \<noteq> None \<and> en_sctx (wf_engine w') \<noteq> None \<and>
    ch_closed (wf_output w') \<and> ch_buf (wf_output w') = [] \<and> wf_released w' = wf_released w @ ch_buf (wf_output w) \<and>
    (\<forall>i<length (en_nodes (wf_engine w')). \<not> nd_running (en_nodes (wf_engine w') ! i)) \<and> Stop w' = Some w'"
proof -
  have stop1: "length (en_nodes (node_Stop i en)) = length (en_nodes en) \<and>
      (j < length (en_nodes en) \<longrightarrow> nd_running (en_nodes (node_Stop i en) ! j) = (j \<noteq> i \<and> nd_running (en_nodes en ! j)))"
    for i j and en :: "'b engine"
    by (cases "j = i") (auto simp: node_Stop_def loop_Stop_def scheduler_Stop_def upd_node_def Let_def split: node_kind.split)
  have "length (en_nodes (fold node_Stop is en)) = length (en_nodes en) \<and>
      (j < length (en_nodes en) \<longrightarrow> nd_running (en_nodes (fold node_Stop is en) ! j) = (j \<notin> set is \<and> nd_running (en_nodes en ! j)))"
    for "is" j and en :: "'b engine"
    by (induction "is" arbitrary: en) (auto simp: stop1)
  then show ?thesis
    using assms by (auto simp: Stop_eq cancel_engine_def Scheduler_Stop_def fold_node_Stop_ctx Let_def)
qed

theorem stop_stops_witness:
  "\<exists>w'. Stop sample_workflow = Some w' \<and> wf_state w' = Stopped \<and> Stop w' = Some w'"
  using stop_stops [of sample_workflow] by (auto simp: sample_workflow_def make_chan_def)

text \<open>C10. A \<open>Start\<close> that overlaps with \<open>Stop\<close> revives the workflow: \<open>Start\<close> stores the running state without
  looking at it again, so a workflow stopped between its compare-and-swap and that store ends
  up running with a cancelled context and a closed output, and the next \<open>Stop\<close> panics when it
  closes the output a second time.\<close>

theorem stop_during_start_panics:
  assumes "wf_state w = Pending" "\<not> ch_closed (wf_output w)"
  shows "\<exists>w1 w2 w3. Start_claim w = Some w1 \<and> Stop w1 = Some w2 \<and> Start_run (\<lambda>_. None :: 'e option) w2 = (w3, None) \<and>
    wf_state w3 = Running \<and> en_ctx (wf_engine w3) \<noteq> None \<and> Stop w3 = None"
proof -
  define w1 where "w1 = w\<lparr>wf_state := Starting\<rparr>"
  have "wf_state w1 \<noteq> Stopped" "\<not> ch_closed (wf_output w1)" using assms by (simp_all add: w1_def)
  then obtain w2 where w2: "Stop w1 = Some w2" "ch_closed (wf_output w2)" "en_ctx (wf_engine w2) \<noteq> None"
    using Stop_ctx by blast
  obtain en where en: "start_nodes (\<lambda>_. None :: 'e option) 0 (length (en_nodes (wf_engine w2))) (wf_engine w2) = (en, None)"
    using start_nodes_none by (metis prod.collapse)
  then have "en_ctx en = en_ctx (wf_engine w2)" using start_nodes_ctx(1) [of "\<lambda>_. None"] by (metis fst_conv)
  then show ?thesis using assms w2 en by (auto simp: Start_claim_def Start_run_def w1_def [symmetric] Stop_eq)
qed

theorem stop_during_start_panics_witness:
  "\<exists>w1 w2 w3. Start_claim sample_workflow = Some w1 \<and> Stop w1 = Some w2 \<and> Start_run (\<lambda>_. None :: unit option) w2 = (w3, None) \<and>
    wf_state w3 = Running \<and> Stop w3 = None"
  using stop_during_start_panics [of sample_workflow, where 'e = unit] by (auto simp: sample_workflow_def make_chan_def)

text \<open>C11. A failed \<open>Start\<close> cannot be cleaned up: the nodes started so far are stopped and the workflow
  counts as stopped, but neither its context nor the scheduler is cancelled and the output
  stays open, and since \<open>Stop\<close> does nothing on a stopped workflow they stay that way until the parent
  context ends.\<close>

theorem failed_start_never_released:
  assumes "Start onStart w = (w', Some (NodeStartFailed name err))"
  shows "Stop w' = Some w' \<and> wf_state w' = Stopped \<and> en_ctx (wf_engine w') = en_ctx (wf_engine w) \<and>
    en_sctx (wf_engine w') = en_sctx (wf_engine w) \<and> wf_output w' = wf_output w"
proof -
  have p: "wf_state w = Pending" using assms by (auto simp: Start_def Start_claim_def split: if_splits)
  obtain en i where "start_nodes onStart 0 (length (en_nodes (wf_engine w))) (wf_engine w) = (en, Some (i, err))"
    and w': "w' = w\<lparr>wf_engine := en, wf_state := Stopped\<rparr>"
    using assms p by (auto simp: Start_def Start_claim_def Start_run_def split: prod.splits option.splits)
  then have "en_ctx en = en_ctx (wf_engine w)" "en_sctx en = en_sctx (wf_engine w)"
    using start_nodes_ctx [of onStart 0 "length (en_nodes (wf_engine w))" "wf_engine w"] by simp_all
  then show ?thesis by (simp add: w' Stop_eq)
qed

theorem failed_start_never_released_witness:
  "\<exists>w'. Start (\<lambda>i. if i = 1 then Some () else None) sample_workflow = (w', Some (NodeStartFailed ''b'' ())) \<and>
     Stop w' = Some w' \<and> en_ctx (wf_engine w') = None"
proof -
  obtain w' where w': "Start (\<lambda>i. if i = 1 then Some () else None) sample_workflow = (w', Some (NodeStartFailed ''b'' ()))"
    by (simp add: Start_def Start_claim_def Start_run_def sample_workflow_def numeral_2_eq_2 node_Start_def upd_node_def
        newLoopNode_def newBaseNode_def node_Stop_def loop_Stop_def Let_def addNextNode_def)
  moreover have "en_ctx (wf_engine sample_workflow) = None" by (simp add: sample_workflow_def)
  ultimately show ?thesis using failed_start_never_released [OF w'] by auto
qed

section \<open>Deliveries take one reference\<close>

definition maps_ok :: "('p, 'v) workflow \<Rightarrow> bool" where
  "maps_ok w \<longleftrightarrow> engine_ok (wf_engine w) \<and> wired (wf_engine w) \<and>
     ran (wf_indexMap w) \<union> ran (wf_nameMap w) \<subseteq> {..<length (en_nodes (wf_engine w))}"

lemma deliver_gave:
  assumes "engine_ok (wf_engine w)" "wired (wf_engine w)" "ran m \<subseteq> {..<length (en_nodes (wf_engine w))}"
    and "media e" "0 < slack (wf_engine w) e" "deliver m k e w = (w', err, parked)"
  shows "\<not> parked \<and> (if err = None then gave (wf_engine w) (wf_engine w') e else w' = w)"
proof (cases "m k")
  case (Some i)
  then have i: "i < length (en_nodes (wf_engine w))" using assms(3) by (auto simp: ran_def)
  obtain en p where "Input i e (wf_engine w) = (en, p)" by (cases "Input i e (wf_engine w)")
  with Input_gave [OF assms(1,2) i _ this] assms(4-6) Some show ?thesis by (auto simp: deliver_def)
qed (use assms(6) in \<open>auto simp: deliver_def\<close>)

lemma broadcast_gave:
  assumes "engine_ok en" "wired en" "set is \<subseteq> {..<length (en_nodes en)}" "media e" "0 < slack en e"
    and "broadcast_nodes e is en = (en', rest)"
  shows "rest = [] \<and> gave en en' e"
  using assms
proof (induction "is" arbitrary: en)
  case Nil
  then show ?case using gave_release [of en e] by auto
next
  case (Cons i "is")
  let ?r = "retain_ev e en"
  have r: "engine_ok ?r" "shape ?r = shape en" "slack ?r = (slack en)(e := slack en e + 1)"
    using retain_n [OF Cons.prems(1) slack_refs [OF Cons.prems(5)], of 1] by simp_all
  obtain en1 p where i: "Input i e ?r = (en1, p)" by (cases "Input i e ?r")
  have "wired ?r" "i < length (en_nodes ?r)" "media e \<longrightarrow> 0 < slack ?r e"
    using Cons.prems r by (auto simp: wired_cong [OF r(2)] shape_length [OF r(2)])
  from Input_gave [OF r(1) this i] Cons.prems(4) r
  have g: "\<not> p" "engine_ok en1" "shape en1 = shape en" "slack en1 = slack en" by (auto simp: gave_def)
  have "rest = [] \<and> gave en1 en' e"
    using Cons.prems g i wired_cong [OF g(3)] shape_length [OF g(3)] by (intro Cons.IH) auto
  then show ?case using g by (simp add: gave_def)
qed

text \<open>C7. Handing a media object to a workflow passes on exactly one reference when the call succeeds, and
  changes nothing when it fails, for each of the four entry points; \<open>Broadcast\<close> takes its
  extra references itself. No entry point blocks on media.\<close>

theorem deliveries_take_one_reference:
  fixes w :: "('a, 'b) workflow"
  assumes "maps_ok w" "media e" "0 < slack (wf_engine w) e"
  shows "(\<forall>w' (err :: 'c workflow_error option) parked. (SendToHead e w = (w', err, parked) \<or> SendToNode k e w = (w', err, parked) \<or>
          SendToNodeWithName k e w = (w', err, parked)) \<longrightarrow>
        \<not> parked \<and> (if err = None then gave (wf_engine w) (wf_engine w') e else w' = w)) \<and>
    (\<forall>w' (err :: 'd workflow_error option) rest. Broadcast e w = (w', err, rest) \<longrightarrow>
        rest = [] \<and> (if err = None then gave (wf_engine w) (wf_engine w') e else w' = w))"
proof -
  have ok: "engine_ok (wf_engine w)" "wired (wf_engine w)"
    "ran (wf_indexMap w) \<subseteq> {..<length (en_nodes (wf_engine w))}" "ran (wf_nameMap w) \<subseteq> {..<length (en_nodes (wf_engine w))}"
    using assms(1) by (auto simp: maps_ok_def)
  define one where "one w' err parked \<longleftrightarrow> \<not> parked \<and> (if err = None then gave (wf_engine w) (wf_engine w') e else w' = w)"
    for w' :: "('a, 'b) workflow" and err :: "'c workflow_error option" and parked
  have d: "deliver (wf_indexMap w) k' e w = (w', err, parked) \<Longrightarrow> one w' err parked"
    and n: "deliver (wf_nameMap w) k' e w = (w', err, parked) \<Longrightarrow> one w' err parked" for k' w' err parked
    unfolding one_def by (rule deliver_gave [OF ok(1,2,3) assms(2,3)] deliver_gave [OF ok(1,2,4) assms(2,3)], assumption)+
  have fail: "one w (Some err) False" for err by (simp add: one_def)
  have h: "SendToHead e w = (w', err, parked) \<Longrightarrow> one w' err parked" for w' err parked
    using d fail by (auto simp: SendToHead_def ensureRunning_def deliverTo_def Let_def split: option.splits if_splits)
  have i: "SendToNode k e w = (w', err, parked) \<Longrightarrow> one w' err parked" for w' err parked
    using d fail by (auto simp: SendToNode_def ensureRunning_def deliverTo_def split: option.splits)
  have m: "SendToNodeWithName k e w = (w', err, parked) \<Longrightarrow> one w' err parked" for w' err parked
    using n fail by (auto simp: SendToNodeWithName_def ensureRunning_def split: option.splits)
  have b: "Broadcast e w = (w', err, rest) \<Longrightarrow>
      rest = [] \<and> (if err = None then gave (wf_engine w) (wf_engine w') e else w' = w)"
    for w' rest and err :: "'d workflow_error option"
    using broadcast_gave [OF ok(1,2) _ assms(2,3), of "[0..<length (en_nodes (wf_engine w))]"]
    by (auto simp: Broadcast_def atLeast0LessThan split: option.splits prod.splits)
  show ?thesis using h i m b unfolding one_def by blast
qed

theorem deliveries_take_one_reference_witness:
  "\<exists>w :: (unit, (unit, unit) any) workflow. 0 < slack (wf_engine w) (EvAudio 0) \<and>
     (\<forall>w' (err :: unit workflow_error option) rest. Broadcast (EvAudio 0) w = (w', err, rest) \<longrightarrow> rest = [])"
proof -
  obtain en held where s: "fold engine_step [ONew (Inl (None, ''pcm'', 16000, 1))] (wf_engine sample_workflow, \<lambda>_. 0) = (en, held)"
    by (meson surj_pair)
  have l: "ledger_ok (en, held)"
    using ledger_run [OF fresh_ledger [OF new_workflow_fresh [OF sample_workflow_new]], of "[ONew (Inl (None, ''pcm'', 16000, 1))]"] s
    by simp
  have h: "held (EvAudio 0) = 1" "en_nodes en = en_nodes (wf_engine sample_workflow)"
    using s by (auto simp: gain_def audio_new_def NewAudio_def sample_workflow_def mh_empty_def mh_acquire_def mh_gauge_def Pool_Acquire_def
        Let_def split: prod.splits)
  define w where "w = sample_workflow\<lparr>wf_engine := en\<rparr>"
  have "maps_ok w" using ledgerD(1,2) [OF l] h(2) by (auto simp: maps_ok_def w_def sample_workflow_def ran_def split: if_splits)
  moreover have "0 < slack (wf_engine w) (EvAudio 0)" using ledgerD(4) [OF l, of "EvAudio 0"] h(1) by (simp add: owns_def w_def)
  ultimately show ?thesis
    using deliveries_take_one_reference [of w "EvAudio 0", where 'd = unit and 'c = unit] by (intro exI [of _ w]) auto
qed

end
