(* ===== verification/ConfigStore.thy ===== *)
theory ConfigStore
  imports Graph
begin

text \<open>
  \<open>internal/engine/manager.go\<close>: the two stores of workflow configurations behind the interface
  \<open>WorkflowConfigManager\<close>, one on files and one on Redis.

  The file store keeps its two maps in memory and one file per configuration; \<open>fs_disk\<close> maps
  file names (relative to the directory) to contents. The Redis store is the two hashes its
  Lua scripts work on; a script is atomic. The JSON codec (\<open>sonic\<close>, \<open>cjson\<close>) is a parameter, and a text an abstract value:
  \<open>enc\<close> may fail, \<open>dec\<close> and \<open>name_of\<close> read a stored text. What the operating system and the
  network answer are arguments of the operations, as is the identifier that \<open>uuid\<close> makes.
  File names are taken as they are: identifiers with path separators are out of scope.
\<close>

datatype 'e config_error =
    WorkflowNotFound
  | WorkflowNameExists
  | PluginsUnresolved "'e registry_error"
  | ConfigInvalid graph_error
  | MarshalFailed
  | DecodeFailed
  | IoFailed string

text \<open>The validation both stores run before they save; the orders are those of Go's map iterations.\<close>

type_synonym map_orders = "string list \<times> string list \<times> string list"

definition check_config :: "map_orders \<Rightarrow> ('e, 'p) PluginStore option \<Rightarrow> WorkflowConfig \<Rightarrow> 'e config_error option" where
  "check_config ords store cfg =
     (case ords of (order, ids, rest_ids) \<Rightarrow>
        (case ResolvePluginBuilders order store (w_Nodes cfg) of
           Inl err \<Rightarrow> Some (PluginsUnresolved err)
         | Inr builders \<Rightarrow>
             (case BuildGraph ids rest_ids cfg builders of Inl err \<Rightarrow> Some (ConfigInvalid err) | Inr _ \<Rightarrow> None)))"

definition blank :: "string \<Rightarrow> bool" where
  "blank s \<longleftrightarrow> list_all is_space s"

definition with_id :: "string \<Rightarrow> WorkflowConfig \<Rightarrow> WorkflowConfig" where
  "with_id newid cfg = (if blank (w_ID cfg) then cfg\<lparr>w_ID := newid\<rparr> else cfg)"

section \<open>The file store\<close>

record 't file_store =
  fs_configs :: "string \<rightharpoonup> WorkflowConfig"
  fs_nameMap :: "string \<rightharpoonup> string"
  fs_disk :: "string \<rightharpoonup> 't"

definition json_file :: "string \<Rightarrow> string" where
  "json_file i = i @ ''.json''"

definition load_file :: "('t \<Rightarrow> WorkflowConfig option) \<Rightarrow> string \<Rightarrow> 't file_store \<Rightarrow> 't file_store" where
  "load_file dec file m =
     (if drop (length file - 5) file \<noteq> ''.json'' then m
      else case fs_disk m file of
             None \<Rightarrow> m
           | Some data \<Rightarrow>
               (case dec data of
                  None \<Rightarrow> m
                | Some cfg \<Rightarrow>
                    m\<lparr>fs_configs := (fs_configs m)(w_ID cfg \<mapsto> cfg),
                      fs_nameMap := (if w_Name cfg \<noteq> '''' then (fs_nameMap m)(w_Name cfg \<mapsto> w_ID cfg) else fs_nameMap m)\<rparr>))"

definition File_load :: "('t \<Rightarrow> WorkflowConfig option) \<Rightarrow> bool \<Rightarrow> string list \<Rightarrow> 't file_store \<Rightarrow> 't file_store" where
  "File_load dec dir_ok files m = (if \<not> dir_ok then m else fold (load_file dec) files m)"

definition NewFileWorkflowConfigManager ::
  "('t \<Rightarrow> WorkflowConfig option) \<Rightarrow> bool \<Rightarrow> string list \<Rightarrow> (string \<rightharpoonup> 't) \<Rightarrow> 't file_store" where
  "NewFileWorkflowConfigManager dec dir_ok files disk =
     File_load dec dir_ok files \<lparr>fs_configs = Map.empty, fs_nameMap = Map.empty, fs_disk = disk\<rparr>"

definition File_Get :: "string \<Rightarrow> 't file_store \<Rightarrow> 'e config_error + WorkflowConfig" where
  "File_Get i m = (case fs_configs m i of None \<Rightarrow> Inl WorkflowNotFound | Some cfg \<Rightarrow> Inr cfg)"

text \<open>A name whose configuration is gone yields Go's zero value.\<close>

definition zero_config :: WorkflowConfig where
  "zero_config = \<lparr>w_ID = '''', w_Name = '''', w_Version = '''', w_Head = '''', w_Nodes = [], w_Edges = [],
     w_SchedulerMode = '''', w_SchedulerWorkers = 0\<rparr>"

definition File_GetWithName :: "string \<Rightarrow> 't file_store \<Rightarrow> 'e config_error + WorkflowConfig" where
  "File_GetWithName name m =
     (case fs_nameMap m name of
        None \<Rightarrow> Inl WorkflowNotFound
      | Some i \<Rightarrow> Inr (case fs_configs m i of None \<Rightarrow> zero_config | Some cfg \<Rightarrow> cfg))"

definition File_List :: "string list \<Rightarrow> 't file_store \<Rightarrow> WorkflowConfig list" where
  "File_List order m = List.map_filter (fs_configs m) order"

datatype save_io = SaveOk | WriteFails | RenameFails

definition File_Save ::
  "(WorkflowConfig \<Rightarrow> 'e config_error option) \<Rightarrow> (WorkflowConfig \<Rightarrow> 't option) \<Rightarrow> string \<Rightarrow> save_io \<Rightarrow> WorkflowConfig \<Rightarrow>
   't file_store \<Rightarrow> 't file_store \<times> 'e config_error option" where
  "File_Save check enc newid io cfg0 m =
     (case check cfg0 of
        Some err \<Rightarrow> (m, Some err)
      | None \<Rightarrow>
          if (case fs_nameMap m (w_Name cfg0) of None \<Rightarrow> False | Some existingID \<Rightarrow> existingID \<noteq> w_ID cfg0)
          then (m, Some WorkflowNameExists)
          else
            let cfg = with_id newid cfg0; file = json_file (w_ID cfg)
            in case enc cfg of
                 None \<Rightarrow> (m, Some MarshalFailed)
               | Some data \<Rightarrow>
                   (case io of
                      WriteFails \<Rightarrow> (m, Some (IoFailed ''write''))
                    | RenameFails \<Rightarrow> (m\<lparr>fs_disk := (fs_disk m)(file @ ''.tmp'' \<mapsto> data)\<rparr>, Some (IoFailed ''rename''))
                    | SaveOk \<Rightarrow>
                        (let names = (case fs_configs m (w_ID cfg) of
                              Some oldCfg \<Rightarrow> if w_Name oldCfg \<noteq> w_Name cfg then (fs_nameMap m)(w_Name oldCfg := None) else fs_nameMap m
                            | None \<Rightarrow> fs_nameMap m)
                         in (m\<lparr>fs_disk := (fs_disk m)(file @ ''.tmp'' := None, file \<mapsto> data),
                               fs_configs := (fs_configs m)(w_ID cfg \<mapsto> cfg),
                               fs_nameMap := names(w_Name cfg \<mapsto> w_ID cfg)\<rparr>, None))))"

text \<open>\<open>removed\<close> is false when \<open>os.Remove\<close> fails other than because the file does not exist.\<close>

definition File_Delete :: "bool \<Rightarrow> string \<Rightarrow> 't file_store \<Rightarrow> 't file_store \<times> 'e config_error option" where
  "File_Delete removed i m =
     (if \<not> removed then (m, Some (IoFailed ''remove''))
      else
        (m\<lparr>fs_disk := (fs_disk m)(json_file i := None),
           fs_nameMap := (case fs_configs m i of
               Some cfg \<Rightarrow> if w_Name cfg \<noteq> '''' then (fs_nameMap m)(w_Name cfg := None) else fs_nameMap m
             | None \<Rightarrow> fs_nameMap m),
           fs_configs := (fs_configs m)(i := None)\<rparr>, None))"

section \<open>The Redis store\<close>

record 't redis_store =
  rs_workflows :: "string \<rightharpoonup> 't"
  rs_names :: "string \<rightharpoonup> string"

datatype lua_reply = LuaOk | LuaNameExists | LuaError

definition luaSaveWorkflow ::
  "('t \<Rightarrow> string option) \<Rightarrow> string \<Rightarrow> string \<Rightarrow> 't \<Rightarrow> 't redis_store \<Rightarrow> 't redis_store \<times> lua_reply" where
  "luaSaveWorkflow name_of i name json r =
     (if (case rs_names r name of None \<Rightarrow> False | Some existing_id \<Rightarrow> existing_id \<noteq> i) then (r, LuaNameExists)
      else
        case (case rs_workflows r i of
                None \<Rightarrow> Some (rs_names r)
              | Some old_json \<Rightarrow>
                  (case name_of old_json of
                     None \<Rightarrow> None
                   | Some old_name \<Rightarrow> Some (if old_name \<noteq> name then (rs_names r)(old_name := None) else rs_names r))) of
          None \<Rightarrow> (r, LuaError)
        | Some names \<Rightarrow>
            (r\<lparr>rs_workflows := (rs_workflows r)(i \<mapsto> json), rs_names := names(name \<mapsto> i)\<rparr>, LuaOk))"

definition luaDeleteWorkflow :: "('t \<Rightarrow> string option) \<Rightarrow> string \<Rightarrow> 't redis_store \<Rightarrow> 't redis_store \<times> lua_reply" where
  "luaDeleteWorkflow name_of i r =
     (case rs_workflows r i of
        None \<Rightarrow> (r\<lparr>rs_workflows := (rs_workflows r)(i := None)\<rparr>, LuaOk)
      | Some old_json \<Rightarrow>
          (case name_of old_json of
             None \<Rightarrow> (r, LuaError)
           | Some old_name \<Rightarrow>
               (r\<lparr>rs_names := (rs_names r)(old_name := None), rs_workflows := (rs_workflows r)(i := None)\<rparr>, LuaOk)))"

text \<open>\<open>net\<close> is false when the server cannot be reached.\<close>

definition Redis_Get :: "bool \<Rightarrow> ('t \<Rightarrow> WorkflowConfig option) \<Rightarrow> string \<Rightarrow> 't redis_store \<Rightarrow> 'e config_error + WorkflowConfig" where
  "Redis_Get net dec i r =
     (if \<not> net then Inl (IoFailed ''redis'')
      else case rs_workflows r i of
             None \<Rightarrow> Inl WorkflowNotFound
           | Some data \<Rightarrow> (case dec data of None \<Rightarrow> Inl DecodeFailed | Some cfg \<Rightarrow> Inr cfg))"

definition Redis_GetWithName :: "bool \<Rightarrow> ('t \<Rightarrow> WorkflowConfig option) \<Rightarrow> string \<Rightarrow> 't redis_store \<Rightarrow> 'e config_error + WorkflowConfig" where
  "Redis_GetWithName net dec name r =
     (if \<not> net then Inl (IoFailed ''redis'')
      else case rs_names r name of None \<Rightarrow> Inl WorkflowNotFound | Some i \<Rightarrow> Redis_Get net dec i r)"

definition Redis_List :: "bool \<Rightarrow> ('t \<Rightarrow> WorkflowConfig option) \<Rightarrow> string list \<Rightarrow> 't redis_store \<Rightarrow> 'e config_error + WorkflowConfig list" where
  "Redis_List net dec order r =
     (if \<not> net then Inl (IoFailed ''redis'')
      else Inr (List.map_filter dec (List.map_filter (rs_workflows r) order)))"

definition Redis_Save ::
  "(WorkflowConfig \<Rightarrow> 'e config_error option) \<Rightarrow> (WorkflowConfig \<Rightarrow> 't option) \<Rightarrow> ('t \<Rightarrow> string option) \<Rightarrow> string \<Rightarrow> bool \<Rightarrow>
   WorkflowConfig \<Rightarrow> 't redis_store \<Rightarrow> 't redis_store \<times> 'e config_error option" where
  "Redis_Save check enc name_of newid net cfg0 r =
     (case check cfg0 of
        Some err \<Rightarrow> (r, Some err)
      | None \<Rightarrow>
          (let cfg = with_id newid cfg0
           in case enc cfg of
                None \<Rightarrow> (r, Some MarshalFailed)
              | Some data \<Rightarrow>
                  if \<not> net then (r, Some (IoFailed ''redis''))
                  else case luaSaveWorkflow name_of (w_ID cfg) (w_Name cfg) data r of
                         (r', LuaOk) \<Rightarrow> (r', None)
                       | (r', LuaNameExists) \<Rightarrow> (r', Some WorkflowNameExists)
                       | (r', LuaError) \<Rightarrow> (r', Some (IoFailed ''redis''))))"

definition Redis_Delete :: "('t \<Rightarrow> string option) \<Rightarrow> bool \<Rightarrow> string \<Rightarrow> 't redis_store \<Rightarrow> 't redis_store \<times> 'e config_error option" where
  "Redis_Delete name_of net i r =
     (if \<not> net then (r, Some (IoFailed ''redis''))
      else case luaDeleteWorkflow name_of i r of (r', LuaOk) \<Rightarrow> (r', None) | (r', _) \<Rightarrow> (r', Some (IoFailed ''redis'')))"

section \<open>The contract of the interface\<close>

text \<open>
  The abstract store is the map from identifiers to configurations. A save is refused when
  another configuration has the name.
\<close>

type_synonym config_map = "string \<rightharpoonup> WorkflowConfig"

definition taken :: "config_map \<Rightarrow> WorkflowConfig \<Rightarrow> bool" where
  "taken st cfg \<longleftrightarrow> (\<exists>i c. st i = Some c \<and> i \<noteq> w_ID cfg \<and> w_Name c = w_Name cfg)"

definition spec_save :: "(WorkflowConfig \<Rightarrow> 'e config_error option) \<Rightarrow> string \<Rightarrow> WorkflowConfig \<Rightarrow> config_map \<Rightarrow>
    config_map \<times> 'e config_error option" where
  "spec_save check newid cfg st =
     (case check cfg of
        Some err \<Rightarrow> (st, Some err)
      | None \<Rightarrow>
          if taken st (with_id newid cfg) then (st, Some WorkflowNameExists)
          else (st(w_ID (with_id newid cfg) \<mapsto> with_id newid cfg), None))"

definition admissible :: "string \<Rightarrow> WorkflowConfig \<Rightarrow> config_map \<Rightarrow> bool" where
  "admissible newid cfg st \<longleftrightarrow> w_Name cfg \<noteq> '''' \<and> \<not> blank newid \<and> st newid = None"

definition spec_named :: "string \<Rightarrow> config_map \<Rightarrow> WorkflowConfig \<Rightarrow> bool" where
  "spec_named name st cfg \<longleftrightarrow> (\<exists>i. st i = Some cfg) \<and> w_Name cfg = name"

datatype config_op = CSave string WorkflowConfig | CDelete string | CGet string | CGetWithName string

datatype 'e config_answer = ADone "'e config_error option" | AConfig "'e config_error + WorkflowConfig"

fun spec_admits :: "(WorkflowConfig \<Rightarrow> 'e config_error option) \<Rightarrow> config_op list \<Rightarrow> config_map \<Rightarrow> bool" where
  "spec_admits check [] st = True"
| "spec_admits check (CSave newid cfg # ops) st =
     (admissible newid cfg st \<and> spec_admits check ops (fst (spec_save check newid cfg st)))"
| "spec_admits check (CDelete i # ops) st = spec_admits check ops (st(i := None))"
| "spec_admits check (_ # ops) st = spec_admits check ops st"

text \<open>A client session: the answers to a sequence of calls.\<close>

fun run_manager ::
  "(string \<Rightarrow> WorkflowConfig \<Rightarrow> 's \<Rightarrow> 's \<times> 'e config_error option) \<Rightarrow> (string \<Rightarrow> 's \<Rightarrow> 's \<times> 'e config_error option) \<Rightarrow>
   (string \<Rightarrow> 's \<Rightarrow> 'e config_error + WorkflowConfig) \<Rightarrow> (string \<Rightarrow> 's \<Rightarrow> 'e config_error + WorkflowConfig) \<Rightarrow>
   config_op list \<Rightarrow> 's \<Rightarrow> 'e config_answer list" where
  "run_manager save remove get getName [] s = []"
| "run_manager save remove get getName (CSave newid cfg # ops) s =
     (case save newid cfg s of (s', e) \<Rightarrow> ADone e # run_manager save remove get getName ops s')"
| "run_manager save remove get getName (CDelete i # ops) s =
     (case remove i s of (s', e) \<Rightarrow> ADone e # run_manager save remove get getName ops s')"
| "run_manager save remove get getName (CGet i # ops) s = AConfig (get i s) # run_manager save remove get getName ops s"
| "run_manager save remove get getName (CGetWithName name # ops) s =
     AConfig (getName name s) # run_manager save remove get getName ops s"

locale config_manager =
  fixes check :: "WorkflowConfig \<Rightarrow> 'e config_error option"
    and inv :: "'s \<Rightarrow> bool"
    and abs :: "'s \<Rightarrow> config_map"
    and save :: "string \<Rightarrow> WorkflowConfig \<Rightarrow> 's \<Rightarrow> 's \<times> 'e config_error option"
    and remove :: "string \<Rightarrow> 's \<Rightarrow> 's \<times> 'e config_error option"
    and get :: "string \<Rightarrow> 's \<Rightarrow> 'e config_error + WorkflowConfig"
    and getName :: "string \<Rightarrow> 's \<Rightarrow> 'e config_error + WorkflowConfig"
  assumes inv_save: "inv s \<Longrightarrow> admissible newid cfg (abs s) \<Longrightarrow> inv (fst (save newid cfg s))"
    and abs_save: "inv s \<Longrightarrow> admissible newid cfg (abs s) \<Longrightarrow>
      spec_save check newid cfg (abs s) = (abs (fst (save newid cfg s)), snd (save newid cfg s))"
    and inv_remove: "inv s \<Longrightarrow> inv (fst (remove i s))"
    and abs_remove: "inv s \<Longrightarrow> remove i s = (s', e) \<Longrightarrow> abs s' = (abs s)(i := None) \<and> e = None"
    and get_abs: "inv s \<Longrightarrow> get i s = (case abs s i of None \<Rightarrow> Inl WorkflowNotFound | Some c \<Rightarrow> Inr c)"
    and getName_abs: "inv s \<Longrightarrow> getName name s = Inr c \<longleftrightarrow> spec_named name (abs s) c"
    and getName_err: "inv s \<Longrightarrow> getName name s = Inl err \<Longrightarrow> err = WorkflowNotFound"
begin

lemma names_unique: "inv s \<Longrightarrow> spec_named name (abs s) c \<Longrightarrow> spec_named name (abs s) c' \<Longrightarrow> c = c'"
  by (metis getName_abs sum.inject(2))

lemma saved_is_found:
  assumes "inv s" "admissible newid cfg (abs s)" "save newid cfg s = (s', None)"
  shows "get (w_ID (with_id newid cfg)) s' = Inr (with_id newid cfg) \<and> getName (w_Name cfg) s' = Inr (with_id newid cfg)"
proof -
  have "inv s'" using inv_save [OF assms(1,2)] assms(3) by simp
  moreover have "abs s' = (abs s)(w_ID (with_id newid cfg) \<mapsto> with_id newid cfg)"
    using abs_save [OF assms(1,2)] assms(3) by (auto simp: spec_save_def split: option.splits if_splits)
  moreover have "w_Name (with_id newid cfg) = w_Name cfg" by (simp add: with_id_def)
  ultimately show ?thesis by (auto simp: get_abs getName_abs spec_named_def)
qed

lemma removed_is_gone:
  assumes "inv s" "remove i s = (s', e)"
  shows "get i s' = Inl WorkflowNotFound"
proof -
  have "inv s'" using inv_remove [OF assms(1), of i] assms(2) by simp
  then show ?thesis using abs_remove [OF assms] by (simp add: get_abs)
qed

end

text \<open>Two managers of the same contract cannot be told apart by their answers.\<close>

locale two_managers =
  a: config_manager check inv1 abs1 save1 remove1 get1 getName1 +
  b: config_manager check inv2 abs2 save2 remove2 get2 getName2
  for check inv1 abs1 save1 remove1 get1 getName1 inv2 abs2 save2 remove2 get2 getName2
begin

lemma same_getName:
  assumes "inv1 s" "inv2 t" "abs1 s = abs2 t"
  shows "getName1 name s = getName2 name t"
proof (cases "getName1 name s")
  case (Inl e)
  then have "e = WorkflowNotFound" using a.getName_err [OF assms(1)] by simp
  moreover have "\<not> spec_named name (abs2 t) c" for c using Inl a.getName_abs [OF assms(1), of name c] assms(3) by simp
  then obtain e' where "getName2 name t = Inl e'" using b.getName_abs [OF assms(2)] by (cases "getName2 name t") auto
  ultimately show ?thesis using Inl b.getName_err [OF assms(2), of name e'] by simp
next
  case (Inr c)
  then show ?thesis using a.getName_abs [OF assms(1), of name c] b.getName_abs [OF assms(2), of name c] assms(3) by simp
qed

lemma same_answers:
  assumes "inv1 s" "inv2 t" "abs1 s = abs2 t" "spec_admits check ops (abs1 s)"
  shows "run_manager save1 remove1 get1 getName1 ops s = run_manager save2 remove2 get2 getName2 ops t"
  using assms
proof (induction ops arbitrary: s t)
  case (Cons op ops)
  show ?case
  proof (cases op)
    case (CSave newid cfg)
    obtain s1 e1 where s1: "save1 newid cfg s = (s1, e1)" by (cases "save1 newid cfg s")
    obtain t1 e2 where t1: "save2 newid cfg t = (t1, e2)" by (cases "save2 newid cfg t")
    have ad: "admissible newid cfg (abs1 s)" "admissible newid cfg (abs2 t)" using Cons.prems CSave by auto
    have "spec_save check newid cfg (abs1 s) = (abs1 s1, e1)" using a.abs_save [OF Cons.prems(1) ad(1)] s1 by simp
    moreover have "spec_save check newid cfg (abs2 t) = (abs2 t1, e2)" using b.abs_save [OF Cons.prems(2) ad(2)] t1 by simp
    ultimately have "abs1 s1 = abs2 t1" "e1 = e2" "spec_admits check ops (abs1 s1)" using Cons.prems(3,4) CSave by auto
    moreover have "inv1 s1" "inv2 t1"
      using a.inv_save [OF Cons.prems(1) ad(1)] b.inv_save [OF Cons.prems(2) ad(2)] s1 t1 by auto
    ultimately show ?thesis using Cons.IH [of s1 t1] by (simp add: CSave s1 t1)
  next
    case (CDelete i)
    obtain s1 e1 where s1: "remove1 i s = (s1, e1)" by (cases "remove1 i s")
    obtain t1 e2 where t1: "remove2 i t = (t1, e2)" by (cases "remove2 i t")
    have "inv1 s1" "inv2 t1" using a.inv_remove [OF Cons.prems(1), of i] b.inv_remove [OF Cons.prems(2), of i] s1 t1 by auto
    moreover have "abs1 s1 = abs2 t1" "e1 = e2" "spec_admits check ops (abs1 s1)"
      using a.abs_remove [OF Cons.prems(1) s1] b.abs_remove [OF Cons.prems(2) t1] Cons.prems(3,4) CDelete by simp_all
    ultimately show ?thesis using Cons.IH [of s1 t1] by (simp add: CDelete s1 t1)
  next
    case (CGet i)
    then show ?thesis
      using Cons.IH [OF Cons.prems(1-3)] Cons.prems a.get_abs b.get_abs by simp
  next
    case (CGetWithName name)
    then show ?thesis
      using Cons.IH [OF Cons.prems(1-3)] Cons.prems same_getName [OF Cons.prems(1-3)] by simp
  qed
qed simp

end

section \<open>Both stores keep the contract\<close>

text \<open>What the stores rely on of the JSON codec: every configuration can be encoded and is read back.\<close>

definition codec_ok :: "(WorkflowConfig \<Rightarrow> 't option) \<Rightarrow> ('t \<Rightarrow> WorkflowConfig option) \<Rightarrow> ('t \<Rightarrow> string option) \<Rightarrow> bool" where
  "codec_ok enc dec name_of \<longleftrightarrow> (\<forall>cfg. \<exists>d. enc cfg = Some d \<and> dec d = Some cfg \<and> name_of d = Some (w_Name cfg))"

definition file_inv :: "(WorkflowConfig \<Rightarrow> 't option) \<Rightarrow> ('t \<Rightarrow> WorkflowConfig option) \<Rightarrow> ('t \<Rightarrow> string option) \<Rightarrow> 't file_store \<Rightarrow> bool" where
  "file_inv enc dec name_of m \<longleftrightarrow> codec_ok enc dec name_of \<and>
     (\<forall>i c. fs_configs m i = Some c \<longrightarrow> w_ID c = i \<and> w_Name c \<noteq> '''' \<and> \<not> blank i) \<and>
     (\<forall>n i. fs_nameMap m n = Some i \<longleftrightarrow> (\<exists>c. fs_configs m i = Some c \<and> w_Name c = n)) \<and>
     (\<forall>i d. fs_disk m (json_file i) = Some d \<longleftrightarrow> (\<exists>c. fs_configs m i = Some c \<and> enc c = Some d))"

definition redis_inv :: "(WorkflowConfig \<Rightarrow> 't option) \<Rightarrow> ('t \<Rightarrow> WorkflowConfig option) \<Rightarrow> ('t \<Rightarrow> string option) \<Rightarrow> 't redis_store \<Rightarrow> bool" where
  "redis_inv enc dec name_of r \<longleftrightarrow> codec_ok enc dec name_of \<and>
     (\<forall>i d. rs_workflows r i = Some d \<longrightarrow> (\<exists>c. enc c = Some d \<and> w_ID c = i \<and> w_Name c \<noteq> '''' \<and> \<not> blank i)) \<and>
     (\<forall>n i. rs_names r n = Some i \<longleftrightarrow> (\<exists>d. rs_workflows r i = Some d \<and> name_of d = Some n))"

definition redis_abs :: "('t \<Rightarrow> WorkflowConfig option) \<Rightarrow> 't redis_store \<Rightarrow> config_map" where
  "redis_abs dec r i = Option.bind (rs_workflows r i) dec"

lemma json_file_inj [simp]: "json_file i = json_file j \<longleftrightarrow> i = j"
  by (simp add: json_file_def)

lemma json_file_tmp [simp]: "json_file i \<noteq> json_file j @ ''.tmp''" "json_file j @ ''.tmp'' \<noteq> json_file i"
proof -
  have "last (json_file i) \<noteq> last (json_file j @ ''.tmp'')" by (simp add: json_file_def)
  then show ne: "json_file i \<noteq> json_file j @ ''.tmp''" using arg_cong [where f = last] by blast
  then show "json_file j @ ''.tmp'' \<noteq> json_file i" by (rule not_sym)
qed

lemma with_id_fields:
  "admissible newid cfg st \<Longrightarrow> \<not> blank (w_ID (with_id newid cfg))"
  "w_Name (with_id newid cfg) = w_Name cfg"
  by (auto simp: with_id_def admissible_def)

lemma codec_enc: "codec_ok enc dec name_of \<Longrightarrow> \<exists>d. enc c = Some d \<and> dec d = Some c \<and> name_of d = Some (w_Name c)"
  by (simp add: codec_ok_def)

lemma file_invD:
  assumes "file_inv enc dec name_of m"
  shows "codec_ok enc dec name_of" "fs_configs m i = Some c \<Longrightarrow> w_ID c = i \<and> w_Name c \<noteq> '''' \<and> \<not> blank i"
    and "fs_nameMap m n = Some i \<longleftrightarrow> (\<exists>c. fs_configs m i = Some c \<and> w_Name c = n)"
    and "fs_disk m (json_file i) = Some d \<longleftrightarrow> (\<exists>c. fs_configs m i = Some c \<and> enc c = Some d)"
  using assms unfolding file_inv_def by blast+

lemma file_taken:
  assumes "file_inv enc dec name_of m" "admissible newid cfg (fs_configs m)"
  shows "(case fs_nameMap m (w_Name cfg) of None \<Rightarrow> False | Some i \<Rightarrow> i \<noteq> w_ID cfg) \<longleftrightarrow> taken (fs_configs m) (with_id newid cfg)"
proof -
  note n = file_invD(3) [OF assms(1)]
  have i: "fs_configs m i = Some c \<Longrightarrow> \<not> blank i \<and> i \<noteq> newid" for i c
    using assms(2) file_invD(2) [OF assms(1), of i c] by (auto simp: admissible_def)
  have w: "fs_configs m i = Some c \<Longrightarrow> (i \<noteq> w_ID cfg) = (i \<noteq> w_ID (with_id newid cfg))" for i c
    using i [of i c] by (auto simp: with_id_def)
  show ?thesis
  proof (cases "fs_nameMap m (w_Name cfg)")
    case None
    then have "fs_configs m i = Some c \<Longrightarrow> w_Name c \<noteq> w_Name cfg" for i c using n [of "w_Name cfg" i] by auto
    then show ?thesis using None by (auto simp: taken_def with_id_fields)
  next
    case (Some j)
    then have u: "fs_configs m i = Some c \<Longrightarrow> w_Name c = w_Name cfg \<Longrightarrow> i = j" for i c
      using n [of "w_Name cfg" i] by auto
    obtain c where c: "fs_configs m j = Some c" "w_Name c = w_Name cfg" using Some n [of "w_Name cfg" j] by auto
    have "taken (fs_configs m) (with_id newid cfg) \<longleftrightarrow> j \<noteq> w_ID (with_id newid cfg)"
      unfolding taken_def with_id_fields using u c by blast
    then show ?thesis using Some w [OF c(1)] by simp
  qed
qed

lemma file_save_abs:
  assumes "file_inv enc dec name_of m" "admissible newid cfg (fs_configs m)"
  shows "spec_save check newid cfg (fs_configs m) =
    (fs_configs (fst (File_Save check enc newid SaveOk cfg m)), snd (File_Save check enc newid SaveOk cfg m))"
proof -
  obtain d where "enc (with_id newid cfg) = Some d" using codec_enc [OF file_invD(1) [OF assms(1)]] by blast
  then show ?thesis
    by (simp add: spec_save_def File_Save_def file_taken [OF assms, symmetric] Let_def split: option.split)
qed

lemma file_save_inv:
  assumes "file_inv enc dec name_of m" "admissible newid cfg (fs_configs m)"
  shows "file_inv enc dec name_of (fst (File_Save check enc newid SaveOk cfg m))"
proof (cases "check cfg = None \<and> \<not> taken (fs_configs m) (with_id newid cfg)")
  case True
  define c0 where "c0 = with_id newid cfg"
  note inv = file_invD [OF assms(1)]
  obtain d where d: "enc c0 = Some d" using codec_enc [OF inv(1)] by blast
  define m' where "m' = fst (File_Save check enc newid SaveOk cfg m)"
  have ft: "\<not> (case fs_nameMap m (w_Name cfg) of None \<Rightarrow> False | Some i \<Rightarrow> i \<noteq> w_ID cfg)"
    using file_taken [OF assms] True by simp
  have names: "fs_nameMap m' = (case fs_configs m (w_ID c0) of
        Some old \<Rightarrow> if w_Name old \<noteq> w_Name c0 then (fs_nameMap m)(w_Name old := None) else fs_nameMap m
      | None \<Rightarrow> fs_nameMap m)(w_Name c0 \<mapsto> w_ID c0)"
    and confs: "fs_configs m' = (fs_configs m)(w_ID c0 \<mapsto> c0)"
    and disk: "fs_disk m' = (fs_disk m)(json_file (w_ID c0) @ ''.tmp'' := None, json_file (w_ID c0) \<mapsto> d)"
    using True ft d by (simp_all add: m'_def File_Save_def c0_def [symmetric] Let_def)
  note n = file_invD(3) [OF assms(1)]
  have uniq: "fs_configs m i = Some c \<Longrightarrow> fs_configs m j = Some c' \<Longrightarrow> w_Name c = w_Name c' \<Longrightarrow> i = j" for i j c c'
    using n [of "w_Name c'" i] n [of "w_Name c'" j] by simp
  have nt: "fs_configs m i = Some c \<Longrightarrow> w_Name c = w_Name c0 \<Longrightarrow> i = w_ID c0" for i c
    using True by (auto simp: taken_def c0_def)
  have "fs_nameMap m' nm = Some i \<longleftrightarrow> (\<exists>c. fs_configs m' i = Some c \<and> w_Name c = nm)" for nm i
  proof (cases "nm = w_Name c0")
    case True
    then show ?thesis using nt by (auto simp: names confs)
  next
    case False
    then show ?thesis
      using n uniq [of i _ "w_ID c0"] by (auto simp: names confs split: option.splits)
  qed
  moreover have "w_Name c0 \<noteq> ''''" "\<not> blank (w_ID c0)"
    using assms(2) with_id_fields(1) [OF assms(2)] by (simp_all add: c0_def with_id_fields admissible_def)
  moreover have "fs_disk m' (json_file i) = Some x \<longleftrightarrow> (\<exists>c. fs_configs m' i = Some c \<and> enc c = Some x)" for i x
    using inv(4) [of i x] d by (simp add: confs disk)
  ultimately have "file_inv enc dec name_of m'"
    unfolding file_inv_def using inv(1,2) by (simp add: confs)
  then show ?thesis by (simp add: m'_def)
next
  case False
  then show ?thesis using assms(1) file_taken [OF assms] by (auto simp: File_Save_def split: option.splits)
qed

lemma file_delete_inv:
  assumes "file_inv enc dec name_of m"
  shows "file_inv enc dec name_of (fst (File_Delete True i m))"
proof -
  note inv = file_invD [OF assms]
  define m' where "m' = fst (File_Delete True i m :: _ \<times> unit config_error option)"
  have confs: "fs_configs m' = (fs_configs m)(i := None)" and disk: "fs_disk m' = (fs_disk m)(json_file i := None)"
    and names: "fs_nameMap m' = (case fs_configs m i of
        Some cfg \<Rightarrow> if w_Name cfg \<noteq> '''' then (fs_nameMap m)(w_Name cfg := None) else fs_nameMap m | None \<Rightarrow> fs_nameMap m)"
    by (simp_all add: m'_def File_Delete_def)
  have uniq: "fs_configs m j = Some c \<Longrightarrow> fs_configs m k = Some c' \<Longrightarrow> w_Name c = w_Name c' \<Longrightarrow> j = k" for j k c c'
    using inv(3) [of "w_Name c'" j] inv(3) [of "w_Name c'" k] by simp
  have "fs_nameMap m' n = Some j \<longleftrightarrow> (\<exists>c. fs_configs m' j = Some c \<and> w_Name c = n)" for n j
  proof (cases "fs_configs m i")
    case None
    then show ?thesis using inv(3) [of n j] by (auto simp: names confs)
  next
    case (Some c)
    have names': "fs_nameMap m' = (fs_nameMap m)(w_Name c := None)" using inv(2) [OF Some] by (simp add: names Some)
    have only: "j = i" if "fs_configs m j = Some c'" "w_Name c' = w_Name c" for c' using uniq [OF that(1) Some that(2)] .
    show ?thesis
    proof (cases "n = w_Name c")
      case True
      then show ?thesis using only by (auto simp: names' confs)
    next
      case False
      then show ?thesis using inv(3) [of n j] Some by (auto simp: names' confs)
    qed
  qed
  moreover have "fs_disk m' (json_file j) = Some x \<longleftrightarrow> (\<exists>c. fs_configs m' j = Some c \<and> enc c = Some x)" for j x
    using inv(4) [of j x] by (simp add: confs disk)
  ultimately have "file_inv enc dec name_of m'"
    unfolding file_inv_def using inv(1,2) by (simp add: confs)
  then show ?thesis by (simp add: m'_def File_Delete_def)
qed

lemma file_getName:
  assumes "file_inv enc dec name_of m"
  shows "File_GetWithName name m = Inr c \<longleftrightarrow> spec_named name (fs_configs m) c"
proof (cases "fs_nameMap m name")
  case None
  then have "fs_configs m i = Some c' \<Longrightarrow> w_Name c' \<noteq> name" for i c' using file_invD(3) [OF assms, of name i] by auto
  then show ?thesis using None by (auto simp: File_GetWithName_def spec_named_def)
next
  case (Some j)
  then obtain c0 where c0: "fs_configs m j = Some c0" "w_Name c0 = name" using file_invD(3) [OF assms, of name j] by auto
  have "fs_configs m i = Some c' \<Longrightarrow> w_Name c' = name \<Longrightarrow> i = j" for i c'
    using file_invD(3) [OF assms, of name i] Some by auto
  then have "spec_named name (fs_configs m) c \<longleftrightarrow> c = c0" using c0 by (fastforce simp: spec_named_def)
  then show ?thesis using Some c0 by (auto simp: File_GetWithName_def)
qed

interpretation file_manager: config_manager check "file_inv enc dec name_of" fs_configs
    "\<lambda>newid. File_Save check enc newid SaveOk" "File_Delete True" File_Get File_GetWithName
  for check enc dec name_of
proof
  fix s newid cfg i name c and s' and e err :: "'a config_error" and e' :: "'a config_error option"
  show "file_inv enc dec name_of s \<Longrightarrow> admissible newid cfg (fs_configs s) \<Longrightarrow>
      file_inv enc dec name_of (fst (File_Save check enc newid SaveOk cfg s))" by (rule file_save_inv)
  show "file_inv enc dec name_of s \<Longrightarrow> admissible newid cfg (fs_configs s) \<Longrightarrow> spec_save check newid cfg (fs_configs s) =
      (fs_configs (fst (File_Save check enc newid SaveOk cfg s)), snd (File_Save check enc newid SaveOk cfg s))"
    by (rule file_save_abs)
  show "file_inv enc dec name_of s \<Longrightarrow> File_Delete True i s = (s', e') \<Longrightarrow> fs_configs s' = (fs_configs s)(i := None) \<and> e' = None"
    by (auto simp: File_Delete_def)
  show "File_Get i s = (case fs_configs s i of None \<Rightarrow> Inl WorkflowNotFound | Some c \<Rightarrow> Inr c)" by (simp add: File_Get_def)
  assume inv: "file_inv enc dec name_of s"
  then show "file_inv enc dec name_of (fst (File_Delete True i s))" by (rule file_delete_inv)
  show "File_GetWithName name s = Inr c \<longleftrightarrow> spec_named name (fs_configs s) c" by (rule file_getName [OF inv])
  show "File_GetWithName name s = Inl err \<Longrightarrow> err = WorkflowNotFound" by (auto simp: File_GetWithName_def split: option.splits)
qed

lemma redis_invD:
  assumes "redis_inv enc dec name_of r"
  shows "codec_ok enc dec name_of" "rs_workflows r i = Some d \<Longrightarrow> \<exists>c. enc c = Some d \<and> w_ID c = i \<and> w_Name c \<noteq> '''' \<and> \<not> blank i"
    and "rs_names r n = Some i \<longleftrightarrow> (\<exists>d. rs_workflows r i = Some d \<and> name_of d = Some n)"
  using assms unfolding redis_inv_def by blast+

lemma redis_entry:
  assumes "redis_inv enc dec name_of r" "rs_workflows r i = Some d"
  shows "\<exists>c. enc c = Some d \<and> dec d = Some c \<and> name_of d = Some (w_Name c) \<and> redis_abs dec r i = Some c \<and>
    w_ID c = i \<and> w_Name c \<noteq> '''' \<and> \<not> blank i"
proof -
  obtain c where c: "enc c = Some d" "w_ID c = i" "w_Name c \<noteq> ''''" "\<not> blank i" using redis_invD(2) [OF assms] by blast
  then have "dec d = Some c" "name_of d = Some (w_Name c)" using codec_enc [OF redis_invD(1) [OF assms(1)], of c] by auto
  then show ?thesis using c assms(2) by (auto simp: redis_abs_def)
qed

lemma redis_abs_Some:
  assumes "redis_inv enc dec name_of r"
  shows "redis_abs dec r i = Some c \<longleftrightarrow> (\<exists>d. rs_workflows r i = Some d \<and> enc c = Some d)"
proof (cases "rs_workflows r i")
  case (Some d)
  from redis_entry [OF assms Some] obtain c0 where "enc c0 = Some d" "dec d = Some c0" "redis_abs dec r i = Some c0" by blast
  moreover have "dec d = Some c" if "enc c = Some d" using codec_enc [OF redis_invD(1) [OF assms], of c] that by auto
  ultimately show ?thesis using Some by auto
qed (simp add: redis_abs_def)

lemma redis_names:
  assumes "redis_inv enc dec name_of r"
  shows "rs_names r n = Some i \<longleftrightarrow> (\<exists>c. redis_abs dec r i = Some c \<and> w_Name c = n)"
proof (cases "rs_workflows r i")
  case None
  then show ?thesis using redis_invD(3) [OF assms, of n i] by (simp add: redis_abs_def)
next
  case (Some d)
  from redis_entry [OF assms Some] obtain c where "name_of d = Some (w_Name c)" "redis_abs dec r i = Some c" by blast
  then show ?thesis using redis_invD(3) [OF assms, of n i] Some by auto
qed

lemma redis_taken:
  assumes "redis_inv enc dec name_of r"
  shows "(case rs_names r (w_Name cfg) of None \<Rightarrow> False | Some i \<Rightarrow> i \<noteq> w_ID cfg) \<longleftrightarrow> taken (redis_abs dec r) cfg"
proof (cases "rs_names r (w_Name cfg)")
  case None
  then have "redis_abs dec r i = Some c \<Longrightarrow> w_Name c \<noteq> w_Name cfg" for i c using redis_names [OF assms, of "w_Name cfg" i] by auto
  then show ?thesis using None by (auto simp: taken_def)
next
  case (Some j)
  then have u: "redis_abs dec r i = Some c \<Longrightarrow> w_Name c = w_Name cfg \<Longrightarrow> i = j" for i c
    using redis_names [OF assms, of "w_Name cfg" i] by auto
  obtain c where c: "redis_abs dec r j = Some c" "w_Name c = w_Name cfg" using Some redis_names [OF assms, of "w_Name cfg" j] by auto
  have "taken (redis_abs dec r) cfg \<longleftrightarrow> j \<noteq> w_ID cfg" unfolding taken_def using u c by blast
  then show ?thesis using Some by simp
qed

lemma lua_save:
  assumes "redis_inv enc dec name_of r" "\<not> taken (redis_abs dec r) cfg" "enc cfg = Some d" "w_Name cfg \<noteq> ''''" "\<not> blank (w_ID cfg)"
  shows "\<exists>r'. luaSaveWorkflow name_of (w_ID cfg) (w_Name cfg) d r = (r', LuaOk) \<and> redis_inv enc dec name_of r' \<and>
    redis_abs dec r' = (redis_abs dec r)(w_ID cfg \<mapsto> cfg)"
proof -
  note inv = redis_invD [OF assms(1)]
  have d: "dec d = Some cfg" "name_of d = Some (w_Name cfg)" using codec_enc [OF inv(1), of cfg] assms(3) by auto
  define names where "names = (case rs_workflows r (w_ID cfg) of None \<Rightarrow> rs_names r
      | Some old \<Rightarrow> (if the (name_of old) \<noteq> w_Name cfg then (rs_names r)(the (name_of old) := None) else rs_names r))"
  define r' where "r' = r\<lparr>rs_workflows := (rs_workflows r)(w_ID cfg \<mapsto> d), rs_names := names(w_Name cfg \<mapsto> w_ID cfg)\<rparr>"
  have "luaSaveWorkflow name_of (w_ID cfg) (w_Name cfg) d r = (r', LuaOk)"
    using redis_taken [OF assms(1), of cfg] assms(2) redis_entry [OF assms(1), of "w_ID cfg"]
    by (auto simp: luaSaveWorkflow_def r'_def names_def split: option.splits)
  moreover have abs: "redis_abs dec r' = (redis_abs dec r)(w_ID cfg \<mapsto> cfg)" by (auto simp: redis_abs_def r'_def d fun_eq_iff)
  moreover have "rs_names r' n = Some i \<longleftrightarrow> (\<exists>x. rs_workflows r' i = Some x \<and> name_of x = Some n)" for n i
  proof (cases "n = w_Name cfg")
    case True
    have "i = w_ID cfg" if x: "rs_workflows r i = Some x" "name_of x = Some (w_Name cfg)" for x
    proof -
      obtain c where "redis_abs dec r i = Some c" "w_Name c = w_Name cfg" using redis_entry [OF assms(1) x(1)] x(2) by auto
      then show ?thesis using assms(2) unfolding taken_def by blast
    qed
    then show ?thesis using True d by (auto simp: r'_def)
  next
    case n: False
    show ?thesis
    proof (cases "rs_workflows r (w_ID cfg)")
      case None
      then show ?thesis using n inv(3) [of n i] d by (auto simp: r'_def names_def)
    next
      case (Some old)
      from redis_entry [OF assms(1) Some] obtain c :: WorkflowConfig where c: "name_of old = Some (w_Name c)" by blast
      have only: "i = w_ID cfg" if "rs_workflows r i = Some x" "name_of x = Some (w_Name c)" for x
        using inv(3) [of "w_Name c" i] inv(3) [of "w_Name c" "w_ID cfg"] that Some c by simp
      show ?thesis
      proof (cases "n = w_Name c")
        case True
        then show ?thesis using n only d Some c by (auto simp: r'_def names_def)
      next
        case False
        then show ?thesis using n inv(3) [of n i] d Some c by (auto simp: r'_def names_def)
      qed
    qed
  qed
  then have "redis_inv enc dec name_of r'"
    unfolding redis_inv_def using inv(1,2) assms(3-5) by (auto simp: r'_def)
  ultimately show ?thesis by blast
qed

lemma redis_save:
  assumes "redis_inv enc dec name_of r" "admissible newid cfg (redis_abs dec r)"
  shows "redis_inv enc dec name_of (fst (Redis_Save check enc name_of newid True cfg r)) \<and>
    spec_save check newid cfg (redis_abs dec r) =
      (redis_abs dec (fst (Redis_Save check enc name_of newid True cfg r)), snd (Redis_Save check enc name_of newid True cfg r))"
proof (cases "check cfg")
  case None
  define c where "c = with_id newid cfg"
  obtain d where d: "enc c = Some d" using codec_enc [OF redis_invD(1) [OF assms(1)]] by blast
  have c: "w_Name c = w_Name cfg" "w_Name c \<noteq> ''''" "\<not> blank (w_ID c)"
    using assms(2) with_id_fields(1) [OF assms(2)] by (simp_all add: c_def with_id_fields admissible_def)
  show ?thesis
  proof (cases "taken (redis_abs dec r) c")
    case True
    then have "luaSaveWorkflow name_of (w_ID c) (w_Name c) d r = (r, LuaNameExists)"
      using redis_taken [OF assms(1), of c] by (simp add: luaSaveWorkflow_def)
    then show ?thesis
      using None True d assms(1) by (simp add: Redis_Save_def spec_save_def c_def [symmetric])
  next
    case False
    from lua_save [OF assms(1) False d c(2,3)] None d False show ?thesis
      by (auto simp: Redis_Save_def spec_save_def c_def [symmetric])
  qed
qed (use assms(1) in \<open>simp add: Redis_Save_def spec_save_def\<close>)

lemma redis_delete:
  assumes "redis_inv enc dec name_of r"
  shows "\<exists>r'. luaDeleteWorkflow name_of i r = (r', LuaOk) \<and> redis_inv enc dec name_of r' \<and> redis_abs dec r' = (redis_abs dec r)(i := None)"
proof -
  note inv = redis_invD [OF assms]
  show ?thesis
  proof (cases "rs_workflows r i")
    case None
    then have "r\<lparr>rs_workflows := (rs_workflows r)(i := None)\<rparr> = r" by (cases r) (auto simp: fun_eq_iff)
    then have "luaDeleteWorkflow name_of i r = (r, LuaOk)" by (simp only: luaDeleteWorkflow_def None option.case)
    then show ?thesis using None assms by (auto simp: redis_abs_def fun_eq_iff)
  next
    case (Some d)
    from redis_entry [OF assms Some] obtain c :: WorkflowConfig where c: "name_of d = Some (w_Name c)" by blast
    define r' where "r' = r\<lparr>rs_names := (rs_names r)(w_Name c := None), rs_workflows := (rs_workflows r)(i := None)\<rparr>"
    have only: "j = i" if "rs_workflows r j = Some x" "name_of x = Some (w_Name c)" for j x
      using inv(3) [of "w_Name c" j] inv(3) [of "w_Name c" i] that Some c by simp
    have "rs_names r' n = Some j \<longleftrightarrow> (\<exists>x. rs_workflows r' j = Some x \<and> name_of x = Some n)" for n j
    proof (cases "n = w_Name c")
      case True
      then show ?thesis using only by (auto simp: r'_def)
    next
      case False
      then show ?thesis using inv(3) [of n j] Some c by (auto simp: r'_def)
    qed
    then have "redis_inv enc dec name_of r'" unfolding redis_inv_def using inv(1,2) by (auto simp: r'_def)
    then show ?thesis using Some c by (auto simp: luaDeleteWorkflow_def r'_def redis_abs_def fun_eq_iff)
  qed
qed

lemma redis_get:
  assumes "redis_inv enc dec name_of r"
  shows "Redis_Get True dec i r = (case redis_abs dec r i of None \<Rightarrow> Inl WorkflowNotFound | Some c \<Rightarrow> Inr c)"
proof (cases "rs_workflows r i")
  case (Some d)
  from redis_entry [OF assms Some] show ?thesis using Some by (auto simp: Redis_Get_def)
qed (simp add: Redis_Get_def redis_abs_def)

lemma redis_getName:
  assumes "redis_inv enc dec name_of r"
  shows "Redis_GetWithName True dec name r = Inr c \<longleftrightarrow> spec_named name (redis_abs dec r) c"
    and "Redis_GetWithName True dec name r = Inl e \<Longrightarrow> e = WorkflowNotFound"
proof -
  have "(Redis_GetWithName True dec name r = Inr c \<longleftrightarrow> spec_named name (redis_abs dec r) c) \<and>
      (Redis_GetWithName True dec name r = Inl e \<longrightarrow> e = WorkflowNotFound)"
  proof (cases "rs_names r name")
    case None
    then have "redis_abs dec r i = Some c' \<Longrightarrow> w_Name c' \<noteq> name" for i c' using redis_names [OF assms, of name i] by auto
    then show ?thesis using None by (auto simp: Redis_GetWithName_def spec_named_def)
  next
    case (Some j)
    then obtain c0 where c0: "redis_abs dec r j = Some c0" "w_Name c0 = name" using redis_names [OF assms, of name j] by auto
    have "redis_abs dec r i = Some c' \<Longrightarrow> w_Name c' = name \<Longrightarrow> i = j" for i c'
      using redis_names [OF assms, of name i] Some by auto
    then have "spec_named name (redis_abs dec r) c \<longleftrightarrow> c = c0" using c0 by (fastforce simp: spec_named_def)
    then show ?thesis using Some c0 by (auto simp: Redis_GetWithName_def redis_get [OF assms])
  qed
  then show "Redis_GetWithName True dec name r = Inr c \<longleftrightarrow> spec_named name (redis_abs dec r) c"
    "Redis_GetWithName True dec name r = Inl e \<Longrightarrow> e = WorkflowNotFound" by blast+
qed

interpretation redis_manager: config_manager check "redis_inv enc dec name_of" "redis_abs dec"
    "\<lambda>newid. Redis_Save check enc name_of newid True" "Redis_Delete name_of True" "Redis_Get True dec" "Redis_GetWithName True dec"
  for check enc dec name_of
proof
  fix s newid cfg i name c and s' and err :: "'a config_error" and e :: "'a config_error option"
  assume inv: "redis_inv enc dec name_of s"
  show "redis_inv enc dec name_of (fst (Redis_Delete name_of True i s))"
    using redis_delete [OF inv, of i] by (auto simp: Redis_Delete_def)
  show "redis_abs dec s' = (redis_abs dec s)(i := None) \<and> e = None" if "Redis_Delete name_of True i s = (s', e)"
    using redis_delete [OF inv, of i] that by (auto simp: Redis_Delete_def)
  show "Redis_Get True dec i s = (case redis_abs dec s i of None \<Rightarrow> Inl WorkflowNotFound | Some c \<Rightarrow> Inr c)"
    by (rule redis_get [OF inv])
  show "Redis_GetWithName True dec name s = Inr c \<longleftrightarrow> spec_named name (redis_abs dec s) c" by (rule redis_getName(1) [OF inv])
  show "err = WorkflowNotFound" if "Redis_GetWithName True dec name s = Inl err" by (rule redis_getName(2) [OF inv that])
  assume "admissible newid cfg (redis_abs dec s)"
  from redis_save [OF inv this] show "redis_inv enc dec name_of (fst (Redis_Save check enc name_of newid True cfg s))"
    "spec_save check newid cfg (redis_abs dec s) =
      (redis_abs dec (fst (Redis_Save check enc name_of newid True cfg s)), snd (Redis_Save check enc name_of newid True cfg s))"
    by blast+
qed

interpretation stores: two_managers check "file_inv enc dec name_of" fs_configs
    "\<lambda>newid. File_Save check enc newid SaveOk" "File_Delete True" File_Get File_GetWithName
    "redis_inv enc dec name_of" "redis_abs dec"
    "\<lambda>newid. Redis_Save check enc name_of newid True" "Redis_Delete name_of True" "Redis_Get True dec" "Redis_GetWithName True dec"
  for check enc dec name_of
  by unfold_locales

section \<open>What clients of the stores see\<close>

definition empty_file_store :: "'t file_store" where
  "empty_file_store = \<lparr>fs_configs = Map.empty, fs_nameMap = Map.empty, fs_disk = Map.empty\<rparr>"

definition empty_redis_store :: "'t redis_store" where
  "empty_redis_store = \<lparr>rs_workflows = Map.empty, rs_names = Map.empty\<rparr>"

lemma empty_stores:
  "codec_ok enc dec name_of \<Longrightarrow> file_inv enc dec name_of empty_file_store"
  "codec_ok enc dec name_of \<Longrightarrow> redis_inv enc dec name_of empty_redis_store"
  "redis_abs dec empty_redis_store = Map.empty" "fs_configs empty_file_store = Map.empty"
  by (auto simp: file_inv_def redis_inv_def redis_abs_def empty_file_store_def empty_redis_store_def fun_eq_iff)


definition named_config :: "string \<Rightarrow> string \<Rightarrow> WorkflowConfig" where
  "named_config i name = sample_config\<lparr>w_ID := i, w_Name := name\<rparr>"

lemma identity_codec: "codec_ok Some Some (\<lambda>c. Some (w_Name c))"
  by (simp add: codec_ok_def)

definition sample_store :: "(unit, unit) PluginStore" where
  "sample_store = NewPluginStore [\<lparr>rs_namespace = LocalNamespace, rs_builders = [''vad'' \<mapsto> sample_builder]\<rparr>] [Some 0]"

abbreviation sample_check :: "WorkflowConfig \<Rightarrow> unit config_error option" where
  "sample_check \<equiv> check_config ([''local''], [''b'', ''a''], [''a'', ''b'']) (Some sample_store)"

lemma sample_check_ok: "sample_check (named_config i name) = None"
  by (simp add: check_config_def ResolvePluginBuilders_def named_config_def sample_config_def sample_node_def
      LoadBuilder_def sample_store_def NewPluginStore_def Resource_LoadBuilder_def BuildGraph_def parseNodes_def checkSelfLoops_def
      validateEdgeContracts_def edge_prefix_def sample_builder_def GenericBuilder_def ValidateProperties_def)


section \<open>Restart\<close>

datatype file_op = FSave string save_io WorkflowConfig | FDelete bool string

fun file_step :: "(WorkflowConfig \<Rightarrow> 'e config_error option) \<Rightarrow> (WorkflowConfig \<Rightarrow> 't option) \<Rightarrow> file_op \<Rightarrow> 't file_store \<Rightarrow> 't file_store" where
  "file_step check enc (FSave newid io cfg) m =
     (if admissible newid cfg (fs_configs m) then fst (File_Save check enc newid io cfg m) else m)"
| "file_step check enc (FDelete removed i) m = fst (File_Delete removed i m :: _ \<times> 'e config_error option)"

lemma file_step_inv:
  assumes "file_inv enc dec name_of m"
  shows "file_inv enc dec name_of (file_step check enc op m)"
proof (cases op)
  case (FSave newid io cfg)
  show ?thesis
  proof (cases io)
    case SaveOk
    then show ?thesis using assms file_save_inv [OF assms, of newid cfg check] by (simp add: FSave)
  next
    case RenameFails
    then have "fs_configs (file_step check enc op m) = fs_configs m" "fs_nameMap (file_step check enc op m) = fs_nameMap m"
      "fs_disk (file_step check enc op m) (json_file i) = fs_disk m (json_file i)" for i
      by (simp_all add: FSave File_Save_def Let_def split: option.split)
    then show ?thesis using assms by (simp add: file_inv_def)
  qed (use assms in \<open>simp add: FSave File_Save_def Let_def split: option.split\<close>)
next
  case (FDelete removed i)
  then show ?thesis using assms file_delete_inv [OF assms, of i] by (cases removed) (simp_all add: File_Delete_def)
qed

lemma suffix_json_file: "drop (length f - 5) f = ''.json'' \<longleftrightarrow> (\<exists>i. f = json_file i)"
proof
  assume "drop (length f - 5) f = ''.json''"
  then have "f = take (length f - 5) f @ ''.json''" by (metis append_take_drop_id)
  then show "\<exists>i. f = json_file i" unfolding json_file_def by blast
qed (auto simp: json_file_def)

text \<open>Loading some of the files of a directory written by a store.\<close>

lemma load_files:
  assumes inv: "file_inv enc dec name_of m" and files: "set files \<subseteq> dom (fs_disk m)"
    and l: "fs_disk l = fs_disk m" "\<And>i. fs_configs l i = (if json_file i \<in> F then fs_configs m i else None)"
      "\<And>n i. fs_nameMap l n = Some i \<longleftrightarrow> json_file i \<in> F \<and> fs_nameMap m n = Some i"
  shows "fs_disk (fold (load_file dec) files l) = fs_disk m \<and>
    (\<forall>i. fs_configs (fold (load_file dec) files l) i = (if json_file i \<in> F \<union> set files then fs_configs m i else None)) \<and>
    (\<forall>n i. fs_nameMap (fold (load_file dec) files l) n = Some i \<longleftrightarrow> json_file i \<in> F \<union> set files \<and> fs_nameMap m n = Some i)"
  using files l
proof (induction files arbitrary: l F)
  case (Cons f files)
  define l1 where "l1 = load_file dec f l"
  have l1: "fs_disk l1 = fs_disk m \<and> (\<forall>i. fs_configs l1 i = (if json_file i \<in> insert f F then fs_configs m i else None)) \<and>
      (\<forall>n i. fs_nameMap l1 n = Some i \<longleftrightarrow> json_file i \<in> insert f F \<and> fs_nameMap m n = Some i)"
  proof (cases "drop (length f - 5) f = ''.json''")
    case False
    then have "l1 = l" "\<forall>i. f \<noteq> json_file i" using suffix_json_file [of f] by (auto simp: l1_def load_file_def)
    then show ?thesis using Cons.prems(2-4) by auto
  next
    case True
    then obtain i0 where f: "f = json_file i0" using suffix_json_file by blast
    obtain d where d: "fs_disk m f = Some d" using Cons.prems(1) by auto
    then obtain c where c: "fs_configs m i0 = Some c" "enc c = Some d" using file_invD(4) [OF inv, of i0 d] f by auto
    have dec: "dec d = Some c" using codec_enc [OF file_invD(1) [OF inv], of c] c(2) by auto
    have ci: "w_ID c = i0" "w_Name c \<noteq> ''''" using file_invD(2) [OF inv c(1)] by auto
    have l1: "l1 = l\<lparr>fs_configs := (fs_configs l)(i0 \<mapsto> c), fs_nameMap := (fs_nameMap l)(w_Name c \<mapsto> i0)\<rparr>"
      using True d dec ci Cons.prems(2) by (simp add: l1_def load_file_def)
    have nm: "fs_nameMap m (w_Name c) = Some i0" using file_invD(3) [OF inv, of "w_Name c" i0] c(1) by simp
    have nm': "n = w_Name c" if "fs_nameMap m n = Some i0" for n using file_invD(3) [OF inv, of n i0] c(1) that by simp
    have "fs_configs l1 i = (if json_file i \<in> insert f F then fs_configs m i else None)" for i
      using Cons.prems(3) [of i] c(1) by (cases "i = i0") (simp_all add: l1 f)
    moreover have "fs_nameMap l1 n = Some i \<longleftrightarrow> json_file i \<in> insert f F \<and> fs_nameMap m n = Some i" for n i
    proof (cases "n = w_Name c")
      case True
      then show ?thesis using nm by (auto simp: l1 f)
    next
      case False
      then have "i \<noteq> i0" if "fs_nameMap m n = Some i" using nm' that by auto
      then show ?thesis using Cons.prems(4) [of n i] False by (auto simp: l1 f)
    qed
    ultimately show ?thesis using Cons.prems(2) by (simp add: l1)
  qed
  then show ?case using Cons.IH [of l1 "insert f F"] Cons.prems(1) by (simp add: l1_def)
qed auto



text \<open>C30. A configuration without a name cannot be removed from the file store completely: \<open>Save\<close> indexes
  the empty name and \<open>Delete\<close> skips it, so a lookup of the empty name then succeeds with an
  empty configuration, where the Redis store reports that there is none.\<close>

theorem unnamed_config_lingers:
  assumes "codec_ok enc dec name_of" "check_config ords store cfg = None" "w_Name cfg = ''''" "\<not> blank (w_ID cfg)"
    and "m1 = fst (File_Save (check_config ords store) enc newid SaveOk cfg empty_file_store)"
    and "m2 = fst (File_Delete True (w_ID cfg) m1 :: _ \<times> 'e config_error option)"
    and "r1 = fst (Redis_Save (check_config ords store) enc name_of newid True cfg empty_redis_store)"
    and "r2 = fst (Redis_Delete name_of True (w_ID cfg) r1 :: _ \<times> 'e config_error option)"
  shows "File_Get (w_ID cfg) m2 = (Inl WorkflowNotFound :: 'e config_error + _) \<and>
    File_GetWithName '''' m2 = (Inr zero_config :: 'e config_error + _) \<and>
    Redis_GetWithName True dec '''' r2 = (Inl WorkflowNotFound :: 'e config_error + _)"
proof -
  obtain d where d: "enc cfg = Some d" "name_of d = Some (w_Name cfg)" using codec_enc [OF assms(1)] by blast
  have w: "with_id newid cfg = cfg" using assms(4) by (simp add: with_id_def)
  have m1: "fs_configs m1 = [w_ID cfg \<mapsto> cfg]" "fs_nameMap m1 = ['''' \<mapsto> w_ID cfg]"
    using assms(2,3,5) d w by (auto simp: File_Save_def empty_file_store_def Let_def)
  have r1: "r1 = \<lparr>rs_workflows = [w_ID cfg \<mapsto> d], rs_names = ['''' \<mapsto> w_ID cfg]\<rparr>"
    using assms(2,3,7) d w by (simp add: Redis_Save_def luaSaveWorkflow_def empty_redis_store_def)
  have "fs_configs m2 = Map.empty" "fs_nameMap m2 = ['''' \<mapsto> w_ID cfg]"
    using assms(3,6) m1 by (auto simp: File_Delete_def)
  moreover have "rs_names r2 = Map.empty" using assms(3,8) d r1 by (auto simp: Redis_Delete_def luaDeleteWorkflow_def)
  ultimately show ?thesis by (simp add: File_Get_def File_GetWithName_def Redis_GetWithName_def)
qed

theorem unnamed_config_lingers_witness:
  "\<exists>m2 :: WorkflowConfig file_store. File_GetWithName '''' m2 = (Inr zero_config :: unit config_error + _) \<and>
     File_Get ''w'' m2 = (Inl WorkflowNotFound :: unit config_error + _)"
proof -
  have "\<not> blank (w_ID (named_config ''w'' ''''))" "w_Name (named_config ''w'' '''') = ''''" "w_ID (named_config ''w'' '''') = ''w''"
    by (simp_all add: named_config_def blank_def is_space_def)
  with unnamed_config_lingers [OF identity_codec sample_check_ok [of "''w''" "''''"] _ _ refl refl refl refl] show ?thesis by auto
qed

end
