(* ===== verification/Sessions.thy ===== *)
theory Sessions
  imports Workflow Packet ConfigStore "HOL-Library.AList"
begin

text \<open>
  \<open>internal/engine/session.go\<close>: the manager of persistent workflow sessions.

  Sessions and workflows are pointers in the source; here they are positions in the lists
  \<open>mg_heap\<close> and \<open>mg_wfs\<close>, which only grow. Times are Unix milliseconds. The locks make every
  operation atomic; observers are numbers, and the operations return the calls made on them.
  Go's map order is the argument \<open>order\<close>. A panic of \<open>Workflow.Stop\<close> is the result \<open>None\<close>.

  Parameters: the answers of the configuration manager (\<open>GetWithName\<close>), the plugin store, the
  answers of the plugins' \<open>OnStart\<close>, and the JSON library: parsing, printing, and the documented
  lookup (\<open>aget\<close>) and assignment (\<open>aset\<close>) of a member of an object. Every workflow has media
  heaps of its own here: objects do not travel between workflows.
\<close>

section \<open>Merging configurations\<close>

datatype json = JObject "(string \<times> json) list" | JOther bytes

type_synonym json_get = "(string \<times> json) list \<Rightarrow> string \<Rightarrow> json option"
type_synonym json_set = "(string \<times> json) list \<Rightarrow> string \<Rightarrow> json \<Rightarrow> (string \<times> json) list"

fun DeepMergeAST :: "json_get \<Rightarrow> json_set \<Rightarrow> json \<Rightarrow> json \<Rightarrow> json"
  and merge_members :: "json_get \<Rightarrow> json_set \<Rightarrow> (string \<times> json) list \<Rightarrow> (string \<times> json) list \<Rightarrow> (string \<times> json) list" where
  "DeepMergeAST aget aset base (JOther raw) = base"
| "DeepMergeAST aget aset base (JObject overlay) =
     (case base of JOther raw \<Rightarrow> base | JObject members \<Rightarrow> JObject (merge_members aget aset members overlay))"
| "merge_members aget aset members [] = members"
| "merge_members aget aset members ((key, node) # overlay) =
     merge_members aget aset
       (aset members key
         (case (aget members key, node) of
            (Some (JObject bs), JObject vs) \<Rightarrow> DeepMergeAST aget aset (JObject bs) node
          | _ \<Rightarrow> node)) overlay"

definition deepMergeJSON ::
  "(bytes \<Rightarrow> 'j + json) \<Rightarrow> (json \<Rightarrow> 'j + bytes) \<Rightarrow> json_get \<Rightarrow> json_set \<Rightarrow> bytes \<Rightarrow> bytes \<Rightarrow> 'j + bytes" where
  "deepMergeJSON parse print aget aset base overlay =
     (if base = [] then Inr overlay
      else if overlay = [] then Inr base
      else case parse base of
             Inl err \<Rightarrow> Inl err
           | Inr baseNode \<Rightarrow>
               (case parse overlay of
                  Inl err \<Rightarrow> Inl err
                | Inr overlayNode \<Rightarrow> print (DeepMergeAST aget aset baseNode overlayNode)))"

definition cloneAndMergeConfig ::
  "(bytes \<Rightarrow> bytes \<Rightarrow> 'j + bytes) \<Rightarrow> WorkflowConfig \<Rightarrow> (string \<rightharpoonup> bytes) \<Rightarrow> WorkflowConfig" where
  "cloneAndMergeConfig merge cfg properties =
     cfg\<lparr>w_Nodes := map (\<lambda>nd.
        case properties (n_Name nd) of
          None \<Rightarrow> nd
        | Some nodeProps \<Rightarrow>
            (case merge (n_Config nd) nodeProps of Inl _ \<Rightarrow> nd | Inr merged \<Rightarrow> nd\<lparr>n_Config := merged\<rparr>)) (w_Nodes cfg)\<rparr>"

section \<open>Observers\<close>

definition addObserver :: "nat option list \<Rightarrow> nat \<Rightarrow> int \<Rightarrow> int \<times> nat option list \<times> int" where
  "addObserver observers fn cnt =
     (if cnt = int (length observers) then (int (length observers), observers @ [Some fn], cnt + 1)
      else case List.find (\<lambda>i. observers ! i = None) [0..<length observers] of
             Some i \<Rightarrow> (int i, observers[i := Some fn], cnt + 1)
           | None \<Rightarrow> (- 1, observers, cnt))"

definition removeObserver :: "nat option list \<Rightarrow> int \<Rightarrow> int \<Rightarrow> nat option list \<times> int" where
  "removeObserver observers index cnt =
     (if index < 0 \<or> index \<ge> int (length observers) then (observers, cnt)
      else if observers ! nat index \<noteq> None then (observers[nat index := None], cnt - 1)
      else (observers, cnt))"

definition observer_snapshot :: "nat option list \<Rightarrow> int \<Rightarrow> nat list" where
  "observer_snapshot observers cnt = (if cnt > 0 then List.map_filter (\<lambda>x. x) observers else [])"

section \<open>The manager\<close>

record Session =
  ss_Key :: SessionKey
  ss_Workflow :: nat
  ss_LastActive :: int
  ss_CreatedAt :: int
  ss_busy :: bool

record ('p, 'v) SessionManager =
  mg_sessions :: "SessionKey \<rightharpoonup> nat"
  mg_heap :: "Session list"
  mg_wfs :: "('p, 'v) workflow list"
  mg_timeout :: int
  mg_onCreated :: "nat option list"
  mg_onCreatedCount :: int
  mg_onDeleted :: "nat option list"
  mg_onDeletedCount :: int
  mg_ctx :: ctx
  mg_active :: int

definition NewSessionManager :: "int \<Rightarrow> ('p, 'v) SessionManager" where
  "NewSessionManager timeout =
     \<lparr>mg_sessions = Map.empty, mg_heap = [], mg_wfs = [], mg_timeout = timeout,
      mg_onCreated = replicate 4 None, mg_onCreatedCount = 0, mg_onDeleted = replicate 4 None, mg_onDeletedCount = 0,
      mg_ctx = None, mg_active = 0\<rparr>"

definition AddCreatedObserver :: "nat \<Rightarrow> ('p, 'v) SessionManager \<Rightarrow> int \<times> ('p, 'v) SessionManager" where
  "AddCreatedObserver fn sm =
     (case addObserver (mg_onCreated sm) fn (mg_onCreatedCount sm) of
        (index, observers, cnt) \<Rightarrow> (index, sm\<lparr>mg_onCreated := observers, mg_onCreatedCount := cnt\<rparr>))"

definition RemoveCreatedObserver :: "int \<Rightarrow> ('p, 'v) SessionManager \<Rightarrow> ('p, 'v) SessionManager" where
  "RemoveCreatedObserver index sm =
     (case removeObserver (mg_onCreated sm) index (mg_onCreatedCount sm) of
        (observers, cnt) \<Rightarrow> sm\<lparr>mg_onCreated := observers, mg_onCreatedCount := cnt\<rparr>)"

definition AddDeletedObserver :: "nat \<Rightarrow> ('p, 'v) SessionManager \<Rightarrow> int \<times> ('p, 'v) SessionManager" where
  "AddDeletedObserver fn sm =
     (case addObserver (mg_onDeleted sm) fn (mg_onDeletedCount sm) of
        (index, observers, cnt) \<Rightarrow> (index, sm\<lparr>mg_onDeleted := observers, mg_onDeletedCount := cnt\<rparr>))"

definition RemoveDeletedObserver :: "int \<Rightarrow> ('p, 'v) SessionManager \<Rightarrow> ('p, 'v) SessionManager" where
  "RemoveDeletedObserver index sm =
     (case removeObserver (mg_onDeleted sm) index (mg_onDeletedCount sm) of
        (observers, cnt) \<Rightarrow> sm\<lparr>mg_onDeleted := observers, mg_onDeletedCount := cnt\<rparr>)"

definition stop_workflow :: "nat \<Rightarrow> ('p, 'v) SessionManager \<Rightarrow> ('p, 'v) SessionManager option" where
  "stop_workflow i sm = map_option (\<lambda>w. sm\<lparr>mg_wfs := (mg_wfs sm)[i := w]\<rparr>) (Stop (mg_wfs sm ! i))"

fun stop_sessions :: "nat list \<Rightarrow> ('p, 'v) SessionManager \<Rightarrow> ('p, 'v) SessionManager option" where
  "stop_sessions [] sm = Some sm"
| "stop_sessions (s # ss) sm = Option.bind (stop_workflow (ss_Workflow (mg_heap sm ! s)) sm) (stop_sessions ss)"

definition SM_Stop :: "SessionKey list \<Rightarrow> ('p, 'v) SessionManager \<Rightarrow> ('p, 'v) SessionManager option" where
  "SM_Stop order sm =
     (let ids = List.map_filter (mg_sessions sm) order
      in map_option (\<lambda>sm'. sm'\<lparr>mg_sessions := Map.empty, mg_ctx := Some Canceled, mg_active := mg_active sm' - int (length ids)\<rparr>)
           (stop_sessions ids sm))"

datatype 'e session_error =
    ConfigLookup "'e config_error"
  | ResolveFailed "'e registry_error"
  | GraphFailed graph_error
  | WorkflowFailed "'e workflow_error"
  | StartFailed "'e workflow_error"

text \<open>The record of what \<open>CreateSession\<close> gets from outside.\<close>

record ('e, 'p, 'j) session_env =
  se_GetWithName :: "string \<Rightarrow> 'e config_error + WorkflowConfig"
  se_merge :: "bytes \<Rightarrow> bytes \<Rightarrow> 'j + bytes"
  se_orders :: map_orders
  se_store :: "('e, 'p) PluginStore option"
  se_onStart :: "nat \<Rightarrow> 'e option"
  se_now :: int

text \<open>\<open>time.Now().Unix()\<close> is in seconds.\<close>

definition unix_seconds :: "int \<Rightarrow> int" where
  "unix_seconds ms = ms div 1000"

definition CreateSession ::
  "('e, 'p, 'j) session_env \<Rightarrow> ctx \<Rightarrow> SessionKey \<Rightarrow> string \<Rightarrow> (string \<rightharpoonup> bytes) \<Rightarrow> ('p, 'v) SessionManager \<Rightarrow>
   ('p, 'v) SessionManager \<times> ('e session_error + nat) \<times> nat list" where
  "CreateSession env ctx key name properties sm =
     (case se_GetWithName env name of
        Inl err \<Rightarrow> (sm, Inl (ConfigLookup err), [])
      | Inr cfg \<Rightarrow>
          (let newCfg = cloneAndMergeConfig (se_merge env) cfg properties
           in case ResolvePluginBuilders (fst (se_orders env)) (se_store env) (w_Nodes newCfg) of
                Inl err \<Rightarrow> (sm, Inl (ResolveFailed err), [])
              | Inr builders \<Rightarrow>
                  (case BuildGraph (fst (snd (se_orders env))) (snd (snd (se_orders env))) newCfg builders of
                     Inl err \<Rightarrow> (sm, Inl (GraphFailed err), [])
                   | Inr graph \<Rightarrow>
                       (case NewWorkflow ctx graph builders mh_empty mh_empty of
                          Inl err \<Rightarrow> (sm, Inl (WorkflowFailed err), [])
                        | Inr w \<Rightarrow>
                            (case Start (se_onStart env) w of
                               (w', Some err) \<Rightarrow> (sm\<lparr>mg_wfs := mg_wfs sm @ [w']\<rparr>, Inl (StartFailed err), [])
                             | (w', None) \<Rightarrow>
                                 (let session = \<lparr>ss_Key = key, ss_Workflow = length (mg_wfs sm),
                                        ss_LastActive = unix_seconds (se_now env), ss_CreatedAt = se_now env, ss_busy = False\<rparr>;
                                      s = length (mg_heap sm)
                                  in (sm\<lparr>mg_wfs := mg_wfs sm @ [w'], mg_heap := mg_heap sm @ [session],
                                         mg_sessions := (mg_sessions sm)(key \<mapsto> s), mg_active := mg_active sm + 1\<rparr>,
                                      Inr s, observer_snapshot (mg_onCreated sm) (mg_onCreatedCount sm))))))))"

definition upd_session :: "nat \<Rightarrow> (Session \<Rightarrow> Session) \<Rightarrow> ('p, 'v) SessionManager \<Rightarrow> ('p, 'v) SessionManager" where
  "upd_session s f sm = sm\<lparr>mg_heap := (mg_heap sm)[s := f (mg_heap sm ! s)]\<rparr>"

definition UpdateActivity :: "int \<Rightarrow> Session \<Rightarrow> Session" where
  "UpdateActivity now s = s\<lparr>ss_LastActive := now\<rparr>"

definition Session_Acquire :: "Session \<Rightarrow> Session \<times> bool" where
  "Session_Acquire s = (if ss_busy s then (s, False) else (s\<lparr>ss_busy := True\<rparr>, True))"

definition Session_Release :: "Session \<Rightarrow> Session" where
  "Session_Release s = s\<lparr>ss_busy := False\<rparr>"

definition LoadSession :: "int \<Rightarrow> SessionKey \<Rightarrow> ('p, 'v) SessionManager \<Rightarrow> ('p, 'v) SessionManager \<times> nat option" where
  "LoadSession now key sm =
     (case mg_sessions sm key of
        None \<Rightarrow> (sm, None)
      | Some s \<Rightarrow> (upd_session s (UpdateActivity now) sm, Some s))"

definition RemoveSession :: "SessionKey \<Rightarrow> ('p, 'v) SessionManager \<Rightarrow> (('p, 'v) SessionManager \<times> (nat \<times> nat) list) option" where
  "RemoveSession key sm =
     (case mg_sessions sm key of
        None \<Rightarrow> Some (sm, [])
      | Some s \<Rightarrow>
          (let observers = observer_snapshot (mg_onDeleted sm) (mg_onDeletedCount sm);
               sm1 = sm\<lparr>mg_sessions := (mg_sessions sm)(key := None), mg_active := mg_active sm - 1\<rparr>;
               i = ss_Workflow (mg_heap sm ! s)
           in map_option (\<lambda>sm2. (sm2, map (\<lambda>fn. (fn, s)) observers))
                (if wf_state (mg_wfs sm ! i) \<noteq> Stopped then stop_workflow i sm1 else Some sm1)))"

definition idle :: "int \<Rightarrow> ('p, 'v) SessionManager \<Rightarrow> nat \<Rightarrow> bool" where
  "idle now sm s \<longleftrightarrow> \<not> now - ss_LastActive (mg_heap sm ! s) < mg_timeout sm"

definition Cleanup :: "int \<Rightarrow> SessionKey list \<Rightarrow> ('p, 'v) SessionManager \<Rightarrow> (('p, 'v) SessionManager \<times> (nat \<times> nat) list) option" where
  "Cleanup now order sm =
     (let victims = filter (\<lambda>k. case mg_sessions sm k of None \<Rightarrow> False | Some s \<Rightarrow> idle now sm s) order;
          toBeStopped = map (\<lambda>k. the (mg_sessions sm k)) victims;
          observers = observer_snapshot (mg_onDeleted sm) (mg_onDeletedCount sm);
          sm1 = sm\<lparr>mg_sessions := (\<lambda>k. if k \<in> set victims then None else mg_sessions sm k),
                    mg_active := mg_active sm - int (length toBeStopped)\<rparr>
      in map_option (\<lambda>sm2. (sm2, concat (map (\<lambda>s. map (\<lambda>fn. (fn, s)) observers) toBeStopped)))
           (stop_sessions toBeStopped sm1))"

definition SM_Count :: "SessionKey list \<Rightarrow> ('p, 'v) SessionManager \<Rightarrow> nat" where
  "SM_Count order sm = length (List.map_filter (mg_sessions sm) order)"

section \<open>Merged configurations\<close>

definition json_law :: "json_get \<Rightarrow> json_set \<Rightarrow> bool" where
  "json_law aget aset \<longleftrightarrow> (\<forall>ms k v k'. aget (aset ms k v) k' = (if k' = k then Some v else aget ms k'))"

definition merged :: "json_get \<Rightarrow> json_set \<Rightarrow> json option \<Rightarrow> json \<Rightarrow> json" where
  "merged aget aset old v =
     (case (old, v) of (Some (JObject bs), JObject vs) \<Rightarrow> DeepMergeAST aget aset (JObject bs) v | _ \<Rightarrow> v)"

text \<open>C31. Merging overrides key by key: a key of the overlay is merged recursively when both sides hold an
  object, and takes the overlay's value otherwise; every other key keeps its value.\<close>

theorem deep_merge_keys:
  assumes "json_law aget aset" "distinct (map fst overlay)"
  shows "DeepMergeAST aget aset (JObject members) (JObject overlay) = JObject (merge_members aget aset members overlay) \<and>
    aget (merge_members aget aset members overlay) k =
      (case map_of overlay k of None \<Rightarrow> aget members k | Some v \<Rightarrow> Some (merged aget aset (aget members k) v))"
  using assms(2)
proof (induction overlay arbitrary: members)
  case (Cons e overlay)
  obtain key node where e: "e = (key, node)" by (cases e)
  define ms where "ms = aset members key (merged aget aset (aget members key) node)"
  have ms: "aget ms k' = (if k' = key then Some (merged aget aset (aget members key) node) else aget members k')" for k'
    using assms(1) by (simp add: ms_def json_law_def)
  have step: "merge_members aget aset members (e # overlay) = merge_members aget aset ms overlay"
    by (simp add: e ms_def merged_def)
  have nk: "map_of overlay key = None" using Cons.prems by (simp add: e map_of_eq_None_iff)
  have "aget (merge_members aget aset ms overlay) k =
      (case map_of overlay k of None \<Rightarrow> aget ms k | Some v \<Rightarrow> Some (merged aget aset (aget ms k) v))"
    using Cons.IH [of ms] Cons.prems by (simp add: e)
  then show ?case unfolding step using ms nk step by (auto simp: e split: option.split)
qed simp

theorem deep_merge_keys_witness:
  "\<exists>aget aset. json_law aget aset \<and>
     aget (merge_members aget aset [(''voice'', JOther [1]), (''rate'', JOther [2])] [(''rate'', JOther [3])]) ''rate'' = Some (JOther [3])"
proof -
  let ?get = "map_of :: json_get" and ?set = "\<lambda>ms k v. AList.update k v ms"
  have law: "json_law ?get ?set" by (auto simp: json_law_def update_conv')
  from deep_merge_keys [OF law, of "[(''rate'', JOther [3])]" "[(''voice'', JOther [1]), (''rate'', JOther [2])]" "''rate''"]
  have "?get (merge_members ?get ?set [(''voice'', JOther [1]), (''rate'', JOther [2])] [(''rate'', JOther [3])]) ''rate'' = Some (JOther [3])"
    by (simp add: merged_def)
  with law show ?thesis by blast
qed

section \<open>The observer tables\<close>

datatype observer_op = ObsAdd nat | ObsRemove int

fun observer_step :: "observer_op \<Rightarrow> nat option list \<times> int \<Rightarrow> nat option list \<times> int" where
  "observer_step (ObsAdd fn) (observers, cnt) = snd (addObserver observers fn cnt)"
| "observer_step (ObsRemove i) (observers, cnt) = removeObserver observers i cnt"

definition registered :: "nat option list \<Rightarrow> nat" where
  "registered observers = length (filter (\<lambda>x. x \<noteq> None) observers)"

lemma registered_Cons [simp]: "registered [] = 0" "registered (y # ys) = (if y \<noteq> None then 1 else 0) + registered ys"
  by (simp_all add: registered_def)

lemma registered_snoc [simp]: "registered (xs @ [Some x]) = Suc (registered xs)"
  by (simp add: registered_def)

lemma registered_update:
  "i < length xs \<Longrightarrow> int (registered (xs[i := x])) =
     int (registered xs) - (if xs ! i \<noteq> None then 1 else 0) + (if x \<noteq> None then 1 else 0)"
proof (induction xs arbitrary: i)
  case (Cons y xs)
  show ?case
  proof (cases i)
    case (Suc j)
    then show ?thesis using Cons.IH [of j] Cons.prems by (simp split: if_splits)
  qed simp
qed simp

lemma registered_full: "registered xs = length xs \<longleftrightarrow> (\<forall>i<length xs. xs ! i \<noteq> None)"
proof -
  have le: "registered ys \<le> length ys" for ys by (simp add: registered_def)
  have "registered xs = length xs \<longleftrightarrow> (\<forall>x\<in>set xs. x \<noteq> None)"
  proof (induction xs)
    case (Cons x xs)
    then show ?case using le [of xs] by (cases x) auto
  qed simp
  then show ?thesis by (simp only: all_set_conv_all_nth)
qed

lemma find_free:
  assumes "registered xs \<noteq> length xs"
  obtains i where "List.find (\<lambda>i. xs ! i = None) [0..<length xs] = Some i" "i < length xs" "xs ! i = None"
proof -
  obtain j where "j < length xs" "xs ! j = None" using assms registered_full by blast
  then have "List.find (\<lambda>i. xs ! i = None) [0..<length xs] \<noteq> None" by (auto simp: find_None_iff)
  then obtain i where "List.find (\<lambda>i. xs ! i = None) [0..<length xs] = Some i" by blast
  moreover from this have "i < length xs" "xs ! i = None" by (auto simp: find_Some_iff)
  ultimately show ?thesis by (rule that)
qed

lemma observer_run:
  "cnt = int (registered obs) \<Longrightarrow> fold observer_step ops (obs, cnt) = (obs', cnt') \<Longrightarrow> cnt' = int (registered obs')"
proof (induction ops arbitrary: obs cnt)
  case (Cons op ops)
  obtain o1 c1 where s: "observer_step op (obs, cnt) = (o1, c1)" by (cases "observer_step op (obs, cnt)")
  have "c1 = int (registered o1)"
  proof (cases op)
    case (ObsAdd fn)
    show ?thesis
    proof (cases "registered obs = length obs")
      case True
      then show ?thesis using s ObsAdd Cons.prems(1) by (auto simp: addObserver_def)
    next
      case False
      then obtain i where "List.find (\<lambda>i. obs ! i = None) [0..<length obs] = Some i" "i < length obs" "obs ! i = None"
        by (rule find_free)
      then show ?thesis using s ObsAdd Cons.prems(1) False by (auto simp: addObserver_def registered_update)
    qed
  next
    case (ObsRemove i)
    then show ?thesis
      using s Cons.prems(1) registered_update [of "nat i" obs None] by (auto simp: removeObserver_def split: if_splits)
  qed
  then show ?case using Cons.IH [of c1 o1] Cons.prems(2) s by simp
qed simp

text \<open>C32. After any history of additions and removals the counter of an observer table is the number of
  registered observers, and adding one always succeeds: it goes to a free slot, whose index is
  returned, and displaces nobody.\<close>

theorem observers_kept:
  "case fold observer_step ops (replicate 4 None, 0) of
     (observers, cnt) \<Rightarrow> cnt = int (registered observers) \<and>
       (\<exists>i observers'. addObserver observers fn cnt = (int i, observers', cnt + 1) \<and> observers' ! i = Some fn \<and>
          i < length observers' \<and> (\<forall>j<length observers. j = i \<longrightarrow> observers ! j = None) \<and>
          (\<forall>j<length observers. j \<noteq> i \<longrightarrow> observers' ! j = observers ! j))"
proof -
  obtain obs cnt where f: "fold observer_step ops (replicate 4 None, 0) = (obs, cnt)"
    by (cases "fold observer_step ops (replicate 4 None, 0)")
  have c: "cnt = int (registered obs)" using observer_run [OF _ f] by (simp add: registered_def)
  show ?thesis
  proof (cases "registered obs = length obs")
    case True
    then show ?thesis using f c by (auto simp: addObserver_def nth_append)
  next
    case False
    then obtain i where "List.find (\<lambda>i. obs ! i = None) [0..<length obs] = Some i" "i < length obs" "obs ! i = None"
      by (rule find_free)
    then show ?thesis using f c False by (auto simp: addObserver_def)
  qed
qed

theorem observers_kept_witness:
  "\<exists>i observers'. addObserver [None, None, None, None] 9 0 = (int i, observers', 1) \<and> observers' ! i = Some 9"
  using observers_kept [of 9 "[ObsAdd 7, ObsRemove 0]"]
  by (simp add: addObserver_def removeObserver_def numeral_eq_Suc upt_rec)

section \<open>Session accounting\<close>

definition closed_stopped :: "('p, 'v) workflow \<Rightarrow> bool" where
  "closed_stopped w \<longleftrightarrow> (ch_closed (wf_output w) \<longrightarrow> wf_state w = Stopped)"

text \<open>The workflows a manager is still responsible for: those of its sessions.\<close>

definition owned :: "('p, 'v) SessionManager \<Rightarrow> nat set" where
  "owned sm = (\<lambda>s. ss_Workflow (mg_heap sm ! s)) ` ran (mg_sessions sm)"

definition sess_inv :: "('p, 'v) SessionManager \<Rightarrow> bool" where
  "sess_inv sm \<longleftrightarrow>
     (\<forall>k s. mg_sessions sm k = Some s \<longrightarrow> s < length (mg_heap sm) \<and> ss_Key (mg_heap sm ! s) = k) \<and>
     (\<forall>ss\<in>set (mg_heap sm). ss_Workflow ss < length (mg_wfs sm)) \<and> distinct (map ss_Workflow (mg_heap sm)) \<and>
     (\<forall>w\<in>set (mg_wfs sm). closed_stopped w) \<and>
     (\<forall>i<length (mg_wfs sm). i \<notin> owned sm \<longrightarrow> wf_state (mg_wfs sm ! i) = Stopped) \<and>
     finite (dom (mg_sessions sm)) \<and> mg_active sm = int (card (dom (mg_sessions sm)))"

lemma Stop_closed_stopped:
  assumes "closed_stopped w"
  obtains w' where "Stop w = Some w'" "wf_state w' = Stopped" "closed_stopped w'"
proof (cases "wf_state w = Stopped")
  case True
  then show ?thesis using that [of w] assms by (simp add: Stop_eq)
next
  case False
  then have "\<not> ch_closed (wf_output w)" using assms by (simp add: closed_stopped_def)
  then obtain w' where "Stop w = Some w'" "wf_state w' = Stopped" using False by (simp add: Stop_eq)
  then show ?thesis using that [of w'] by (simp add: closed_stopped_def)
qed

lemma stop_sessions_ok:
  assumes "\<forall>w\<in>set (mg_wfs sm). closed_stopped w" "\<forall>s\<in>set ss. ss_Workflow (mg_heap sm ! s) < length (mg_wfs sm)"
  shows "\<exists>ws. stop_sessions ss sm = Some (sm\<lparr>mg_wfs := ws\<rparr>) \<and> length ws = length (mg_wfs sm) \<and> (\<forall>w\<in>set ws. closed_stopped w) \<and>
    (\<forall>i<length ws. wf_state (ws ! i) = (if i \<in> (\<lambda>s. ss_Workflow (mg_heap sm ! s)) ` set ss then Stopped else wf_state (mg_wfs sm ! i)))"
  using assms
proof (induction ss arbitrary: sm)
  case Nil
  then show ?case by (intro exI [of _ "mg_wfs sm"]) simp
next
  case (Cons s ss)
  define i where "i = ss_Workflow (mg_heap sm ! s)"
  have i: "i < length (mg_wfs sm)" using Cons.prems(2) by (simp add: i_def)
  then have "closed_stopped (mg_wfs sm ! i)" using Cons.prems(1) by simp
  then obtain w where w: "Stop (mg_wfs sm ! i) = Some w" "wf_state w = Stopped" "closed_stopped w" by (rule Stop_closed_stopped)
  define sm1 where "sm1 = sm\<lparr>mg_wfs := (mg_wfs sm)[i := w]\<rparr>"
  have s1: "stop_workflow i sm = Some sm1" using w by (simp add: stop_workflow_def sm1_def)
  have c1: "\<forall>w\<in>set (mg_wfs sm1). closed_stopped w"
  proof
    fix v
    assume "v \<in> set (mg_wfs sm1)"
    then have "v = w \<or> v \<in> set (mg_wfs sm)" using set_update_subset_insert [of "mg_wfs sm" i w] by (auto simp: sm1_def)
    then show "closed_stopped v" using Cons.prems(1) w(3) by blast
  qed
  moreover have "\<forall>s\<in>set ss. ss_Workflow (mg_heap sm1 ! s) < length (mg_wfs sm1)" using Cons.prems(2) by (simp add: sm1_def)
  ultimately obtain ws where ws: "stop_sessions ss sm1 = Some (sm1\<lparr>mg_wfs := ws\<rparr>)" "length ws = length (mg_wfs sm1)"
      "\<forall>w\<in>set ws. closed_stopped w"
      "\<forall>j<length ws. wf_state (ws ! j) = (if j \<in> (\<lambda>s. ss_Workflow (mg_heap sm1 ! s)) ` set ss then Stopped else wf_state (mg_wfs sm1 ! j))"
    using Cons.IH [of sm1] by blast
  have "wf_state (ws ! j) = (if j \<in> (\<lambda>s. ss_Workflow (mg_heap sm ! s)) ` set (s # ss) then Stopped else wf_state (mg_wfs sm ! j))"
    if "j < length ws" for j
    using ws(2,4) that i w(2) by (cases "j = i") (auto simp: sm1_def i_def)
  then show ?case using s1 ws(1-3) by (intro exI [of _ ws]) (simp add: i_def [symmetric] sm1_def)
qed

lemma sess_inv_heap: "sess_inv sm \<Longrightarrow> mg_sessions sm k = Some s \<Longrightarrow> s < length (mg_heap sm) \<and> ss_Workflow (mg_heap sm ! s) < length (mg_wfs sm)"
  unfolding sess_inv_def by (metis nth_mem)

text \<open>Dropping a set of sessions from the table and stopping their workflows keeps the invariant.\<close>

lemma drop_sessions_inv:
  assumes inv: "sess_inv sm" and dom: "set ks \<subseteq> dom (mg_sessions sm)" "distinct ks"
    and sm1: "sm1 = sm\<lparr>mg_sessions := (\<lambda>k. if k \<in> set ks then None else mg_sessions sm k), mg_active := mg_active sm - int (length ks)\<rparr>"
  shows "\<exists>ws. stop_sessions (map (\<lambda>k. the (mg_sessions sm k)) ks) sm1 = Some (sm1\<lparr>mg_wfs := ws\<rparr>) \<and> sess_inv (sm1\<lparr>mg_wfs := ws\<rparr>) \<and>
    length ws = length (mg_wfs sm) \<and>
    (\<forall>i<length ws. wf_state (ws ! i) = (if i \<in> (\<lambda>k. ss_Workflow (mg_heap sm ! the (mg_sessions sm k))) ` set ks
       then Stopped else wf_state (mg_wfs sm ! i)))"
proof -
  let ?wf = "\<lambda>s. ss_Workflow (mg_heap sm ! s)" and ?ss = "map (\<lambda>k. the (mg_sessions sm k)) ks"
  have c: "\<forall>w\<in>set (mg_wfs sm1). closed_stopped w" using inv by (simp add: sm1 sess_inv_def)
  have b: "\<forall>s\<in>set ?ss. ss_Workflow (mg_heap sm1 ! s) < length (mg_wfs sm1)"
  proof
    fix s assume "s \<in> set ?ss"
    then obtain k where k: "k \<in> set ks" "s = the (mg_sessions sm k)" by auto
    then have "mg_sessions sm k = Some s" using dom(1) by (auto simp: domIff)
    then show "ss_Workflow (mg_heap sm1 ! s) < length (mg_wfs sm1)" using sess_inv_heap [OF inv] by (simp add: sm1)
  qed
  obtain ws where ws: "stop_sessions ?ss sm1 = Some (sm1\<lparr>mg_wfs := ws\<rparr>)" "length ws = length (mg_wfs sm)" "\<forall>w\<in>set ws. closed_stopped w"
      "\<forall>i<length ws. wf_state (ws ! i) = (if i \<in> ?wf ` set ?ss then Stopped else wf_state (mg_wfs sm ! i))"
    using stop_sessions_ok [OF c b] by (auto simp: sm1)
  have dom1: "dom (mg_sessions sm1) = dom (mg_sessions sm) - set ks" by (auto simp: sm1 split: if_splits)
  have card: "card (dom (mg_sessions sm)) = card (dom (mg_sessions sm1)) + length ks"
    using inv dom dom1 card_Diff_subset [of "set ks" "dom (mg_sessions sm)"] card_mono [of "dom (mg_sessions sm)" "set ks"]
    by (simp add: sess_inv_def distinct_card)
  have own: "owned sm \<subseteq> owned (sm1\<lparr>mg_wfs := ws\<rparr>) \<union> ?wf ` set ?ss"
  proof
    fix i assume "i \<in> owned sm"
    then obtain k s where k: "mg_sessions sm k = Some s" "i = ?wf s" by (auto simp: owned_def ran_def)
    show "i \<in> owned (sm1\<lparr>mg_wfs := ws\<rparr>) \<union> ?wf ` set ?ss"
    proof (cases "k \<in> set ks")
      case True
      then have "s \<in> set ?ss" using k by force
      then show ?thesis using k by blast
    next
      case False
      then have "s \<in> ran (mg_sessions sm1)" using k by (auto simp: sm1 intro: ranI)
      then show ?thesis using k by (auto simp: owned_def sm1)
    qed
  qed
  have st: "wf_state (ws ! i) = Stopped" if i: "i < length ws" "i \<notin> owned (sm1\<lparr>mg_wfs := ws\<rparr>)" for i
  proof (cases "i \<in> ?wf ` set ?ss")
    case True
    then show ?thesis using ws(4) i(1) by presburger
  next
    case False
    then have "i \<notin> owned sm" using own i(2) by blast
    then have "wf_state (mg_wfs sm ! i) = Stopped" using inv i(1) ws(2) by (simp add: sess_inv_def)
    then show ?thesis using ws(4) i(1) by presburger
  qed
  have "\<forall>k s. mg_sessions sm1 k = Some s \<longrightarrow> mg_sessions sm k = Some s" by (simp add: sm1)
  then have "\<forall>k s. mg_sessions sm1 k = Some s \<longrightarrow> s < length (mg_heap sm) \<and> ss_Key (mg_heap sm ! s) = k"
    using inv unfolding sess_inv_def by blast
  moreover have "mg_active sm1 = int (card (dom (mg_sessions sm1)))" using inv card by (simp add: sm1 sess_inv_def)
  moreover have "finite (dom (mg_sessions sm1))" using inv dom1 by (simp add: sess_inv_def)
  moreover have "mg_heap sm1 = mg_heap sm" by (simp add: sm1)
  ultimately have "sess_inv (sm1\<lparr>mg_wfs := ws\<rparr>)"
    using inv st ws(2,3) unfolding sess_inv_def by simp
  moreover have "?wf ` set ?ss = (\<lambda>k. ss_Workflow (mg_heap sm ! the (mg_sessions sm k))) ` set ks" by (simp add: image_image)
  ultimately show ?thesis using ws by (intro exI [of _ ws]) simp
qed

lemma created_workflow:
  fixes builders :: "string \<rightharpoonup> ('e, 'p) PluginBuilder" and onStart :: "nat \<Rightarrow> 'e option"
  assumes "NewWorkflow ctx g builders mh_empty mh_empty = Inr w" "Start onStart w = (w', r)"
  shows "closed_stopped w' \<and> (r \<noteq> None \<longrightarrow> wf_state w' = Stopped)"
proof (rule NewWorkflow_Inr [OF assms(1)])
  fix nodes exts im nm and workers :: "worker list"
  assume "w = \<lparr>wf_graph = g, wf_plugins = exts, wf_engine = \<lparr>en_ctx = ctx, en_sctx = ctx, en_nodes = nodes,
       en_workers = workers, en_audio = mh_empty, en_video = mh_empty\<rparr>, wf_indexMap = im, wf_nameMap = nm,
       wf_output = make_chan outputBufferSize, wf_state = Pending,
       wf_scheduler = (w_SchedulerMode (g_Config g) = SchedulerModeWorkerPool), wf_released = []\<rparr>"
  then have "wf_state w = Pending" "\<not> ch_closed (wf_output w)" by (simp_all add: make_chan_def)
  then show ?thesis
    using assms(2) by (auto simp: Start_def Start_claim_def Start_run_def closed_stopped_def split: prod.splits option.splits)
qed

text \<open>The three outcomes of \<open>CreateSession\<close>: nothing happens, a stopped workflow is left, or a session
  is registered.\<close>

lemma CreateSession_cases:
  fixes env :: "('e, 'p, 'j) session_env" and sm :: "('p, 'v) SessionManager"
  assumes "CreateSession env ctx key name properties sm = (sm', r, calls)"
  obtains e where "sm' = sm" "r = Inl e" "calls = []"
  | e w where "sm' = sm\<lparr>mg_wfs := mg_wfs sm @ [w]\<rparr>" "r = Inl e" "calls = []" "closed_stopped w" "wf_state w = Stopped"
  | w where "sm' = sm\<lparr>mg_wfs := mg_wfs sm @ [w],
        mg_heap := mg_heap sm @ [\<lparr>ss_Key = key, ss_Workflow = length (mg_wfs sm), ss_LastActive = unix_seconds (se_now env),
          ss_CreatedAt = se_now env, ss_busy = False\<rparr>],
        mg_sessions := (mg_sessions sm)(key \<mapsto> length (mg_heap sm)), mg_active := mg_active sm + 1\<rparr>"
      "r = Inr (length (mg_heap sm))" "calls = observer_snapshot (mg_onCreated sm) (mg_onCreatedCount sm)" "closed_stopped w"
proof (cases "se_GetWithName env name")
  case (Inl e)
  then show ?thesis using assms [symmetric] that(1) [of "ConfigLookup e"] by (simp add: CreateSession_def)
next
  case cfg: (Inr cfg)
  define newCfg where "newCfg = cloneAndMergeConfig (se_merge env) cfg properties"
  note unfold = CreateSession_def cfg Let_def newCfg_def [symmetric]
  show ?thesis
  proof (cases "ResolvePluginBuilders (fst (se_orders env)) (se_store env) (w_Nodes newCfg)")
    case (Inl e)
    then show ?thesis using assms [symmetric] that(1) [of "ResolveFailed e"] by (simp add: unfold)
  next
    case b: (Inr builders)
    show ?thesis
    proof (cases "BuildGraph (fst (snd (se_orders env))) (snd (snd (se_orders env))) newCfg builders")
      case (Inl e)
      then show ?thesis using assms [symmetric] that(1) [of "GraphFailed e"] by (simp add: unfold b)
    next
      case g: (Inr graph)
      show ?thesis
      proof (cases "NewWorkflow ctx graph builders mh_empty mh_empty :: 'e workflow_error + ('p, 'v) workflow")
        case (Inl e)
        then show ?thesis using assms [symmetric] that(1) [of "WorkflowFailed e"] by (simp add: unfold b g)
      next
        case w: (Inr w)
        obtain w' o' where s: "Start (se_onStart env) w = (w', o')" by (cases "Start (se_onStart env) w")
        note ok = created_workflow [OF w s]
        show ?thesis
        proof (cases o')
          case None
          then show ?thesis using assms [symmetric] that(3) [of w'] ok s by (simp add: unfold b g w)
        next
          case (Some e)
          then show ?thesis using assms [symmetric] that(2) [of w' "StartFailed e"] ok s by (simp add: unfold b g w)
        qed
      qed
    qed
  qed
qed

lemma create_inv:
  assumes inv: "sess_inv sm" and fresh: "mg_sessions sm key = None"
    and c: "CreateSession env ctx key name properties sm = (sm', r, calls)"
  shows "sess_inv sm'"
  using c
proof (cases rule: CreateSession_cases)
  case 1
  then show ?thesis using inv by simp
next
  case (2 e w)
  have "wf_state ((mg_wfs sm @ [w]) ! i) = Stopped" if "i < Suc (length (mg_wfs sm))" "i \<notin> owned sm" for i
    using that 2(5) inv by (cases "i = length (mg_wfs sm)") (auto simp: sess_inv_def nth_append)
  moreover have "owned sm' = owned sm" by (simp add: 2 owned_def)
  ultimately show ?thesis using inv 2(4) by (auto simp: sess_inv_def 2(1))
next
  case (3 w)
  let ?s = "length (mg_heap sm)" and ?i = "length (mg_wfs sm)"
  have ran: "ran (mg_sessions sm') = insert ?s (ran (mg_sessions sm))" using fresh by (simp add: 3 ran_map_upd)
  have old: "s < ?s" if "s \<in> ran (mg_sessions sm)" for s using inv that by (auto simp: sess_inv_def ran_def)
  have "owned sm' = insert ?i (owned sm)"
    unfolding owned_def ran using old by (auto simp: 3(1) nth_append image_iff)
  then have "wf_state (mg_wfs sm' ! i) = Stopped" if "i < length (mg_wfs sm')" "i \<notin> owned sm'" for i
    using that inv by (auto simp: 3(1) sess_inv_def nth_append less_Suc_eq)
  moreover have "\<forall>k s. mg_sessions sm' k = Some s \<longrightarrow> s < length (mg_heap sm') \<and> ss_Key (mg_heap sm' ! s) = k"
    using inv fresh by (auto simp: 3(1) sess_inv_def nth_append less_SucI)
  moreover have "\<forall>ss\<in>set (mg_heap sm'). ss_Workflow ss < length (mg_wfs sm')" "distinct (map ss_Workflow (mg_heap sm'))"
    using inv by (fastforce simp: 3(1) sess_inv_def less_Suc_eq)+
  moreover have "\<forall>w\<in>set (mg_wfs sm'). closed_stopped w" using inv 3(4) by (auto simp: 3(1) sess_inv_def)
  moreover have "card (dom (mg_sessions sm')) = Suc (card (dom (mg_sessions sm)))" "finite (dom (mg_sessions sm'))"
    using inv fresh by (auto simp: 3(1) sess_inv_def domIff card_insert_if)
  moreover have "mg_active sm' = mg_active sm + 1" by (simp add: 3(1))
  ultimately show ?thesis using inv unfolding sess_inv_def by simp
qed

lemma upd_session_inv:
  assumes "sess_inv sm" "\<And>x. ss_Key (f x) = ss_Key x \<and> ss_Workflow (f x) = ss_Workflow x"
  shows "sess_inv (upd_session s f sm)"
proof (cases "s < length (mg_heap sm)")
  case True
  let ?h = "(mg_heap sm)[s := f (mg_heap sm ! s)]"
  have key: "ss_Key (?h ! j) = ss_Key (mg_heap sm ! j)" "ss_Workflow (?h ! j) = ss_Workflow (mg_heap sm ! j)" for j
    using assms(2) True by (cases "j = s"; simp)+
  then have "map ss_Workflow ?h = map ss_Workflow (mg_heap sm)" by (intro nth_equalityI) auto
  moreover have "\<forall>x\<in>set ?h. ss_Workflow x < length (mg_wfs sm)"
    using assms(1) key(2) by (auto simp: sess_inv_def all_set_conv_all_nth)
  moreover have "owned (upd_session s f sm) = owned sm" by (simp add: owned_def upd_session_def key)
  ultimately show ?thesis using assms(1) key(1) unfolding sess_inv_def by (simp add: upd_session_def)
next
  case False
  then show ?thesis using assms(1) by (simp add: upd_session_def list_update_beyond)
qed

definition workflow_at :: "nat \<Rightarrow> (('p, 'v) workflow \<Rightarrow> ('p, 'v) workflow) \<Rightarrow> ('p, 'v) SessionManager \<Rightarrow> ('p, 'v) SessionManager" where
  "workflow_at i f sm = sm\<lparr>mg_wfs := (mg_wfs sm)[i := f (mg_wfs sm ! i)]\<rparr>"

lemma workflow_at_inv:
  assumes "sess_inv sm" "\<And>w. closed_stopped w \<Longrightarrow> closed_stopped (f w)" "\<And>w. wf_state w = Stopped \<Longrightarrow> wf_state (f w) = Stopped"
  shows "sess_inv (workflow_at i f sm)"
proof (cases "i < length (mg_wfs sm)")
  case True
  let ?ws = "(mg_wfs sm)[i := f (mg_wfs sm ! i)]"
  have "\<forall>w\<in>set ?ws. closed_stopped w"
  proof
    fix w assume "w \<in> set ?ws"
    then have "w = f (mg_wfs sm ! i) \<or> w \<in> set (mg_wfs sm)"
      using set_update_subset_insert [of "mg_wfs sm" i "f (mg_wfs sm ! i)"] by auto
    then show "closed_stopped w" using assms(1) assms(2) [of "mg_wfs sm ! i"] True by (auto simp: sess_inv_def)
  qed
  moreover have "wf_state (?ws ! j) = Stopped" if "j < length (mg_wfs sm)" "j \<notin> owned sm" for j
    using assms(1) assms(3) [of "mg_wfs sm ! i"] that by (cases "j = i") (simp_all add: sess_inv_def)
  moreover have "owned (workflow_at i f sm) = owned sm" by (simp add: owned_def workflow_at_def)
  ultimately show ?thesis using assms(1) unfolding sess_inv_def by (simp add: workflow_at_def)
next
  case False
  then show ?thesis using assms(1) by (simp add: workflow_at_def list_update_beyond)
qed

datatype ('e, 'p, 'j) session_op =
    SoCreate "('e, 'p, 'j) session_env" ctx SessionKey string "string \<rightharpoonup> bytes"
  | SoLoad int SessionKey | SoAcquire nat | SoRelease nat | SoRemove SessionKey
  | SoCleanup int "SessionKey list" | SoStop "SessionKey list" | SoPause nat | SoResume nat

fun session_step :: "('e, 'p, 'j) session_op \<Rightarrow> ('p, 'v) SessionManager \<Rightarrow> ('p, 'v) SessionManager option" where
  "session_step (SoCreate env ctx key name properties) sm = Some (fst (CreateSession env ctx key name properties sm))"
| "session_step (SoLoad now key) sm = Some (fst (LoadSession now key sm))"
| "session_step (SoAcquire s) sm = Some (upd_session s (fst \<circ> Session_Acquire) sm)"
| "session_step (SoRelease s) sm = Some (upd_session s Session_Release sm)"
| "session_step (SoRemove key) sm = map_option fst (RemoveSession key sm)"
| "session_step (SoCleanup now order) sm = map_option fst (Cleanup now order sm)"
| "session_step (SoStop order) sm = SM_Stop order sm"
| "session_step (SoPause i) sm = Some (workflow_at i (\<lambda>w. fst (Pause w :: _ \<times> unit workflow_error option \<times> _)) sm)"
| "session_step (SoResume i) sm = Some (workflow_at i (\<lambda>w. fst (Resume w :: _ \<times> unit workflow_error option \<times> _)) sm)"

text \<open>New sessions get keys that are not in use, and a \<open>range\<close> loop over the session map visits every
  key once.\<close>

fun admissible :: "('e, 'p, 'j) session_op \<Rightarrow> ('p, 'v) SessionManager \<Rightarrow> bool" where
  "admissible (SoCreate env ctx key name properties) sm = (mg_sessions sm key = None)"
| "admissible (SoCleanup now order) sm = enumerates order (mg_sessions sm)"
| "admissible (SoStop order) sm = enumerates order (mg_sessions sm)"
| "admissible op sm = True"

fun session_run :: "('e, 'p, 'j) session_op list \<Rightarrow> ('p, 'v) SessionManager \<Rightarrow> ('p, 'v) SessionManager option" where
  "session_run [] sm = Some sm"
| "session_run (op # ops) sm = Option.bind (session_step op sm) (session_run ops)"

fun all_admissible :: "('e, 'p, 'j) session_op list \<Rightarrow> ('p, 'v) SessionManager \<Rightarrow> bool" where
  "all_admissible [] sm = True"
| "all_admissible (op # ops) sm =
     (admissible op sm \<and> (case session_step op sm of None \<Rightarrow> True | Some sm' \<Rightarrow> all_admissible ops sm'))"

lemma cleanup_ok:
  assumes inv: "sess_inv sm" and en: "enumerates order (mg_sessions sm)"
  obtains ws where
    "Cleanup now order sm = Some (sm\<lparr>mg_sessions := (\<lambda>k. case mg_sessions sm k of None \<Rightarrow> None | Some s \<Rightarrow> if idle now sm s then None else Some s),
        mg_active := mg_active sm - int (length (filter (\<lambda>k. idle now sm (the (mg_sessions sm k))) order)), mg_wfs := ws\<rparr>,
      concat (map (\<lambda>k. map (\<lambda>fn. (fn, the (mg_sessions sm k))) (observer_snapshot (mg_onDeleted sm) (mg_onDeletedCount sm)))
        (filter (\<lambda>k. idle now sm (the (mg_sessions sm k))) order)))"
    "sess_inv (fst (the (Cleanup now order sm)))" "length ws = length (mg_wfs sm)"
    "\<forall>k s. mg_sessions sm k = Some s \<and> idle now sm s \<longrightarrow> wf_state (ws ! ss_Workflow (mg_heap sm ! s)) = Stopped"
proof -
  define ks where "ks = filter (\<lambda>k. idle now sm (the (mg_sessions sm k))) order"
  define sm1 where "sm1 = sm\<lparr>mg_sessions := (\<lambda>k. if k \<in> set ks then None else mg_sessions sm k), mg_active := mg_active sm - int (length ks)\<rparr>"
  have some: "mg_sessions sm k \<noteq> None" if "k \<in> set order" for k using en that by (auto simp: enumerates_def)
  have vic: "filter (\<lambda>k. case mg_sessions sm k of None \<Rightarrow> False | Some s \<Rightarrow> idle now sm s) order = ks"
    unfolding ks_def using some by (intro filter_cong) (fastforce split: option.split)+
  have dom: "set ks \<subseteq> dom (mg_sessions sm)" "distinct ks" using en by (auto simp: ks_def enumerates_def)
  obtain ws where ws: "stop_sessions (map (\<lambda>k. the (mg_sessions sm k)) ks) sm1 = Some (sm1\<lparr>mg_wfs := ws\<rparr>)" "sess_inv (sm1\<lparr>mg_wfs := ws\<rparr>)"
    "length ws = length (mg_wfs sm)"
    "\<forall>i<length ws. wf_state (ws ! i) = (if i \<in> (\<lambda>k. ss_Workflow (mg_heap sm ! the (mg_sessions sm k))) ` set ks
       then Stopped else wf_state (mg_wfs sm ! i))"
    using drop_sessions_inv [OF inv dom sm1_def] by blast
  have sess: "mg_sessions sm1 = (\<lambda>k. case mg_sessions sm k of None \<Rightarrow> None | Some s \<Rightarrow> if idle now sm s then None else Some s)"
    using en by (auto simp: sm1_def ks_def enumerates_def fun_eq_iff domIff split: option.split)
  have c: "Cleanup now order sm = Some (sm1\<lparr>mg_wfs := ws\<rparr>,
      concat (map (\<lambda>k. map (\<lambda>fn. (fn, the (mg_sessions sm k))) (observer_snapshot (mg_onDeleted sm) (mg_onDeletedCount sm))) ks))"
    using ws(1) by (simp add: Cleanup_def vic sm1_def Let_def comp_def)
  have st: "\<forall>k s. mg_sessions sm k = Some s \<and> idle now sm s \<longrightarrow> wf_state (ws ! ss_Workflow (mg_heap sm ! s)) = Stopped"
  proof (intro allI impI)
    fix k s assume "mg_sessions sm k = Some s \<and> idle now sm s"
    then have k: "mg_sessions sm k = Some s" "idle now sm s" by simp_all
    have "k \<in> set ks" using k en by (auto simp: ks_def enumerates_def)
    then have "ss_Workflow (mg_heap sm ! s) \<in> (\<lambda>k. ss_Workflow (mg_heap sm ! the (mg_sessions sm k))) ` set ks"
      using k(1) by (intro image_eqI [of _ _ k]) simp_all
    then show "wf_state (ws ! ss_Workflow (mg_heap sm ! s)) = Stopped" using ws(3,4) sess_inv_heap [OF inv k(1)] by simp
  qed
  have "sm1\<lparr>mg_wfs := ws\<rparr> = sm\<lparr>mg_sessions := mg_sessions sm1, mg_active := mg_active sm - int (length ks), mg_wfs := ws\<rparr>"
    by (simp add: sm1_def)
  then show ?thesis using that [of ws] c ws(2,3) st unfolding sess ks_def by simp
qed

lemma remove_ok:
  assumes inv: "sess_inv sm"
  shows "\<exists>sm' calls. RemoveSession key sm = Some (sm', calls) \<and> sess_inv sm' \<and> mg_sessions sm' = (mg_sessions sm)(key := None)"
proof (cases "mg_sessions sm key")
  case None
  then show ?thesis using inv by (simp add: RemoveSession_def fun_upd_idem)
next
  case (Some s)
  define sm1 where "sm1 = sm\<lparr>mg_sessions := (\<lambda>k. if k \<in> set [key] then None else mg_sessions sm k), mg_active := mg_active sm - int (length [key])\<rparr>"
  have up: "mg_sessions sm1 = (mg_sessions sm)(key := None)" by (auto simp: sm1_def fun_eq_iff)
  then have sm1: "sm1 = sm\<lparr>mg_sessions := (mg_sessions sm)(key := None), mg_active := mg_active sm - 1\<rparr>" by (simp add: sm1_def)
  obtain ws where ws: "stop_sessions [s] sm1 = Some (sm1\<lparr>mg_wfs := ws\<rparr>)" "sess_inv (sm1\<lparr>mg_wfs := ws\<rparr>)"
    using drop_sessions_inv [OF inv _ _ sm1_def] Some by auto
  let ?i = "ss_Workflow (mg_heap sm ! s)"
  have stop: "stop_workflow ?i sm1 = Some (sm1\<lparr>mg_wfs := ws\<rparr>)"
    using ws(1) by (simp add: sm1_def bind_eq_Some_conv)
  have "sm1\<lparr>mg_wfs := ws\<rparr> = sm1" if "wf_state (mg_wfs sm ! ?i) = Stopped"
    using stop that by (simp add: stop_workflow_def Stop_eq sm1_def)
  then show ?thesis
    using stop ws(2) up Some by (auto simp: RemoveSession_def Let_def sm1 [symmetric])
qed

lemma sm_stop_ok:
  assumes inv: "sess_inv sm" and en: "enumerates order (mg_sessions sm)"
  shows "\<exists>sm'. SM_Stop order sm = Some sm' \<and> sess_inv sm' \<and> mg_sessions sm' = Map.empty"
proof -
  define sm1 where "sm1 = sm\<lparr>mg_sessions := (\<lambda>k. if k \<in> set order then None else mg_sessions sm k), mg_active := mg_active sm - int (length order)\<rparr>"
  have ids: "List.map_filter (mg_sessions sm) order = map (\<lambda>k. the (mg_sessions sm k)) order"
    using en unfolding enumerates_def map_filter_def by (intro arg_cong2 [where f = map] filter_True) (auto simp: fun_eq_iff)
  have emp: "mg_sessions sm1 = Map.empty" using en by (auto simp: sm1_def enumerates_def fun_eq_iff domIff)
  have dom: "set order \<subseteq> dom (mg_sessions sm)" "distinct order" using en by (simp_all add: enumerates_def)
  obtain ws1 where ws1: "stop_sessions (map (\<lambda>k. the (mg_sessions sm k)) order) sm1 = Some (sm1\<lparr>mg_wfs := ws1\<rparr>)" "sess_inv (sm1\<lparr>mg_wfs := ws1\<rparr>)"
    using drop_sessions_inv [OF inv dom sm1_def] by blast
  have same: "stop_sessions ss (sm\<lparr>mg_sessions := m, mg_active := a\<rparr>) =
      map_option (\<lambda>x. x\<lparr>mg_sessions := m, mg_active := a\<rparr>) (stop_sessions ss sm)" for ss m a and sm :: "('a, 'b) SessionManager"
  proof (induction ss arbitrary: sm)
    case (Cons s ss)
    show ?case
    proof (cases "Stop (mg_wfs sm ! ss_Workflow (mg_heap sm ! s))")
      case (Some w)
      then show ?thesis using Cons [of "sm\<lparr>mg_wfs := (mg_wfs sm)[ss_Workflow (mg_heap sm ! s) := w]\<rparr>"]
        by (cases sm) (simp add: stop_workflow_def)
    qed (simp add: stop_workflow_def)
  qed simp
  from ws1(1) obtain sm2 where sm2: "stop_sessions (map (\<lambda>k. the (mg_sessions sm k)) order) sm = Some sm2"
      "sm2\<lparr>mg_sessions := mg_sessions sm1, mg_active := mg_active sm1\<rparr> = sm1\<lparr>mg_wfs := ws1\<rparr>"
    unfolding sm1_def by (auto simp: same)
  have act: "mg_active sm2 = mg_active sm" "mg_active sm1 = mg_active sm - int (length order)"
  proof -
    have "stop_sessions ss x = Some y \<Longrightarrow> mg_active y = mg_active x" for ss and x y :: "('a, 'b) SessionManager"
      by (induction ss arbitrary: x) (auto simp: stop_workflow_def bind_eq_Some_conv)
    then show "mg_active sm2 = mg_active sm" using sm2(1) by blast
  qed (simp add: sm1_def)
  have "sess_inv (sm2\<lparr>mg_sessions := Map.empty, mg_active := mg_active sm - int (length order)\<rparr>)"
    using ws1(2) sm2(2) emp act by simp
  then have "sess_inv (sm2\<lparr>mg_sessions := Map.empty, mg_ctx := Some Canceled, mg_active := mg_active sm - int (length order)\<rparr>)"
    by (simp add: sess_inv_def owned_def)
  then show ?thesis using sm2(1) act by (simp add: SM_Stop_def ids Let_def)
qed

lemma session_step_inv:
  assumes inv: "sess_inv sm" and ad: "admissible op sm"
  shows "\<exists>sm'. session_step op sm = Some sm' \<and> sess_inv sm'"
proof (cases op)
  case (SoCreate env ctx key name properties)
  obtain sm' r calls where c: "CreateSession env ctx key name properties sm = (sm', r, calls)" by (metis surj_pair)
  show ?thesis using create_inv [OF inv _ c] ad c SoCreate by simp
next
  case (SoLoad now key)
  then show ?thesis using upd_session_inv [OF inv, of "UpdateActivity now"] inv
    by (simp add: LoadSession_def UpdateActivity_def split: option.split)
next
  case (SoAcquire s)
  then show ?thesis using upd_session_inv [OF inv, of "fst \<circ> Session_Acquire"] by (simp add: Session_Acquire_def)
next
  case (SoRelease s)
  then show ?thesis using upd_session_inv [OF inv, of Session_Release] by (simp add: Session_Release_def)
next
  case (SoRemove key)
  then show ?thesis using remove_ok [OF inv, of key] by auto
next
  case (SoCleanup now order)
  then have en: "enumerates order (mg_sessions sm)" using ad by simp
  show ?thesis by (rule cleanup_ok [OF inv en, of now]) (simp add: SoCleanup)
next
  case (SoStop order)
  then show ?thesis using sm_stop_ok [OF inv] ad by auto
next
  case (SoPause i)
  then show ?thesis
    by simp (intro workflow_at_inv [OF inv]; auto simp: Pause_def closed_stopped_def split: prod.splits)
next
  case (SoResume i)
  then show ?thesis
    by simp (intro workflow_at_inv [OF inv]; auto simp: Resume_def closed_stopped_def split: prod.splits)
qed

lemma session_run_inv:
  "sess_inv sm \<Longrightarrow> all_admissible ops sm \<Longrightarrow> \<exists>sm'. session_run ops sm = Some sm' \<and> sess_inv sm'"
proof (induction ops arbitrary: sm)
  case (Cons op ops)
  obtain sm1 where s: "session_step op sm = Some sm1" "sess_inv sm1"
    using session_step_inv [OF Cons.prems(1)] Cons.prems(2) by auto
  then show ?case using Cons.IH [of sm1] Cons.prems(2) by simp
qed simp

lemma new_manager_inv: "sess_inv (NewSessionManager timeout)"
  by (simp add: sess_inv_def NewSessionManager_def)

text \<open>C33. After any history of creations, loads, removals, clean-ups, pauses and stops nothing has panicked, the
  active gauge is the number of sessions in the table, no two sessions share a workflow, and every
  workflow that has not been stopped belongs to a session in the table: a removed session leaves no
  running workflow behind.\<close>

theorem sessions_accounted:
  assumes "sm0 = NewSessionManager timeout" "all_admissible ops sm0"
  shows "\<exists>sm. session_run ops sm0 = Some sm \<and>
    mg_active sm = int (card (dom (mg_sessions sm))) \<and>
    (\<forall>i<length (mg_wfs sm). wf_state (mg_wfs sm ! i) \<noteq> Stopped \<longrightarrow>
       (\<exists>k s. mg_sessions sm k = Some s \<and> ss_Workflow (mg_heap sm ! s) = i)) \<and>
    (\<forall>k s k' s'. mg_sessions sm k = Some s \<and> mg_sessions sm k' = Some s' \<and>
       ss_Workflow (mg_heap sm ! s) = ss_Workflow (mg_heap sm ! s') \<longrightarrow> k = k')"
proof -
  obtain sm where sm: "session_run ops sm0 = Some sm" "sess_inv sm"
    using session_run_inv [OF new_manager_inv] assms by blast
  have "\<forall>i<length (mg_wfs sm). wf_state (mg_wfs sm ! i) \<noteq> Stopped \<longrightarrow> i \<in> owned sm" using sm(2) by (auto simp: sess_inv_def)
  moreover have "i \<in> owned sm \<longleftrightarrow> (\<exists>k s. mg_sessions sm k = Some s \<and> ss_Workflow (mg_heap sm ! s) = i)" for i
    by (auto simp: owned_def ran_def)
  moreover have "k = k'"
    if k: "mg_sessions sm k = Some s" "mg_sessions sm k' = Some s'" "ss_Workflow (mg_heap sm ! s) = ss_Workflow (mg_heap sm ! s')" for k s k' s'
  proof -
    have b: "s < length (mg_heap sm)" "s' < length (mg_heap sm)" "ss_Key (mg_heap sm ! s) = k" "ss_Key (mg_heap sm ! s') = k'"
      using sm(2) k(1,2) by (auto simp: sess_inv_def)
    have "distinct (map ss_Workflow (mg_heap sm))" using sm(2) by (simp add: sess_inv_def)
    then have "s = s'" using b(1,2) k(3) by (simp add: distinct_conv_nth) metis
    then show ?thesis using b by simp
  qed
  moreover have "mg_active sm = int (card (dom (mg_sessions sm)))" using sm(2) by (simp add: sess_inv_def)
  ultimately show ?thesis using sm(1) by blast
qed

definition sample_env :: "int \<Rightarrow> (unit, unit, unit) session_env" where
  "sample_env now = \<lparr>se_GetWithName = (\<lambda>_. Inr sample_config), se_merge = (\<lambda>b v. Inr v),
     se_orders = ([''local''], [''b'', ''a''], [''a'', ''b'']), se_store = Some sample_store, se_onStart = (\<lambda>_. None), se_now = now\<rparr>"

definition sample_session_ops :: "(unit, unit, unit) session_op list" where
  "sample_session_ops = [SoCreate (sample_env 1000) None [1] ''w'' Map.empty, SoCreate (sample_env 2000) None [2] ''w'' Map.empty,
     SoLoad 2500 [1], SoPause 0, SoRemove [1]]"

lemma create_other_key:
  assumes "mg_sessions sm k = None" "k \<noteq> key"
  shows "mg_sessions (fst (CreateSession env ctx key name properties sm)) k = None"
proof -
  obtain sm' r calls where c: "CreateSession env ctx key name properties sm = (sm', r, calls)" by (metis surj_pair)
  then show ?thesis by (cases rule: CreateSession_cases) (use assms c in simp_all)
qed

lemma sample_session_admissible: "all_admissible sample_session_ops (NewSessionManager 60000)"
  by (simp add: sample_session_ops_def NewSessionManager_def create_other_key split: option.split)

lemma sample_create:
  "\<not> isl (fst (snd (CreateSession (sample_env 1700000000000) None [1] ''w'' Map.empty (NewSessionManager 60000 :: (unit, (unit, unit) any) SessionManager))))"
  by code_simp

theorem sessions_accounted_witness:
  "\<exists>sm. session_run sample_session_ops (NewSessionManager 60000 :: (unit, (unit, unit) any) SessionManager) = Some sm \<and>
     mg_active sm = int (card (dom (mg_sessions sm)))"
  using sessions_accounted [OF refl sample_session_admissible] by blast



text \<open>C35. The first activity stamp of a session is in seconds and not in milliseconds: until the
  session is loaded for the first time every clean-up finds it idle since 1970, so a session that has
  just been created is stopped and removed by the next tick, whatever the timeout.\<close>

theorem new_session_evicted:
  assumes "sm0 = NewSessionManager timeout" "all_admissible ops sm0" "session_run ops sm0 = Some sm" "mg_sessions sm key = None"
    and "CreateSession env ctx key name properties sm = (sm1, Inr s, calls)"
    and "mg_timeout sm \<le> now - unix_seconds (se_now env)" "enumerates order (mg_sessions sm1)"
  shows "mg_sessions sm1 key = Some s \<and>
    (\<exists>sm2 calls'. Cleanup now order sm1 = Some (sm2, calls') \<and> mg_sessions sm2 key = None \<and>
       wf_state (mg_wfs sm2 ! ss_Workflow (mg_heap sm1 ! s)) = Stopped)"
proof -
  have inv: "sess_inv sm" using session_run_inv [OF new_manager_inv] assms(1-3) by (metis option.inject)
  have inv1: "sess_inv sm1" by (rule create_inv [OF inv assms(4,5)])
  have new: "mg_sessions sm1 key = Some s" "ss_LastActive (mg_heap sm1 ! s) = unix_seconds (se_now env)" "mg_timeout sm1 = mg_timeout sm"
    using assms(5) by (cases rule: CreateSession_cases, simp_all)+
  then have "idle now sm1 s" using assms(6) by (simp add: idle_def)
  then show ?thesis using new(1) by (auto intro: cleanup_ok [OF inv1 assms(7), of now])
qed

theorem new_session_evicted_witness:
  "\<exists>sm1 s sm2 calls. fst (CreateSession (sample_env 1700000000000) None [1] ''w'' Map.empty
       (NewSessionManager 60000 :: (unit, (unit, unit) any) SessionManager)) = sm1 \<and>
     mg_sessions sm1 [1] = Some s \<and> Cleanup 1700000000000 [[1]] sm1 = Some (sm2, calls) \<and> mg_sessions sm2 [1] = None"
proof -
  define sm0 where "sm0 = (NewSessionManager 60000 :: (unit, (unit, unit) any) SessionManager)"
  obtain sm1 s calls where c: "CreateSession (sample_env 1700000000000) None [1] ''w'' Map.empty sm0 = (sm1, Inr s, calls)"
    using sample_create unfolding sm0_def by (metis Inr_Inl_False isl_def obj_sumE prod.collapse)
  have new: "mg_sessions sm0 [1] = None" "mg_timeout sm0 = 60000" by (simp_all add: sm0_def NewSessionManager_def)
  from c have o: "enumerates [[1]] (mg_sessions sm1)"
    by (cases rule: CreateSession_cases) (simp_all add: enumerates_def sm0_def NewSessionManager_def)
  have run: "all_admissible ([] :: (unit, unit, unit) session_op list) sm0" "session_run ([] :: (unit, unit, unit) session_op list) sm0 = Some sm0"
    by simp_all
  have "mg_timeout sm0 \<le> 1700000000000 - unix_seconds (se_now (sample_env 1700000000000))"
    by (simp add: new unix_seconds_def sample_env_def)
  from new_session_evicted [OF sm0_def run new(1) c this o] c show ?thesis unfolding sm0_def by auto
qed

end
