(* ===== verification/MinHeap.thy ===== *)
theory MinHeap
  imports Prelude "HOL-Library.Multiset"
begin

text \<open>
  Go's \<open>container/heap\<close> over a slice whose elements know their position, as the connection queue of
  \<open>internal/gateway/pool.go\<close> (\<open>connectionMinHeap\<close>) uses it: \<open>up\<close>, \<open>down\<close>, \<open>Push\<close>, \<open>Fix\<close> and \<open>Remove\<close> of
  the standard library over the \<open>Swap\<close>, \<open>Push\<close> and \<open>Pop\<close> of the source.

  A heap is the slice together with the \<open>index\<close> field of every element. The order \<open>Less\<close> is given by
  a key. \<open>min_heap\<close> is the interface the pool relies on: positions are recorded, and the first
  element has the least key after every operation.
\<close>

section \<open>Model\<close>

type_synonym 'a qheap = "'a list \<times> ('a \<Rightarrow> int)"

definition heap_Swap :: "nat \<Rightarrow> nat \<Rightarrow> 'a qheap \<Rightarrow> 'a qheap" where
  "heap_Swap i j h =
     (let q = (fst h)[i := fst h ! j, j := fst h ! i] in (q, (snd h)(q ! i := int i, q ! j := int j)))"

definition heap_push_last :: "'a \<Rightarrow> 'a qheap \<Rightarrow> 'a qheap" where
  "heap_push_last x h = (fst h @ [x], (snd h)(x := int (length (fst h))))"

definition heap_pop_last :: "'a qheap \<Rightarrow> 'a qheap" where
  "heap_pop_last h = (butlast (fst h), (snd h)(last (fst h) := - 1))"

function heap_up :: "('a \<Rightarrow> 'k::linorder) \<Rightarrow> nat \<Rightarrow> 'a qheap \<Rightarrow> 'a qheap" where
  "heap_up key j h =
     (let i = (j - 1) div 2
      in if i = j \<or> \<not> key (fst h ! j) < key (fst h ! i) then h else heap_up key i (heap_Swap i j h))"
  by pat_completeness auto

termination by (relation "measure (\<lambda>(_, j, _). j)") auto

text \<open>\<open>down\<close> stays within the first \<open>n\<close> positions and returns whether the element moved.\<close>

function heap_down :: "('a \<Rightarrow> 'k::linorder) \<Rightarrow> nat \<Rightarrow> nat \<Rightarrow> 'a qheap \<Rightarrow> 'a qheap \<times> bool" where
  "heap_down key i n h =
     (let j1 = 2 * i + 1
      in if j1 \<ge> n then (h, False)
         else let j2 = j1 + 1; j = (if j2 < n \<and> key (fst h ! j2) < key (fst h ! j1) then j2 else j1)
              in if \<not> key (fst h ! j) < key (fst h ! i) then (h, False)
                 else (fst (heap_down key j n (heap_Swap i j h)), True))"
  by pat_completeness auto

termination by (relation "measure (\<lambda>(_, i, n, _). n - i)") auto

declare heap_up.simps [simp del] heap_down.simps [simp del]

definition heap_Push :: "('a \<Rightarrow> 'k::linorder) \<Rightarrow> 'a \<Rightarrow> 'a qheap \<Rightarrow> 'a qheap" where
  "heap_Push key x h = (let h' = heap_push_last x h in heap_up key (length (fst h') - 1) h')"

text \<open>A negative position is outside the heap: neither loop does anything there.\<close>

definition heap_Fix :: "('a \<Rightarrow> 'k::linorder) \<Rightarrow> int \<Rightarrow> 'a qheap \<Rightarrow> 'a qheap" where
  "heap_Fix key i h =
     (if i < 0 then h
      else case heap_down key (nat i) (length (fst h)) h of
             (h', moved) \<Rightarrow> if moved then h' else heap_up key (nat i) h')"

definition heap_Remove :: "('a \<Rightarrow> 'k::linorder) \<Rightarrow> nat \<Rightarrow> 'a qheap \<Rightarrow> 'a qheap" where
  "heap_Remove key i h =
     (let n = length (fst h) - 1
      in heap_pop_last
           (if n = i then h
            else case heap_down key i n (heap_Swap i n h) of
                   (h', moved) \<Rightarrow> if moved then h' else heap_up key i h'))"

section \<open>Positions\<close>

definition placed :: "'a qheap \<Rightarrow> bool" where
  "placed h \<longleftrightarrow> (\<forall>p<length (fst h). snd h (fst h ! p) = int p)"

lemma placed_distinct: "placed h \<Longrightarrow> distinct (fst h)"
  unfolding placed_def distinct_conv_nth by (metis of_nat_eq_iff)

lemma Swap_length [simp]: "length (fst (heap_Swap i j h)) = length (fst h)"
  by (simp add: heap_Swap_def Let_def)

lemma Swap_nth:
  assumes "i < length (fst h)" "j < length (fst h)"
  shows "fst (heap_Swap i j h) ! p = (if p = i then fst h ! j else if p = j then fst h ! i else fst h ! p)"
  using assms by (cases "p = i"; cases "p = j") (auto simp: heap_Swap_def Let_def)

lemma Swap_placed:
  assumes "placed h" "i < length (fst h)" "j < length (fst h)"
  shows "placed (heap_Swap i j h)"
proof -
  let ?q = "fst (heap_Swap i j h)"
  have snd: "snd (heap_Swap i j h) = (snd h)(?q ! i := int i, ?q ! j := int j)" by (simp add: heap_Swap_def Let_def)
  have d: "distinct (fst h)" using assms(1) by (rule placed_distinct)
  have "snd (heap_Swap i j h) (?q ! p) = int p" if "p < length (fst h)" for p
    using that assms d unfolding snd Swap_nth [OF assms(2,3)] by (auto simp: placed_def nth_eq_iff_index_eq)
  then show ?thesis by (simp add: placed_def)
qed

lemma Swap_mset:
  assumes "i < length (fst h)" "j < length (fst h)"
  shows "mset (fst (heap_Swap i j h)) = mset (fst h)"
  using assms mset_swap [of j "fst h" i] by (simp add: heap_Swap_def Let_def)

text \<open>What every loop keeps: the elements, their positions, and everything outside the first \<open>n\<close> places.\<close>

definition shuffled :: "nat \<Rightarrow> 'a qheap \<Rightarrow> 'a qheap \<Rightarrow> bool" where
  "shuffled n h h' \<longleftrightarrow> mset (fst h') = mset (fst h) \<and> (placed h \<longrightarrow> placed h') \<and>
     (\<forall>p. n \<le> p \<longrightarrow> fst h' ! p = fst h ! p) \<and> (\<forall>x. x \<notin> set (fst h) \<longrightarrow> snd h' x = snd h x)"

lemma shuffled_refl [simp]: "shuffled n h h"
  by (simp add: shuffled_def)

lemma shuffled_trans: "shuffled n h h1 \<Longrightarrow> shuffled n h1 h2 \<Longrightarrow> shuffled n h h2"
  unfolding shuffled_def by (metis mset_eq_setD)

lemma shuffled_length: "shuffled n h h' \<Longrightarrow> length (fst h') = length (fst h)"
  unfolding shuffled_def by (metis mset_eq_length)

lemma Swap_shuffled:
  assumes "i < n" "j < n" "n \<le> length (fst h)"
  shows "shuffled n h (heap_Swap i j h)"
proof -
  have l: "i < length (fst h)" "j < length (fst h)" using assms by simp_all
  have "snd (heap_Swap i j h) x = snd h x" if "x \<notin> set (fst h)" for x
    using that l by (auto simp: heap_Swap_def Let_def nth_list_update)
  then show ?thesis
    using Swap_mset [OF l] Swap_placed [OF _ l] Swap_nth [OF l] assms by (auto simp: shuffled_def)
qed

lemma up_shuffled: "j < n \<Longrightarrow> n \<le> length (fst h) \<Longrightarrow> shuffled n h (heap_up key j h)"
proof (induction key j h rule: heap_up.induct)
  case (1 key j h)
  let ?i = "(j - 1) div 2"
  show ?case
  proof (cases "?i = j \<or> \<not> key (fst h ! j) < key (fst h ! ?i)")
    case True
    then show ?thesis by (subst heap_up.simps) (simp add: Let_def)
  next
    case False
    have i: "?i < n" using 1(2) by linarith
    have s: "shuffled n h (heap_Swap ?i j h)" by (rule Swap_shuffled [OF i 1(2,3)])
    have "shuffled n (heap_Swap ?i j h) (heap_up key ?i (heap_Swap ?i j h))" using 1(1) [OF refl False i] 1(3) by simp
    then show ?thesis using s False shuffled_trans by (subst heap_up.simps) (simp add: Let_def)
  qed
qed

lemma down_shuffled: "i < n \<Longrightarrow> n \<le> length (fst h) \<Longrightarrow> shuffled n h (fst (heap_down key i n h))"
proof (induction key i n h rule: heap_down.induct)
  case (1 key i n h)
  let ?j = "if 2 * i + 1 + 1 < n \<and> key (fst h ! (2 * i + 1 + 1)) < key (fst h ! (2 * i + 1)) then 2 * i + 1 + 1 else 2 * i + 1"
  show ?case
  proof (cases "n \<le> 2 * i + 1 \<or> \<not> key (fst h ! ?j) < key (fst h ! i)")
    case True
    then show ?thesis by (subst heap_down.simps) (auto simp: Let_def)
  next
    case False
    then have g: "\<not> n \<le> 2 * i + 1" "\<not> \<not> key (fst h ! ?j) < key (fst h ! i)" by simp_all
    then have j: "?j < n" by auto
    have s: "shuffled n h (heap_Swap i ?j h)" by (rule Swap_shuffled [OF 1(2) j 1(3)])
    have "shuffled n (heap_Swap i ?j h) (fst (heap_down key ?j n (heap_Swap i ?j h)))"
      by (rule 1(1) [OF refl g(1) refl refl g(2) j]) (use 1(3) in simp)
    then have "shuffled n h (fst (heap_down key ?j n (heap_Swap i ?j h)))" using s shuffled_trans by blast
    then show ?thesis using g by (subst heap_down.simps) (simp only: Let_def if_False fst_conv)
  qed
qed

section \<open>Order\<close>

abbreviation par :: "nat \<Rightarrow> nat" where "par j \<equiv> (j - 1) div 2"

definition ordered_except :: "('a \<Rightarrow> 'k::linorder) \<Rightarrow> nat \<Rightarrow> 'a list \<Rightarrow> nat set \<Rightarrow> bool" where
  "ordered_except key n q E \<longleftrightarrow> (\<forall>j. 0 < j \<and> j < n \<and> j \<notin> E \<longrightarrow> key (q ! par j) \<le> key (q ! j))"

definition bridged :: "('a \<Rightarrow> 'k::linorder) \<Rightarrow> nat \<Rightarrow> 'a list \<Rightarrow> nat \<Rightarrow> bool" where
  "bridged key n q i \<longleftrightarrow> (\<forall>c. 0 < i \<and> 0 < c \<and> c < n \<and> par c = i \<longrightarrow> key (q ! par i) \<le> key (q ! c))"

lemma par_child: "0 < c \<Longrightarrow> par c = i \<longleftrightarrow> c = 2 * i + 1 \<or> c = 2 * i + 2"
  by auto

lemma par_less: "0 < j \<Longrightarrow> par j < j"
  by linarith

text \<open>Swapping an element with a smaller least child moves the only violation down.\<close>

lemma swap_down:
  assumes "ordered_except key n (fst h) ({2 * i + 1, 2 * i + 2} \<union> E)" "bridged key n (fst h) i" "n \<le> length (fst h)"
    and "j = 2 * i + 1 \<or> j = 2 * i + 2" "j < n" "key (fst h ! j) < key (fst h ! i)"
    and "\<And>c. c = 2 * i + 1 \<or> c = 2 * i + 2 \<Longrightarrow> c < n \<Longrightarrow> key (fst h ! j) \<le> key (fst h ! c)" "E \<subseteq> {i}"
  shows "ordered_except key n (fst (heap_Swap i j h)) {2 * j + 1, 2 * j + 2} \<and> bridged key n (fst (heap_Swap i j h)) j"
proof -
  let ?q = "fst (heap_Swap i j h)"
  have ij: "i < length (fst h)" "j < length (fst h)" "i < j" using assms(3-5) by auto
  note q = Swap_nth [OF ij(1,2)]
  have ord: "key (?q ! par k) \<le> key (?q ! k)" if k: "0 < k" "k < n" "k \<noteq> 2 * j + 1" "k \<noteq> 2 * j + 2" for k
  proof -
    have pj: "par k \<noteq> j" using par_child [of k j] k by auto
    consider "k = i" | "k = 2 * i + 1 \<or> k = 2 * i + 2" | "k \<noteq> i" "par k \<noteq> i" "k \<noteq> j"
      using par_child [of k i] k(1) assms(4) by auto
    then show ?thesis
    proof cases
      case 1
      have "key (fst h ! par i) \<le> key (fst h ! j)"
        using assms(2,4,5) ij(3) 1 k(1) par_child [of j i] by (auto simp: bridged_def)
      then show ?thesis using 1 pj par_less [OF k(1)] ij by (simp add: q)
    next
      case 2
      then have p: "par k = i" using par_child [OF k(1)] by simp
      have "key (fst h ! j) \<le> key (fst h ! k)" using assms(7) [OF 2 k(2)] .
      then show ?thesis using p assms(6) 2 ij(3) k(1) by (auto simp: q)
    next
      case 3
      have "k \<notin> {2 * i + 1, 2 * i + 2} \<union> E" using 3 par_child [of k i] k(1) assms(8) by auto
      then have "key (fst h ! par k) \<le> key (fst h ! k)" using assms(1) k by (simp add: ordered_except_def)
      then show ?thesis using 3 pj by (simp add: q)
    qed
  qed
  moreover have "key (?q ! par j) \<le> key (?q ! c)" if c: "0 < c" "c < n" "par c = j" for c
  proof -
    have pj: "par j = i" using assms(4) by auto
    have "i < c" "c \<noteq> j" using par_less [OF c(1)] c(3) ij(3) by auto
    moreover have "c \<notin> {2 * i + 1, 2 * i + 2} \<union> E" using c ij(3) par_child [OF c(1), of i] assms(8) \<open>i < c\<close> by auto
    then have "key (fst h ! j) \<le> key (fst h ! c)" using assms(1) c by (auto simp: ordered_except_def)
    ultimately show ?thesis unfolding pj using ij(3) by (simp add: q)
  qed
  ultimately show ?thesis by (simp add: ordered_except_def bridged_def)
qed

text \<open>One round of \<open>down\<close>: it stops with no violation below, or swaps with the least child.\<close>

lemma down_cases:
  assumes "n \<le> length (fst h)"
  obtains "heap_down key i n h = (h, False)" "\<And>c. c = 2 * i + 1 \<or> c = 2 * i + 2 \<Longrightarrow> c < n \<Longrightarrow> key (fst h ! i) \<le> key (fst h ! c)"
  | j where "heap_down key i n h = (fst (heap_down key j n (heap_Swap i j h)), True)" "j = 2 * i + 1 \<or> j = 2 * i + 2" "j < n"
      "key (fst h ! j) < key (fst h ! i)"
      "\<And>c. c = 2 * i + 1 \<or> c = 2 * i + 2 \<Longrightarrow> c < n \<Longrightarrow> key (fst h ! j) \<le> key (fst h ! c)"
proof -
  define j where "j = (if 2 * i + 1 + 1 < n \<and> key (fst h ! (2 * i + 1 + 1)) < key (fst h ! (2 * i + 1)) then 2 * i + 1 + 1 else 2 * i + 1)"
  have eq: "heap_down key i n h =
      (if 2 * i + 1 \<ge> n then (h, False) else if \<not> key (fst h ! j) < key (fst h ! i) then (h, False)
       else (fst (heap_down key j n (heap_Swap i j h)), True))"
    by (subst heap_down.simps) (simp only: Let_def j_def)
  have least: "key (fst h ! j) \<le> key (fst h ! c)" if "c = 2 * i + 1 \<or> c = 2 * i + 2" "c < n" for c
    using that by (auto simp: j_def not_less)
  show ?thesis
  proof (cases "2 * i + 1 \<ge> n \<or> \<not> key (fst h ! j) < key (fst h ! i)")
    case True
    have "key (fst h ! i) \<le> key (fst h ! c)" if "c = 2 * i + 1 \<or> c = 2 * i + 2" "c < n" for c
      using True that least [OF that] by (auto simp: not_less)
    moreover have "heap_down key i n h = (h, False)" using True eq by auto
    ultimately show ?thesis using that(1) by blast
  next
    case False
    have "j = 2 * i + 1 \<or> j = 2 * i + 2" "j < n" using False by (auto simp: j_def)
    then show ?thesis using that(2) False eq least by auto
  qed
qed

lemma down_ordered:
  "n \<le> length (fst h) \<Longrightarrow> ordered_except key n (fst h) {2 * i + 1, 2 * i + 2} \<Longrightarrow> bridged key n (fst h) i \<Longrightarrow>
   ordered_except key n (fst (fst (heap_down key i n h))) {}"
proof (induction "n - i" arbitrary: i h rule: less_induct)
  case less
  from less.prems(1) show ?case
  proof (cases rule: down_cases [of n h key i])
    case 1
    have "key (fst h ! par k) \<le> key (fst h ! k)" if "0 < k" "k < n" for k
      using less.prems(2) 1(2) [of k] par_child [of k i] that by (auto simp: ordered_except_def)
    then show ?thesis using 1(1) by (simp add: ordered_except_def)
  next
    case (2 j)
    have "ordered_except key n (fst (heap_Swap i j h)) {2 * j + 1, 2 * j + 2} \<and> bridged key n (fst (heap_Swap i j h)) j"
      using swap_down [of key n h i "{}" j] less.prems 2 by auto
    moreover have "n - j < n - i" using 2(2,3) by auto
    ultimately show ?thesis using less.hyps [of j "heap_Swap i j h"] less.prems(1) 2(1) by simp
  qed
qed

lemma up_ordered:
  "j < n \<Longrightarrow> n \<le> length (fst h) \<Longrightarrow> ordered_except key n (fst h) {j} \<Longrightarrow> bridged key n (fst h) j \<Longrightarrow>
   ordered_except key n (fst (heap_up key j h)) {}"
proof (induction j arbitrary: h rule: less_induct)
  case (less j)
  let ?i = "par j" and ?h = "heap_Swap (par j) j h"
  show ?case
  proof (cases "?i = j \<or> \<not> key (fst h ! j) < key (fst h ! ?i)")
    case True
    have "j = 0" if "?i = j" using that by linarith
    then have "key (fst h ! par k) \<le> key (fst h ! k)" if "0 < k" "k < n" for k
      using less.prems(3) True that by (cases "k = j") (auto simp: ordered_except_def not_less)
    moreover have "heap_up key j h = h" using True by (subst heap_up.simps) (simp add: Let_def)
    ultimately show ?thesis by (simp add: ordered_except_def)
  next
    case False
    then have lt: "?i < j" "key (fst h ! j) < key (fst h ! ?i)" by auto
    have b: "?i < length (fst h)" "j < length (fst h)" using less.prems lt(1) by auto
    note q = Swap_nth [OF b, unfolded One_nat_def]
    have ord: "key (fst ?h ! par k) \<le> key (fst ?h ! k)" if k: "0 < k" "k < n" "k \<noteq> ?i" for k
    proof (cases "k = j")
      case True
      then show ?thesis using lt by (simp add: q less_imp_le)
    next
      case kj: False
      have ok: "key (fst h ! par k) \<le> key (fst h ! k)" using less.prems(3) k kj by (simp add: ordered_except_def)
      consider "par k = ?i" | "par k = j" | "par k \<noteq> ?i" "par k \<noteq> j" by blast
      then show ?thesis
      proof cases
        case 1
        then show ?thesis using ok lt(2) k kj by (simp add: q)
      next
        case 2
        then have "key (fst h ! ?i) \<le> key (fst h ! k)" using less.prems(4) k lt(1) by (auto simp: bridged_def)
        then show ?thesis using 2 lt(1) k kj by (simp add: q)
      next
        case 3
        then show ?thesis using ok k kj by (simp add: q)
      qed
    qed
    have "key (fst ?h ! par ?i) \<le> key (fst ?h ! c)" if c: "0 < ?i" "0 < c" "c < n" "par c = ?i" for c
    proof -
      have up: "key (fst h ! par ?i) \<le> key (fst h ! ?i)" using less.prems(1,3) lt(1) c(1) by (auto simp: ordered_except_def)
      have "par ?i \<noteq> ?i" "par ?i \<noteq> j" using par_less [OF c(1)] lt(1) by auto
      moreover have "c \<noteq> ?i" using par_less [OF c(2)] c(4) by auto
      moreover have "key (fst h ! ?i) \<le> key (fst h ! c)" if "c \<noteq> j" using less.prems(3) c that by (auto simp: ordered_except_def)
      ultimately show ?thesis using up by (auto simp: q intro: order_trans)
    qed
    then have "ordered_except key n (fst (heap_up key ?i ?h)) {}"
      using less.IH [of ?i ?h] lt(1) less.prems(1,2) ord by (simp add: ordered_except_def bridged_def)
    then show ?thesis using False by (subst heap_up.simps) (simp add: Let_def)
  qed
qed

text \<open>\<open>Fix\<close> repairs a heap in which one element has any key.\<close>

lemma fix_ordered:
  assumes "i < n" "n \<le> length (fst h)" "ordered_except key n (fst h) {2 * i + 1, 2 * i + 2, i}" "bridged key n (fst h) i"
  shows "ordered_except key n (fst (case heap_down key i n h of (h', moved) \<Rightarrow> if moved then h' else heap_up key i h')) {}"
  using assms(2)
proof (cases rule: down_cases [of n h key i])
  case 1
  have "ordered_except key n (fst h) {i}"
    unfolding ordered_except_def
  proof (intro allI impI)
    fix k assume k: "0 < k \<and> k < n \<and> k \<notin> {i}"
    then show "key (fst h ! par k) \<le> key (fst h ! k)"
      using assms(3) 1(2) [of k] par_child [of k i] by (cases "par k = i") (auto simp: ordered_except_def)
  qed
  then show ?thesis using up_ordered [OF assms(1,2)] assms(4) 1(1) by simp
next
  case (2 j)
  have "ordered_except key n (fst (heap_Swap i j h)) {2 * j + 1, 2 * j + 2} \<and> bridged key n (fst (heap_Swap i j h)) j"
    using swap_down [of key n h i "{i}" j] assms 2 by (auto simp: insert_commute)
  then show ?thesis using down_ordered [of n "heap_Swap i j h" key j] 2(1) assms(2) by simp
qed

lemma fix_shuffled:
  assumes "i < n" "n \<le> length (fst h)"
  shows "shuffled n h (case heap_down key i n h of (h', moved) \<Rightarrow> if moved then h' else heap_up key i h')"
proof -
  obtain h' m where d: "heap_down key i n h = (h', m)" by (cases "heap_down key i n h")
  have s: "shuffled n h h'" using down_shuffled [OF assms, of key] d by simp
  have "shuffled n h' (heap_up key i h')" using up_shuffled assms shuffled_length [OF s] by metis
  then show ?thesis using s d shuffled_trans [OF s] by (cases m) simp_all
qed

section \<open>The interface\<close>

definition min_ok :: "('a \<Rightarrow> 'k::linorder) \<Rightarrow> 'a qheap \<Rightarrow> bool" where
  "min_ok key h \<longleftrightarrow> placed h \<and> ordered_except key (length (fst h)) (fst h) {}"

locale priority_queue =
  fixes push :: "('a \<Rightarrow> 'k::linorder) \<Rightarrow> 'a \<Rightarrow> 'a qheap \<Rightarrow> 'a qheap"
    and fix_at :: "('a \<Rightarrow> 'k) \<Rightarrow> int \<Rightarrow> 'a qheap \<Rightarrow> 'a qheap"
    and remove_at :: "('a \<Rightarrow> 'k) \<Rightarrow> nat \<Rightarrow> 'a qheap \<Rightarrow> 'a qheap"
    and ok :: "('a \<Rightarrow> 'k) \<Rightarrow> 'a qheap \<Rightarrow> bool"
  assumes ok_empty: "ok key ([], idx)"
    and ok_distinct: "ok key h \<Longrightarrow> distinct (fst h)"
    and ok_cong: "ok key h \<Longrightarrow> (\<And>y. y \<in> set (fst h) \<Longrightarrow> key' y = key y) \<Longrightarrow> ok key' h"
    and ok_position: "ok key h \<Longrightarrow> x \<in> set (fst h) \<Longrightarrow> 0 \<le> snd h x"
    and ok_first: "ok key h \<Longrightarrow> x \<in> set (fst h) \<Longrightarrow> key (fst h ! 0) \<le> key x"
    and push_ok: "ok key h \<Longrightarrow> x \<notin> set (fst h) \<Longrightarrow> ok key (push key x h) \<and> set (fst (push key x h)) = insert x (set (fst h))"
    and fix_ok: "ok key h \<Longrightarrow> x \<in> set (fst h) \<Longrightarrow> (\<And>y. y \<in> set (fst h) \<Longrightarrow> y \<noteq> x \<Longrightarrow> key' y = key y) \<Longrightarrow>
      ok key' (fix_at key' (snd h x) h) \<and> set (fst (fix_at key' (snd h x) h)) = set (fst h)"
    and remove_ok: "ok key h \<Longrightarrow> x \<in> set (fst h) \<Longrightarrow>
      ok key (remove_at key (nat (snd h x)) h) \<and> set (fst (remove_at key (nat (snd h x)) h)) = set (fst h) - {x}"
begin

lemma first_is_member: "ok key h \<Longrightarrow> fst h = x # xs \<Longrightarrow> x \<in> set (fst h) \<and> (\<forall>y\<in>set (fst h). key x \<le> key y)"
  using ok_first [of key h] by auto



end

lemma ordered_first: "ordered_except key n q {} \<Longrightarrow> j < n \<Longrightarrow> key (q ! 0) \<le> key (q ! j)"
proof (induction j rule: less_induct)
  case (less j)
  show ?case
  proof (cases "j = 0")
    case False
    then have "key (q ! 0) \<le> key (q ! par j)" using less par_less [of j] by auto
    moreover have "key (q ! par j) \<le> key (q ! j)" using less.prems False by (simp add: ordered_except_def)
    ultimately show ?thesis by (rule order_trans)
  qed simp
qed

lemma min_position: "min_ok key h \<Longrightarrow> x \<in> set (fst h) \<Longrightarrow> \<exists>i<length (fst h). snd h x = int i \<and> fst h ! i = x"
  by (auto simp: min_ok_def placed_def in_set_conv_nth)

lemma min_push:
  assumes "min_ok key h" "x \<notin> set (fst h)"
  shows "min_ok key (heap_Push key x h) \<and> set (fst (heap_Push key x h)) = insert x (set (fst h))"
proof -
  let ?n = "length (fst h)" and ?h = "heap_push_last x h"
  have l: "?n < length (fst ?h)" "length (fst ?h) = Suc ?n" by (simp_all add: heap_push_last_def)
  have p: "placed ?h" using assms by (auto simp: min_ok_def placed_def heap_push_last_def nth_append less_Suc_eq)
  have "key (fst ?h ! par k) \<le> key (fst ?h ! k)" if "0 < k" "k < Suc ?n" "k \<noteq> ?n" for k
    using assms(1) that par_less [of k] by (simp add: min_ok_def ordered_except_def heap_push_last_def nth_append)
  then have "ordered_except key (Suc ?n) (fst ?h) {?n}" by (simp add: ordered_except_def)
  moreover have "\<not> (0 < c \<and> c < Suc ?n \<and> par c = ?n)" for c using par_less [of c] by auto
  then have "bridged key (Suc ?n) (fst ?h) ?n" by (auto simp: bridged_def)
  ultimately have "ordered_except key (Suc ?n) (fst (heap_up key ?n ?h)) {}" using up_ordered [of ?n "Suc ?n" ?h key] l by simp
  moreover have s: "shuffled (Suc ?n) ?h (heap_up key ?n ?h)" using up_shuffled [of ?n "Suc ?n" ?h key] l by simp
  moreover have "length (fst (heap_up key ?n ?h)) = Suc ?n" using shuffled_length [OF s] l(2) by simp
  moreover have "set (fst (heap_up key ?n ?h)) = set (fst ?h)" using s unfolding shuffled_def by (metis mset_eq_setD)
  ultimately show ?thesis using p l(2) by (simp add: min_ok_def heap_Push_def shuffled_def) (simp add: heap_push_last_def)
qed

lemma min_fix:
  assumes "min_ok key h" "x \<in> set (fst h)" "\<And>y. y \<in> set (fst h) \<Longrightarrow> y \<noteq> x \<Longrightarrow> key' y = key y"
  shows "min_ok key' (heap_Fix key' (snd h x) h) \<and> set (fst (heap_Fix key' (snd h x) h)) = set (fst h)"
proof -
  obtain i where i: "i < length (fst h)" "snd h x = int i" "fst h ! i = x" using min_position [OF assms(1,2)] by blast
  let ?n = "length (fst h)"
  define r where "r = (case heap_down key' i ?n h of (h', moved) \<Rightarrow> if moved then h' else heap_up key' i h')"
  have d: "distinct (fst h)" and o: "ordered_except key ?n (fst h) {}"
    using assms(1) placed_distinct [of h] by (auto simp: min_ok_def)
  have same: "key' (fst h ! j) = key (fst h ! j)" if "j < ?n" "j \<noteq> i" for j
  proof (rule assms(3))
    show "fst h ! j \<in> set (fst h)" using that(1) by simp
    show "fst h ! j \<noteq> x" using nth_eq_iff_index_eq [OF d that(1) i(1)] that(2) i(3) by simp
  qed
  have "ordered_except key' ?n (fst h) {2 * i + 1, 2 * i + 2, i}"
    unfolding ordered_except_def
  proof (intro allI impI)
    fix k assume k: "0 < k \<and> k < ?n \<and> k \<notin> {2 * i + 1, 2 * i + 2, i}"
    then have "par k \<noteq> i" "par k < ?n" using par_child [of k i] par_less [of k] by auto
    moreover have "key (fst h ! par k) \<le> key (fst h ! k)" using o k unfolding ordered_except_def by blast
    ultimately show "key' (fst h ! par k) \<le> key' (fst h ! k)" using same [of k] same [of "par k"] k by simp
  qed
  moreover have "bridged key' ?n (fst h) i"
    unfolding bridged_def
  proof (intro allI impI)
    fix c assume c: "0 < i \<and> 0 < c \<and> c < ?n \<and> par c = i"
    then have "key (fst h ! par i) \<le> key (fst h ! i)" "key (fst h ! par c) \<le> key (fst h ! c)"
      using o i(1) unfolding ordered_except_def by blast+
    then have "key (fst h ! par i) \<le> key (fst h ! c)" using c order_trans by metis
    moreover have "c \<noteq> i" "par i \<noteq> i" "par i < ?n" using c par_less [of c] par_less [of i] i(1) by auto
    ultimately show "key' (fst h ! par i) \<le> key' (fst h ! c)" using same [of c] same [of "par i"] c by simp
  qed
  ultimately have o': "ordered_except key' ?n (fst r) {}" unfolding r_def by (rule fix_ordered [OF i(1) order.refl])
  have s: "shuffled ?n h r" unfolding r_def by (rule fix_shuffled [OF i(1) order.refl])
  then have "set (fst r) = set (fst h)" unfolding shuffled_def by (metis mset_eq_setD)
  moreover have "heap_Fix key' (snd h x) h = r" unfolding heap_Fix_def i(2) r_def by (simp only: nat_int of_nat_less_0_iff if_False)
  moreover have "placed r" using s assms(1) unfolding shuffled_def min_ok_def by blast
  ultimately show ?thesis using o' shuffled_length [OF s] unfolding min_ok_def by simp
qed

lemma pop_last_ok:
  assumes "placed h" "fst h = q @ [x]"
  shows "placed (heap_pop_last h) \<and> fst (heap_pop_last h) = q"
proof -
  have d: "distinct (q @ [x])" using placed_distinct [OF assms(1)] assms(2) by simp
  have "snd h (q ! p) = int p" if "p < length q" for p
    using assms that by (auto simp: placed_def nth_append dest: spec [of _ p])
  moreover have "q ! p \<noteq> x" if "p < length q" for p using d that by auto
  ultimately show ?thesis by (simp add: heap_pop_last_def placed_def assms(2))
qed

lemma min_remove:
  assumes "min_ok key h" "x \<in> set (fst h)"
  shows "min_ok key (heap_Remove key (nat (snd h x)) h) \<and> set (fst (heap_Remove key (nat (snd h x)) h)) = set (fst h) - {x}"
proof -
  obtain i where i: "i < length (fst h)" "snd h x = int i" "fst h ! i = x" using min_position [OF assms] by blast
  define n where "n = length (fst h) - 1"
  have len: "length (fst h) = Suc n" using i(1) by (simp add: n_def)
  have p: "placed h" and o: "ordered_except key (Suc n) (fst h) {}" using assms(1) len by (simp_all add: min_ok_def)
  define r where "r = (if n = i then h
      else case heap_down key i n (heap_Swap i n h) of (h', moved) \<Rightarrow> if moved then h' else heap_up key i h')"
  have rm: "heap_Remove key (nat (snd h x)) h = heap_pop_last r"
    unfolding heap_Remove_def Let_def r_def n_def i(2) by (simp only: nat_int)
  have r: "placed r \<and> mset (fst r) = mset (fst h) \<and> length (fst r) = Suc n \<and> fst r ! n = x \<and> ordered_except key n (fst r) {}"
  proof (cases "n = i")
    case True
    then show ?thesis using i p o len by (auto simp: r_def ordered_except_def)
  next
    case False
    let ?h = "heap_Swap i n h"
    have b: "i < length (fst h)" "n < length (fst h)" "i < n" "n \<le> length (fst ?h)" using i(1) len False by auto
    note q = Swap_nth [OF b(1,2)]
    have "ordered_except key n (fst ?h) {2 * i + 1, 2 * i + 2, i}"
      unfolding ordered_except_def
    proof (intro allI impI)
      fix k assume k: "0 < k \<and> k < n \<and> k \<notin> {2 * i + 1, 2 * i + 2, i}"
      then have "par k \<noteq> i" "par k < n" using par_child [of k i] par_less [of k] by auto
      moreover have "key (fst h ! par k) \<le> key (fst h ! k)" using o k unfolding ordered_except_def by auto
      ultimately show "key (fst ?h ! par k) \<le> key (fst ?h ! k)" using k unfolding q by simp
    qed
    moreover have "bridged key n (fst ?h) i"
      unfolding bridged_def
    proof (intro allI impI)
      fix c assume c: "0 < i \<and> 0 < c \<and> c < n \<and> par c = i"
      then have "key (fst h ! par i) \<le> key (fst h ! i)" "key (fst h ! par c) \<le> key (fst h ! c)"
        using o b(3) unfolding ordered_except_def by (auto dest: spec [of _ i])
      then have "key (fst h ! par i) \<le> key (fst h ! c)" using c order_trans by metis
      moreover have "c \<noteq> i" "par i \<noteq> i" "par i < n" using c par_less [of c] par_less [of i] b(3) by auto
      ultimately show "key (fst ?h ! par i) \<le> key (fst ?h ! c)" using c unfolding q by simp
    qed
    moreover have "r = (case heap_down key i n ?h of (h', moved) \<Rightarrow> if moved then h' else heap_up key i h')"
      using False unfolding r_def by (simp only: if_False)
    ultimately have o': "ordered_except key n (fst r) {}" and s: "shuffled n ?h r"
      using fix_ordered [OF b(3,4), of key] fix_shuffled [OF b(3,4), of key] by (simp_all only:)
    have "placed r" using s Swap_placed [OF p b(1,2)] unfolding shuffled_def by blast
    moreover have "mset (fst r) = mset (fst h)" using s Swap_mset [OF b(1,2)] unfolding shuffled_def by simp
    moreover have "length (fst r) = Suc n" using shuffled_length [OF s] len by simp
    moreover have "fst r ! n = x" using s q [of n] i(3) False unfolding shuffled_def by simp
    ultimately show ?thesis using o' by simp
  qed
  then obtain qs where qs: "fst r = qs @ [x]" "length qs = n"
    by (metis butlast_snoc length_butlast diff_Suc_1 append_butlast_last_id last_conv_nth length_0_conv nat.distinct(1))
  have pop: "placed (heap_pop_last r)" "fst (heap_pop_last r) = qs" using pop_last_ok [of r qs x] r qs by auto
  have "ordered_except key n qs {}"
    unfolding ordered_except_def
  proof (intro allI impI)
    fix k assume k: "0 < k \<and> k < n \<and> k \<notin> {}"
    then have "key (fst r ! par k) \<le> key (fst r ! k)" "par k < n" using r par_less [of k] unfolding ordered_except_def by auto
    then show "key (qs ! par k) \<le> key (qs ! k)" using k qs by (simp add: nth_append)
  qed
  moreover have "set qs = set (fst h) - {x}"
  proof -
    have "mset (fst h) = add_mset x (mset qs)" using r qs(1) by simp
    then have "set (fst h) = insert x (set qs)" by (metis set_mset_add_mset_insert set_mset_mset)
    moreover have "x \<notin> set qs" using placed_distinct [of r] r qs(1) by simp
    ultimately show ?thesis by simp
  qed
  ultimately show ?thesis using pop qs(2) unfolding rm min_ok_def by simp
qed

interpretation conn_queue: priority_queue heap_Push heap_Fix heap_Remove min_ok
proof
  fix key key' :: "'a \<Rightarrow> 'k::linorder" and h :: "'a qheap" and x idx
  show "min_ok key ([], idx)" by (simp add: min_ok_def placed_def ordered_except_def)
  show "min_ok key h \<Longrightarrow> distinct (fst h)" using placed_distinct [of h] by (simp add: min_ok_def)
  show "min_ok key h \<Longrightarrow> x \<in> set (fst h) \<Longrightarrow> 0 \<le> snd h x" using min_position [of key h x] by auto
  show "key (fst h ! 0) \<le> key x" if ok: "min_ok key h" "x \<in> set (fst h)"
  proof -
    obtain j where "j < length (fst h)" "fst h ! j = x" using min_position [OF ok] by blast
    then show ?thesis using ordered_first [of key "length (fst h)" "fst h" j] ok(1) by (simp add: min_ok_def)
  qed
  show "min_ok key' h" if ok: "min_ok key h" "\<And>y. y \<in> set (fst h) \<Longrightarrow> key' y = key y"
  proof -
    have "key' (fst h ! par k) = key (fst h ! par k)" "key' (fst h ! k) = key (fst h ! k)" if "0 < k" "k < length (fst h)" for k
      using that par_less [of k] ok(2) by simp_all
    then show ?thesis using ok(1) unfolding min_ok_def ordered_except_def by simp
  qed
  show "min_ok key (heap_Push key x h) \<and> set (fst (heap_Push key x h)) = insert x (set (fst h))"
    if "min_ok key h" "x \<notin> set (fst h)" using that by (rule min_push)
  show "min_ok key' (heap_Fix key' (snd h x) h) \<and> set (fst (heap_Fix key' (snd h x) h)) = set (fst h)"
    if "min_ok key h" "x \<in> set (fst h)" "\<And>y. y \<in> set (fst h) \<Longrightarrow> y \<noteq> x \<Longrightarrow> key' y = key y" using that by (rule min_fix)
  show "min_ok key (heap_Remove key (nat (snd h x)) h) \<and> set (fst (heap_Remove key (nat (snd h x)) h)) = set (fst h) - {x}"
    if "min_ok key h" "x \<in> set (fst h)" using that by (rule min_remove)
qed

end
