(* ===== verification/GatewayPool.thy ===== *)
theory GatewayPool
  imports MinHeap Packet Syncx "HOL-Library.Product_Lexorder"
begin

text \<open>
  \<open>internal/gateway/pool.go\<close>: the pool of data-plane connections to one machine, with the part of
  \<open>internal/gateway/connection.go\<close> that drives it (the state of a connection and its callbacks).

  Connections, pooled items and session bindings are pointers in the source; here they are positions
  in \<open>cp_conns\<close> (the atomic state of every connection), \<open>cp_items\<close> and \<open>cp_bconn\<close>, which only grow. The
  \<open>index\<close> field of the items is the function \<open>cp_index\<close>, and the queue is the heap of \<open>MinHeap\<close>. Every
  operation is what the source does under \<open>p.mu\<close>; it returns whether a dial goroutine is started, or
  the connections to close, and the goroutines take their steps later. Go's map order is the argument
  \<open>order\<close>. Times are in milliseconds, the zero time is \<open>None\<close>. The counters of the metrics are fields.
  Dialling and the sockets are not modelled: they show up as the callbacks \<open>conn_OnOpen\<close> and
  \<open>conn_OnClose\<close>, at any time.
\<close>

section \<open>Model\<close>

datatype connectionPriority = PriorityActive | PriorityConnecting | PriorityUnavailable

fun priority_value :: "connectionPriority \<Rightarrow> nat" where
  "priority_value PriorityActive = 0"
| "priority_value PriorityConnecting = 1"
| "priority_value PriorityUnavailable = 2"

instantiation connectionPriority :: linorder
begin

definition less_eq_connectionPriority :: "connectionPriority \<Rightarrow> connectionPriority \<Rightarrow> bool" where
  "less_eq_connectionPriority a b \<longleftrightarrow> priority_value a \<le> priority_value b"

definition less_connectionPriority :: "connectionPriority \<Rightarrow> connectionPriority \<Rightarrow> bool" where
  "less_connectionPriority a b \<longleftrightarrow> priority_value a < priority_value b"

instance
proof
  fix a b c :: connectionPriority
  show "a < b \<longleftrightarrow> a \<le> b \<and> \<not> b \<le> a" "a \<le> a" "a \<le> b \<or> b \<le> a" "a \<le> b \<Longrightarrow> b \<le> c \<Longrightarrow> a \<le> c"
    by (auto simp: less_eq_connectionPriority_def less_connectionPriority_def)
  show "a \<le> b \<Longrightarrow> b \<le> a \<Longrightarrow> a = b"
    by (cases a; cases b) (simp_all add: less_eq_connectionPriority_def)
qed

end

record ConnectionPoolConfig =
  MinConnections :: int
  TargetSessionsPerConnection :: int
  MaxSessionsPerConnection :: int
  MaxConnections :: int
  IdleTimeout :: int
  CleanupInterval :: int

definition defaultConnectionPoolConfig :: "ConnectionPoolConfig \<Rightarrow> ConnectionPoolConfig" where
  "defaultConnectionPoolConfig cfg0 =
     (let cfg1 = (if MinConnections cfg0 \<le> 0 then cfg0\<lparr>MinConnections := 1\<rparr> else cfg0);
          cfg2 = (if MaxSessionsPerConnection cfg1 \<le> 0 then cfg1\<lparr>MaxSessionsPerConnection := 64\<rparr> else cfg1);
          cfg3 = (if TargetSessionsPerConnection cfg2 \<le> 0 then cfg2\<lparr>TargetSessionsPerConnection := 16\<rparr> else cfg2);
          cfg4 = (if TargetSessionsPerConnection cfg3 > MaxSessionsPerConnection cfg3
                  then cfg3\<lparr>TargetSessionsPerConnection := MaxSessionsPerConnection cfg3\<rparr> else cfg3);
          cfg5 = (if IdleTimeout cfg4 \<le> 0 then cfg4\<lparr>IdleTimeout := 30000\<rparr> else cfg4)
      in if CleanupInterval cfg5 \<le> 0 then cfg5\<lparr>CleanupInterval := 5000\<rparr> else cfg5)"

record pooledConnection =
  pc_id :: nat
  pc_conn :: nat
  pc_state :: ConnectionState
  pc_load :: int
  pc_priority :: connectionPriority
  pc_idleSince :: "int option"
  pc_sessions :: "SessionKey set"

record ConnectionPool =
  cp_minConns :: int
  cp_targetSessions :: int
  cp_maxSessions :: int
  cp_maxConns :: int
  cp_idleTimeout :: int
  cp_nextID :: nat
  cp_connections :: "nat \<rightharpoonup> nat"
  cp_routes :: "SessionKey \<rightharpoonup> nat"
  cp_bindings :: "SessionKey \<rightharpoonup> nat"
  cp_queue :: "nat list"
  cp_closed :: bool
  cp_pendingDials :: int
  cp_conns :: "ConnectionState list"
  cp_items :: "pooledConnection list"
  cp_index :: "nat \<Rightarrow> int"
  cp_bconn :: "nat option list"
  cp_mActive :: int
  cp_mConnecting :: int
  cp_mRouted :: int
  cp_mPending :: int
  cp_mReconnects :: int

definition newConnectionPool :: "ConnectionPoolConfig \<Rightarrow> ConnectionPool" where
  "newConnectionPool cfg0 =
     (let cfg = defaultConnectionPoolConfig cfg0
      in \<lparr>cp_minConns = MinConnections cfg, cp_targetSessions = TargetSessionsPerConnection cfg,
          cp_maxSessions = MaxSessionsPerConnection cfg, cp_maxConns = MaxConnections cfg, cp_idleTimeout = IdleTimeout cfg,
          cp_nextID = 0, cp_connections = Map.empty, cp_routes = Map.empty, cp_bindings = Map.empty, cp_queue = [],
          cp_closed = False, cp_pendingDials = 0, cp_conns = [], cp_items = [], cp_index = (\<lambda>_. 0), cp_bconn = [],
          cp_mActive = 0, cp_mConnecting = 0, cp_mRouted = 0, cp_mPending = 0, cp_mReconnects = 0\<rparr>)"

abbreviation item_at :: "ConnectionPool \<Rightarrow> nat \<Rightarrow> pooledConnection" where
  "item_at p i \<equiv> cp_items p ! i"

definition upd_item :: "nat \<Rightarrow> (pooledConnection \<Rightarrow> pooledConnection) \<Rightarrow> ConnectionPool \<Rightarrow> ConnectionPool" where
  "upd_item i f p = p\<lparr>cp_items := (cp_items p)[i := f (item_at p i)]\<rparr>"

subsection \<open>The queue\<close>

definition Less :: "pooledConnection \<Rightarrow> pooledConnection \<Rightarrow> bool" where
  "Less a b =
     (if pc_priority a \<noteq> pc_priority b then pc_priority a < pc_priority b
      else if pc_load a \<noteq> pc_load b then pc_load a < pc_load b
      else pc_id a < pc_id b)"

definition item_key :: "ConnectionPool \<Rightarrow> nat \<Rightarrow> connectionPriority \<times> int \<times> nat" where
  "item_key p i = (pc_priority (item_at p i), pc_load (item_at p i), pc_id (item_at p i))"

lemma Less_key: "Less (item_at p i) (item_at p j) \<longleftrightarrow> item_key p i < item_key p j"
  by (auto simp: Less_def item_key_def)

abbreviation cp_heap :: "ConnectionPool \<Rightarrow> nat qheap" where
  "cp_heap p \<equiv> (cp_queue p, cp_index p)"

definition set_heap :: "nat qheap \<Rightarrow> ConnectionPool \<Rightarrow> ConnectionPool" where
  "set_heap h p = p\<lparr>cp_queue := fst h, cp_index := snd h\<rparr>"

definition selectLocked :: "ConnectionPool \<Rightarrow> nat option" where
  "selectLocked p =
     (case cp_queue p of [] \<Rightarrow> None | i # _ \<Rightarrow> if pc_priority (item_at p i) = PriorityUnavailable then None else Some i)"

definition priorityLocked :: "ConnectionPool \<Rightarrow> pooledConnection \<Rightarrow> connectionPriority" where
  "priorityLocked p item =
     (if pc_load item \<ge> cp_maxSessions p then PriorityUnavailable
      else case cp_conns p ! pc_conn item of
             ConnectionActive \<Rightarrow> PriorityActive
           | ConnectionConnecting \<Rightarrow> PriorityConnecting
           | _ \<Rightarrow> PriorityUnavailable)"

definition refreshLocked :: "nat \<Rightarrow> ConnectionPool \<Rightarrow> ConnectionPool" where
  "refreshLocked i p =
     (let p1 = upd_item i (\<lambda>item. item\<lparr>pc_priority := priorityLocked p item\<rparr>) p
      in set_heap (heap_Fix (item_key p1) (cp_index p1 i) (cp_heap p1)) p1)"

definition reserveDialLocked :: "ConnectionPool \<Rightarrow> ConnectionPool \<times> bool" where
  "reserveDialLocked p =
     (if cp_pendingDials p > 0 \<or> cp_closed p \<or>
         (cp_maxConns p > 0 \<and> int (card (dom (cp_connections p))) + cp_pendingDials p \<ge> cp_maxConns p)
      then (p, False)
      else (p\<lparr>cp_pendingDials := cp_pendingDials p + 1, cp_mPending := cp_mPending p + 1\<rparr>, True))"

definition reserveScaleLocked :: "ConnectionPool \<Rightarrow> ConnectionPool \<times> bool" where
  "reserveScaleLocked p =
     (if cp_pendingDials p > 0 then (p, False)
      else case selectLocked p of
             None \<Rightarrow> (p, False)
           | Some i \<Rightarrow>
               if pc_priority (item_at p i) \<noteq> PriorityActive \<or> pc_load (item_at p i) < cp_targetSessions p then (p, False)
               else reserveDialLocked p)"

fun start_loop :: "nat \<Rightarrow> ConnectionPool \<Rightarrow> ConnectionPool \<times> nat" where
  "start_loop 0 p = (p, 0)"
| "start_loop (Suc n) p =
     (if int (card (dom (cp_connections p))) + cp_pendingDials p < cp_minConns p
      then (case start_loop n (p\<lparr>cp_pendingDials := cp_pendingDials p + 1, cp_mPending := cp_mPending p + 1\<rparr>) of
              (p', starts) \<Rightarrow> (p', Suc starts))
      else (p, 0))"

text \<open>Every round of the loop adds one, so it ends after \<open>cp_minConns\<close> rounds at the latest.\<close>

definition startMinConnections :: "ConnectionPool \<Rightarrow> ConnectionPool \<times> nat" where
  "startMinConnections p = start_loop (nat (cp_minConns p)) p"

definition attachLocked :: "SessionKey \<Rightarrow> nat \<Rightarrow> nat \<Rightarrow> ConnectionPool \<Rightarrow> ConnectionPool" where
  "attachLocked key b i p =
     refreshLocked i
       ((upd_item i (\<lambda>item. item\<lparr>pc_sessions := insert key (pc_sessions item), pc_load := pc_load item + 1, pc_idleSince := None\<rparr>) p)
         \<lparr>cp_routes := (cp_routes p)(key \<mapsto> i), cp_mRouted := cp_mRouted p + 1,
          cp_bconn := (cp_bconn p)[b := Some (pc_conn (item_at p i))]\<rparr>)"

fun assignPendingLocked :: "SessionKey list \<Rightarrow> ConnectionPool \<Rightarrow> ConnectionPool" where
  "assignPendingLocked [] p = p"
| "assignPendingLocked (key # keys) p =
     (case cp_bindings p key of
        None \<Rightarrow> assignPendingLocked keys p
      | Some b \<Rightarrow>
          if cp_routes p key \<noteq> None then assignPendingLocked keys p
          else case selectLocked p of
                 None \<Rightarrow> p
               | Some i \<Rightarrow> assignPendingLocked keys (attachLocked key b i p))"

subsection \<open>Sessions\<close>

definition new_binding :: "SessionKey \<Rightarrow> nat option \<Rightarrow> ConnectionPool \<Rightarrow> ConnectionPool" where
  "new_binding key conn p = p\<lparr>cp_bindings := (cp_bindings p)(key \<mapsto> length (cp_bconn p)), cp_bconn := cp_bconn p @ [conn]\<rparr>"

definition Pool_Bind :: "SessionKey \<Rightarrow> ConnectionPool \<Rightarrow> ConnectionPool \<times> nat \<times> bool" where
  "Pool_Bind key p =
     (case cp_bindings p key of
        Some b \<Rightarrow> (p, b, False)
      | None \<Rightarrow>
          (let b = length (cp_bconn p); p1 = new_binding key None p
           in case selectLocked p1 of
                Some i \<Rightarrow>
                  (let p2 = attachLocked key b i p1
                   in if pc_priority (item_at p2 i) = PriorityActive
                      then (case reserveScaleLocked p2 of (p3, startDial) \<Rightarrow> (p3, b, startDial))
                      else (p2, b, False))
              | None \<Rightarrow> (case reserveDialLocked p1 of (p2, startDial) \<Rightarrow> (p2, b, startDial))))"

definition TryBind :: "SessionKey \<Rightarrow> ConnectionPool \<Rightarrow> ConnectionPool \<times> (nat option \<times> bool) \<times> bool" where
  "TryBind key p =
     (case cp_bindings p key of
        Some b \<Rightarrow> (p, (Some b, case cp_bconn p ! b of None \<Rightarrow> False | Some c \<Rightarrow> cp_conns p ! c = ConnectionActive), False)
      | None \<Rightarrow>
          (case selectLocked p of
             None \<Rightarrow> (case reserveDialLocked p of (p1, startDial) \<Rightarrow> (p1, (None, False), startDial))
           | Some i \<Rightarrow>
               if pc_priority (item_at p i) \<noteq> PriorityActive \<or> cp_conns p ! pc_conn (item_at p i) \<noteq> ConnectionActive
               then (p, (None, False), False)
               else (let b = length (cp_bconn p);
                         p1 = attachLocked key b i (new_binding key (Some (pc_conn (item_at p i))) p)
                     in case reserveScaleLocked p1 of (p2, startDial) \<Rightarrow> (p2, (Some b, True), startDial))))"

definition Unbind :: "int \<Rightarrow> SessionKey list \<Rightarrow> SessionKey \<Rightarrow> ConnectionPool \<Rightarrow> ConnectionPool" where
  "Unbind now order key p0 =
     (let p = p0\<lparr>cp_bindings := (cp_bindings p0)(key := None)\<rparr>
      in case cp_routes p key of
           None \<Rightarrow> p
         | Some i \<Rightarrow>
             (let p1 = upd_item i (\<lambda>item. item\<lparr>pc_sessions := pc_sessions item - {key}\<rparr>) (p\<lparr>cp_routes := (cp_routes p)(key := None)\<rparr>);
                  p2 = (if pc_load (item_at p1 i) > 0
                        then refreshLocked i ((upd_item i (\<lambda>item. item\<lparr>pc_load := pc_load item - 1\<rparr>) p1)\<lparr>cp_mRouted := cp_mRouted p1 - 1\<rparr>)
                        else p1);
                  p3 = (if pc_load (item_at p2 i) = 0 then upd_item i (\<lambda>item. item\<lparr>pc_idleSince := Some now\<rparr>) p2 else p2)
              in assignPendingLocked order p3))"

subsection \<open>Connections\<close>

definition gauge_up :: "ConnectionState \<Rightarrow> ConnectionPool \<Rightarrow> ConnectionPool" where
  "gauge_up st p =
     (case st of ConnectionActive \<Rightarrow> p\<lparr>cp_mActive := cp_mActive p + 1\<rparr>
      | ConnectionConnecting \<Rightarrow> p\<lparr>cp_mConnecting := cp_mConnecting p + 1\<rparr> | _ \<Rightarrow> p)"

definition gauge_down :: "ConnectionState \<Rightarrow> ConnectionPool \<Rightarrow> ConnectionPool" where
  "gauge_down st p =
     (case st of ConnectionActive \<Rightarrow> p\<lparr>cp_mActive := cp_mActive p - 1\<rparr>
      | ConnectionConnecting \<Rightarrow> p\<lparr>cp_mConnecting := cp_mConnecting p - 1\<rparr> | _ \<Rightarrow> p)"

definition recordConnectionRemovalLocked :: "nat \<Rightarrow> ConnectionPool \<Rightarrow> ConnectionPool" where
  "recordConnectionRemovalLocked i p =
     upd_item i (\<lambda>item. item\<lparr>pc_state := ConnectionClosed\<rparr>) (gauge_down (pc_state (item_at p i)) p)"

definition removeLocked :: "nat \<Rightarrow> ConnectionPool \<Rightarrow> ConnectionPool" where
  "removeLocked i p =
     (if cp_connections p (pc_conn (item_at p i)) \<noteq> Some i then p
      else let p1 = p\<lparr>cp_connections := (cp_connections p)(pc_conn (item_at p i) := None)\<rparr>;
               p2 = (if cp_index p1 i \<ge> 0 then set_heap (heap_Remove (item_key p1) (nat (cp_index p1 i)) (cp_heap p1)) p1 else p1);
               p3 = recordConnectionRemovalLocked i p2;
               lost = {key \<in> pc_sessions (item_at p3 i). cp_routes p3 key = Some i}
           in upd_item i (\<lambda>item. item\<lparr>pc_sessions := {}\<rparr>)
                (p3\<lparr>cp_routes := (\<lambda>key. if key \<in> lost then None else cp_routes p3 key),
                    cp_mRouted := cp_mRouted p3 - int (card lost),
                    cp_bconn := map (\<lambda>b. if \<exists>key\<in>lost. cp_bindings p3 key = Some b then None else cp_bconn p3 ! b) [0..<length (cp_bconn p3)]\<rparr>))"

text \<open>What \<open>startDial\<close> does before it connects: \<open>ok\<close> says whether the connection could be built.\<close>

definition startDial :: "bool \<Rightarrow> SessionKey list \<Rightarrow> ConnectionPool \<Rightarrow> ConnectionPool" where
  "startDial ok order p0 =
     (let p = p0\<lparr>cp_pendingDials := cp_pendingDials p0 - 1, cp_mPending := cp_mPending p0 - 1\<rparr>; c = length (cp_conns p)
      in if \<not> ok then p
         else if cp_closed p then p\<lparr>cp_conns := cp_conns p @ [ConnectionClosed]\<rparr>
         else let st = ConnectionConnecting;
                  p1 = p\<lparr>cp_conns := cp_conns p @ [st], cp_nextID := cp_nextID p + 1\<rparr>;
                  i = length (cp_items p1);
                  item = \<lparr>pc_id = cp_nextID p1, pc_conn = c, pc_state = st, pc_load = 0, pc_priority = PriorityActive,
                          pc_idleSince = None, pc_sessions = {}\<rparr>;
                  p2 = (gauge_up st p1)\<lparr>cp_items := cp_items p1 @ [item\<lparr>pc_priority := priorityLocked p1 item\<rparr>],
                                         cp_connections := (cp_connections p1)(c \<mapsto> i)\<rparr>
              in assignPendingLocked order (set_heap (heap_Push (item_key p2) i (cp_heap p2)) p2))"

definition syncConnectionState :: "SessionKey list \<Rightarrow> nat \<Rightarrow> ConnectionPool \<Rightarrow> ConnectionPool" where
  "syncConnectionState order c p =
     (case cp_connections p c of
        None \<Rightarrow> p
      | Some i \<Rightarrow>
          (let old = pc_state (item_at p i); st = cp_conns p ! c;
               p1 = (if old \<noteq> st
                     then upd_item i (\<lambda>item. item\<lparr>pc_state := st\<rparr>)
                            ((\<lambda>q. if old = ConnectionActive \<and> st = ConnectionConnecting then q\<lparr>cp_mReconnects := cp_mReconnects q + 1\<rparr> else q)
                              (gauge_up st (gauge_down old p)))
                     else p)
           in if st = ConnectionClosed then assignPendingLocked order (removeLocked i p1) else refreshLocked i p1))"

fun idle_loop :: "int \<Rightarrow> nat list \<Rightarrow> ConnectionPool \<Rightarrow> ConnectionPool \<times> nat list" where
  "idle_loop now [] p = (p, [])"
| "idle_loop now (c # cs) p =
     (case cp_connections p c of
        None \<Rightarrow> idle_loop now cs p
      | Some i \<Rightarrow>
          if int (card (dom (cp_connections p))) > cp_minConns p \<and> pc_load (item_at p i) = 0 \<and>
             (case pc_idleSince (item_at p i) of None \<Rightarrow> False | Some since \<Rightarrow> now - since \<ge> cp_idleTimeout p)
          then (case idle_loop now cs (removeLocked i p) of (p', conns) \<Rightarrow> (p', pc_conn (item_at p i) # conns))
          else idle_loop now cs p)"

definition cleanupIdle :: "int \<Rightarrow> nat list \<Rightarrow> ConnectionPool \<Rightarrow> ConnectionPool \<times> nat list" where
  "cleanupIdle now order p = idle_loop now order p"

definition Pool_Shutdown :: "nat list \<Rightarrow> ConnectionPool \<Rightarrow> ConnectionPool \<times> nat list" where
  "Pool_Shutdown order p0 =
     (if cp_closed p0 then (p0, [])
      else let p = p0\<lparr>cp_closed := True\<rparr>;
               p1 = p\<lparr>cp_bconn := map (\<lambda>b. if b \<in> ran (cp_bindings p) then None else cp_bconn p ! b) [0..<length (cp_bconn p)]\<rparr>;
               p2 = fold recordConnectionRemovalLocked (List.map_filter (cp_connections p1) order) p1
           in (p2\<lparr>cp_mRouted := cp_mRouted p2 - int (card (dom (cp_routes p2))), cp_connections := Map.empty, cp_routes := Map.empty,
                  cp_bindings := Map.empty, cp_queue := []\<rparr>, order))"

definition Snapshots :: "nat list \<Rightarrow> ConnectionPool \<Rightarrow> (nat \<times> ConnectionState \<times> int \<times> int) list" where
  "Snapshots order p =
     map (\<lambda>i. (pc_id (item_at p i), cp_conns p ! pc_conn (item_at p i), pc_load (item_at p i),
               case pc_idleSince (item_at p i) of None \<Rightarrow> 0 | Some t \<Rightarrow> t))
       (List.map_filter (cp_connections p) order)"

text \<open>The callbacks change the atomic state first; the flag tells whether the pool is notified then.\<close>

definition conn_OnOpen :: "nat \<Rightarrow> ConnectionPool \<Rightarrow> ConnectionPool \<times> bool" where
  "conn_OnOpen c p =
     (if cp_conns p ! c = ConnectionConnecting then (p\<lparr>cp_conns := (cp_conns p)[c := ConnectionActive]\<rparr>, True) else (p, False))"

definition conn_OnClose :: "nat \<Rightarrow> ConnectionPool \<Rightarrow> ConnectionPool \<times> bool" where
  "conn_OnClose c p =
     (if cp_conns p ! c = ConnectionActive then (p\<lparr>cp_conns := (cp_conns p)[c := ConnectionConnecting]\<rparr>, True) else (p, False))"

definition conn_Close :: "nat \<Rightarrow> ConnectionPool \<Rightarrow> ConnectionPool \<times> bool" where
  "conn_Close c p = (p\<lparr>cp_conns := (cp_conns p)[c := ConnectionClosed]\<rparr>, cp_conns p ! c \<noteq> ConnectionClosed)"

section \<open>Well-formed pools\<close>

text \<open>
  \<open>pool_rest\<close> collects what does not depend on priorities and on the order of the queue: the queue holds
  the items of the open connections; the routes and the session sets of the items are two views of
  the same relation; the load of an item is its number of sessions and stays within the limit; every
  binding reads the connection its session is routed to; the gauges count; the dials are bounded.
\<close>

definition in_state :: "ConnectionState \<Rightarrow> ConnectionPool \<Rightarrow> nat set" where
  "in_state st p = {i \<in> set (cp_queue p). pc_state (item_at p i) = st}"

definition items_ok :: "ConnectionPool \<Rightarrow> bool" where
  "items_ok p \<longleftrightarrow> set (cp_queue p) = ran (cp_connections p) \<and> finite (dom (cp_connections p)) \<and>
     (\<forall>c i. cp_connections p c = Some i \<longrightarrow> i < length (cp_items p) \<and> pc_conn (item_at p i) = c \<and> c < length (cp_conns p)) \<and>
     (\<forall>st\<in>set (cp_conns p). st \<noteq> ConnectionUnknown)"

definition routes_ok :: "ConnectionPool \<Rightarrow> bool" where
  "routes_ok p \<longleftrightarrow>
     (\<forall>k i. cp_routes p k = Some i \<longleftrightarrow> i \<in> set (cp_queue p) \<and> k \<in> pc_sessions (item_at p i)) \<and>
     finite (dom (cp_routes p)) \<and>
     (\<forall>i\<in>set (cp_queue p). pc_load (item_at p i) = int (card (pc_sessions (item_at p i))) \<and> pc_load (item_at p i) \<le> cp_maxSessions p)"

definition bindings_ok :: "ConnectionPool \<Rightarrow> bool" where
  "bindings_ok p \<longleftrightarrow>
     dom (cp_routes p) \<subseteq> dom (cp_bindings p) \<and> inj_on (cp_bindings p) (dom (cp_bindings p)) \<and>
     (\<forall>k b. cp_bindings p k = Some b \<longrightarrow> b < length (cp_bconn p) \<and>
        cp_bconn p ! b = map_option (\<lambda>i. pc_conn (item_at p i)) (cp_routes p k))"

definition gauges_ok :: "ConnectionPool \<Rightarrow> bool" where
  "gauges_ok p \<longleftrightarrow> cp_mActive p = int (card (in_state ConnectionActive p)) \<and>
     cp_mConnecting p = int (card (in_state ConnectionConnecting p)) \<and>
     cp_mRouted p = int (card (dom (cp_routes p))) \<and> cp_mPending p = cp_pendingDials p"

definition dials_ok :: "ConnectionPool \<Rightarrow> bool" where
  "dials_ok p \<longleftrightarrow> 0 \<le> cp_pendingDials p \<and> cp_pendingDials p \<le> max 1 (cp_minConns p) \<and> 0 < cp_maxSessions p \<and>
     (0 < cp_maxConns p \<longrightarrow> int (card (dom (cp_connections p))) + cp_pendingDials p \<le> max (cp_minConns p) (cp_maxConns p)) \<and>
     (cp_closed p \<longrightarrow> cp_connections p = Map.empty)"

definition pool_rest :: "ConnectionPool \<Rightarrow> bool" where
  "pool_rest p \<longleftrightarrow> items_ok p \<and> routes_ok p \<and> bindings_ok p \<and> gauges_ok p \<and> dials_ok p"

text \<open>The stored priority of an item agrees with its load and never calls a closed connection's
  absence of capacity temporary.\<close>

definition prio_ok :: "ConnectionPool \<Rightarrow> bool" where
  "prio_ok p \<longleftrightarrow> (\<forall>i\<in>set (cp_queue p).
     if pc_priority (item_at p i) = PriorityUnavailable
     then pc_load (item_at p i) \<ge> cp_maxSessions p \<or> cp_conns p ! pc_conn (item_at p i) = ConnectionClosed
     else pc_load (item_at p i) < cp_maxSessions p)"

definition queue_ok :: "ConnectionPool \<Rightarrow> bool" where
  "queue_ok p \<longleftrightarrow> min_ok (item_key p) (cp_heap p)"

definition waiting_ok :: "ConnectionPool \<Rightarrow> bool" where
  "waiting_ok p \<longleftrightarrow> (selectLocked p \<noteq> None \<longrightarrow> dom (cp_bindings p) = dom (cp_routes p))"

definition pool_inv :: "ConnectionPool \<Rightarrow> bool" where
  "pool_inv p \<longleftrightarrow> pool_rest p \<and> prio_ok p \<and> queue_ok p"

lemma select_None:
  assumes "queue_ok p"
  shows "selectLocked p = None \<longleftrightarrow> (\<forall>i\<in>set (cp_queue p). pc_priority (item_at p i) = PriorityUnavailable)"
proof (cases "cp_queue p")
  case (Cons i xs)
  then have "item_key p i \<le> item_key p j" if "j \<in> set (cp_queue p)" for j
    using conn_queue.ok_first [of "item_key p" "cp_heap p" j] assms that by (simp add: queue_ok_def)
  then have "pc_priority (item_at p i) \<le> pc_priority (item_at p j)" if "j \<in> set (cp_queue p)" for j
    using that by (fastforce simp: item_key_def)
  moreover have "PriorityUnavailable \<le> x \<longleftrightarrow> x = PriorityUnavailable" for x
    by (cases x) (simp_all add: less_eq_connectionPriority_def)
  ultimately show ?thesis using Cons by (auto simp: selectLocked_def)
qed (simp add: selectLocked_def)

lemma select_Some:
  assumes "queue_ok p" "selectLocked p = Some i"
  shows "i \<in> set (cp_queue p)" "pc_priority (item_at p i) \<noteq> PriorityUnavailable"
    "\<And>j. j \<in> set (cp_queue p) \<Longrightarrow> item_key p i \<le> item_key p j"
  using assms conn_queue.first_is_member [of "item_key p" "cp_heap p" i]
  by (auto simp: selectLocked_def queue_ok_def split: list.splits if_splits)

lemma queue_item: "items_ok p \<Longrightarrow> i \<in> set (cp_queue p) \<Longrightarrow>
    i < length (cp_items p) \<and> cp_connections p (pc_conn (item_at p i)) = Some i \<and> pc_conn (item_at p i) < length (cp_conns p)"
  by (auto simp: items_ok_def ran_def)

lemma route_queue: "routes_ok p \<Longrightarrow> cp_routes p k = Some i \<Longrightarrow> i \<in> set (cp_queue p) \<and> k \<in> pc_sessions (item_at p i)"
  unfolding routes_ok_def by blast

lemma pool_rest_cong:
  assumes "pool_rest p" "set (cp_queue q) = set (cp_queue p)" "cp_connections q = cp_connections p" "cp_conns q = cp_conns p"
    "length (cp_items q) = length (cp_items p)"
    "\<And>j. j \<in> set (cp_queue p) \<Longrightarrow> pc_conn (item_at q j) = pc_conn (item_at p j) \<and> pc_sessions (item_at q j) = pc_sessions (item_at p j) \<and>
       pc_load (item_at q j) = pc_load (item_at p j) \<and> pc_state (item_at q j) = pc_state (item_at p j)"
    "cp_routes q = cp_routes p" "cp_bindings q = cp_bindings p" "cp_bconn q = cp_bconn p" "cp_closed q = cp_closed p"
    "cp_pendingDials q = cp_pendingDials p" "cp_mPending q = cp_mPending p" "cp_mActive q = cp_mActive p"
    "cp_mConnecting q = cp_mConnecting p" "cp_mRouted q = cp_mRouted p"
    "cp_minConns q = cp_minConns p" "cp_maxConns q = cp_maxConns p" "cp_maxSessions q = cp_maxSessions p"
  shows "pool_rest q"
proof -
  have st: "in_state st q = in_state st p" for st using assms(2,6) by (auto simp: in_state_def)
  have "items_ok q" using assms(1-6) ranI [of "cp_connections p"] by (auto simp: pool_rest_def items_ok_def)
  moreover have "routes_ok q" using assms(1,2,6,7,18) by (auto simp: pool_rest_def routes_ok_def)
  moreover have "map_option (\<lambda>i. pc_conn (item_at q i)) (cp_routes p k) = map_option (\<lambda>i. pc_conn (item_at p i)) (cp_routes p k)" for k
  proof (cases "cp_routes p k")
    case (Some i)
    then show ?thesis using assms(6) [of i] route_queue [OF _ Some] assms(1) by (simp add: pool_rest_def)
  qed simp
  then have "bindings_ok q" using assms(1,7-9) by (simp add: pool_rest_def bindings_ok_def)
  moreover have "gauges_ok q" using assms(1,7,11-15) st by (simp add: pool_rest_def gauges_ok_def)
  moreover have "dials_ok q" using assms(1,3,10,11,16-18) by (simp add: pool_rest_def dials_ok_def)
  ultimately show ?thesis by (simp add: pool_rest_def)
qed

text \<open>\<open>refreshLocked\<close> repairs the priority and the place of one item.\<close>

lemma refresh_ok:
  assumes rest: "pool_rest p" and i: "i \<in> set (cp_queue p)"
    and others: "\<forall>j\<in>set (cp_queue p) - {i}. if pc_priority (item_at p j) = PriorityUnavailable
       then pc_load (item_at p j) \<ge> cp_maxSessions p \<or> cp_conns p ! pc_conn (item_at p j) = ConnectionClosed
       else pc_load (item_at p j) < cp_maxSessions p"
    and heap: "min_ok old_key (cp_heap p)" "\<And>j. j \<in> set (cp_queue p) \<Longrightarrow> j \<noteq> i \<Longrightarrow> item_key p j = old_key j"
  shows "pool_inv (refreshLocked i p)"
proof -
  define p1 where "p1 = upd_item i (\<lambda>item. item\<lparr>pc_priority := priorityLocked p item\<rparr>) p"
  define h where "h = heap_Fix (item_key p1) (cp_index p1 i) (cp_heap p1)"
  have r: "refreshLocked i p = set_heap h p1" by (simp add: refreshLocked_def Let_def p1_def h_def)
  have il: "i < length (cp_items p)" using queue_item rest i by (auto simp: pool_rest_def)
  have it: "item_at p1 j = (if j = i then (item_at p i)\<lparr>pc_priority := priorityLocked p (item_at p i)\<rparr> else item_at p j)" for j
    using il by (auto simp: p1_def upd_item_def)
  have same: "cp_queue p1 = cp_queue p" "cp_index p1 = cp_index p" "length (cp_items p1) = length (cp_items p)"
    "cp_conns p1 = cp_conns p" "cp_maxSessions p1 = cp_maxSessions p"
    by (simp_all add: p1_def upd_item_def)
  have "min_ok (item_key p1) h \<and> set (fst h) = set (cp_queue p)"
    using conn_queue.fix_ok [of old_key "cp_heap p" i "item_key p1"] heap i unfolding h_def same
    by (simp add: item_key_def it)
  then have hq: "min_ok (item_key p1) h" "set (fst h) = set (cp_queue p)" by simp_all
  have fields: "pc_conn (item_at p1 j) = pc_conn (item_at p j)" "pc_sessions (item_at p1 j) = pc_sessions (item_at p j)"
    "pc_load (item_at p1 j) = pc_load (item_at p j)" "pc_state (item_at p1 j) = pc_state (item_at p j)" for j
    by (simp_all add: it)
  have "pool_rest (set_heap h p1)"
    by (rule pool_rest_cong [OF rest]) (use hq(2) fields same(3) in \<open>simp_all add: set_heap_def\<close>, simp_all add: p1_def upd_item_def)
  moreover have "prio_ok (set_heap h p1)"
  proof -
    have u: "cp_conns p ! pc_conn (item_at p i) \<noteq> ConnectionUnknown"
      using rest queue_item [OF _ i] unfolding pool_rest_def items_ok_def by auto
    have "if pc_priority (item_at p1 j) = PriorityUnavailable
        then pc_load (item_at p1 j) \<ge> cp_maxSessions p \<or> cp_conns p ! pc_conn (item_at p1 j) = ConnectionClosed
        else pc_load (item_at p1 j) < cp_maxSessions p" if j: "j \<in> set (cp_queue p)" for j
    proof (cases "j = i")
      case True
      then show ?thesis using u by (simp add: it priorityLocked_def split: ConnectionState.splits)
    next
      case False
      then show ?thesis using others j by (simp add: it)
    qed
    then show ?thesis using hq(2) by (simp add: prio_ok_def set_heap_def same)
  qed
  moreover have "queue_ok (set_heap h p1)"
  proof -
    have "item_key (set_heap h p1) = item_key p1" by (simp add: item_key_def set_heap_def fun_eq_iff)
    then show ?thesis using hq(1) by (simp add: queue_ok_def set_heap_def)
  qed
  ultimately show ?thesis by (simp add: pool_inv_def r)
qed

lemma sessions_finite: "routes_ok p \<Longrightarrow> i \<in> set (cp_queue p) \<Longrightarrow> finite (pc_sessions (item_at p i))"
  unfolding routes_ok_def by (rule finite_subset [of _ "dom (cp_routes p)"]) auto

lemma refresh_fields [simp]:
  "cp_bindings (refreshLocked i p) = cp_bindings p" "cp_routes (refreshLocked i p) = cp_routes p"
  "cp_closed (refreshLocked i p) = cp_closed p" "cp_maxSessions (refreshLocked i p) = cp_maxSessions p"
  "cp_connections (refreshLocked i p) = cp_connections p" "cp_conns (refreshLocked i p) = cp_conns p"
  "cp_bconn (refreshLocked i p) = cp_bconn p" "length (cp_items (refreshLocked i p)) = length (cp_items p)"
  "cp_minConns (refreshLocked i p) = cp_minConns p" "cp_maxConns (refreshLocked i p) = cp_maxConns p"
  "cp_pendingDials (refreshLocked i p) = cp_pendingDials p"
  by (simp_all add: refreshLocked_def set_heap_def upd_item_def Let_def)

lemma refresh_item: "i < length (cp_items p) \<Longrightarrow>
    item_at (refreshLocked i p) j = (if j = i then (item_at p i)\<lparr>pc_priority := priorityLocked p (item_at p i)\<rparr> else item_at p j)"
  by (auto simp: refreshLocked_def set_heap_def upd_item_def Let_def)

lemma attach_fields [simp]:
  "cp_bindings (attachLocked key b i p) = cp_bindings p" "cp_routes (attachLocked key b i p) = (cp_routes p)(key \<mapsto> i)"
  "cp_closed (attachLocked key b i p) = cp_closed p" "cp_maxSessions (attachLocked key b i p) = cp_maxSessions p"
  "cp_connections (attachLocked key b i p) = cp_connections p" "cp_conns (attachLocked key b i p) = cp_conns p"
  "cp_minConns (attachLocked key b i p) = cp_minConns p" "cp_maxConns (attachLocked key b i p) = cp_maxConns p"
  "cp_pendingDials (attachLocked key b i p) = cp_pendingDials p"
  by (simp_all add: attachLocked_def upd_item_def)

lemma inv_queue: "pool_inv p \<Longrightarrow> set (cp_queue p) = ran (cp_connections p)"
  by (simp add: pool_inv_def pool_rest_def items_ok_def)

text \<open>Routing a waiting session to an item with room.\<close>

lemma attach_ok:
  assumes inv: "pool_inv p" and i: "i \<in> set (cp_queue p)" "pc_load (item_at p i) < cp_maxSessions p"
    and b: "cp_bindings p key = Some b" "cp_routes p key = None"
  shows "pool_inv (attachLocked key b i p)"
proof -
  define p1 where "p1 = (upd_item i (\<lambda>item. item\<lparr>pc_sessions := insert key (pc_sessions item), pc_load := pc_load item + 1, pc_idleSince := None\<rparr>) p)
     \<lparr>cp_routes := (cp_routes p)(key \<mapsto> i), cp_mRouted := cp_mRouted p + 1, cp_bconn := (cp_bconn p)[b := Some (pc_conn (item_at p i))]\<rparr>"
  have rest: "items_ok p" "routes_ok p" "bindings_ok p" "gauges_ok p" "dials_ok p" using inv by (simp_all add: pool_inv_def pool_rest_def)
  have il: "i < length (cp_items p)" using queue_item [OF rest(1) i(1)] by simp
  have it: "item_at p1 j = (if j = i then (item_at p i)\<lparr>pc_sessions := insert key (pc_sessions (item_at p i)),
      pc_load := pc_load (item_at p i) + 1, pc_idleSince := None\<rparr> else item_at p j)" for j
    using il by (auto simp: p1_def upd_item_def)
  have f: "cp_queue p1 = cp_queue p" "cp_index p1 = cp_index p" "cp_routes p1 = (cp_routes p)(key \<mapsto> i)" "cp_bindings p1 = cp_bindings p"
    "cp_connections p1 = cp_connections p" "cp_conns p1 = cp_conns p" "length (cp_items p1) = length (cp_items p)"
    "cp_bconn p1 = (cp_bconn p)[b := Some (pc_conn (item_at p i))]" "cp_maxSessions p1 = cp_maxSessions p" "cp_mRouted p1 = cp_mRouted p + 1"
    "cp_mActive p1 = cp_mActive p" "cp_mConnecting p1 = cp_mConnecting p" "cp_mPending p1 = cp_mPending p" "cp_pendingDials p1 = cp_pendingDials p"
    "cp_minConns p1 = cp_minConns p" "cp_maxConns p1 = cp_maxConns p" "cp_closed p1 = cp_closed p"
    by (simp_all add: p1_def upd_item_def)
  have conn: "pc_conn (item_at p1 j) = pc_conn (item_at p j)" "pc_state (item_at p1 j) = pc_state (item_at p j)" for j by (simp_all add: it)
  have new: "key \<notin> pc_sessions (item_at p j)" if "j \<in> set (cp_queue p)" for j
    using rest(2) b(2) that unfolding routes_ok_def by (metis option.distinct(1))
  have "items_ok p1" using rest(1) conn by (simp add: items_ok_def f)
  moreover have "routes_ok p1"
  proof -
    have "cp_routes p1 k = Some j \<longleftrightarrow> j \<in> set (cp_queue p) \<and> k \<in> pc_sessions (item_at p1 j)" for k j
    proof (cases "k = key")
      case True
      then show ?thesis using i(1) new by (auto simp: f it)
    next
      case False
      have "cp_routes p k = Some j \<longleftrightarrow> j \<in> set (cp_queue p) \<and> k \<in> pc_sessions (item_at p j)"
        using rest(2) unfolding routes_ok_def by blast
      then show ?thesis using False by (simp add: f it)
    qed
    moreover have "pc_load (item_at p1 j) = int (card (pc_sessions (item_at p1 j))) \<and> pc_load (item_at p1 j) \<le> cp_maxSessions p"
      if j: "j \<in> set (cp_queue p)" for j
      using rest(2) j i new [OF i(1)] sessions_finite [OF rest(2) i(1)] by (auto simp: it routes_ok_def)
    moreover have "finite (dom (cp_routes p1))" using rest(2) by (simp add: routes_ok_def f)
    ultimately show ?thesis unfolding routes_ok_def f(1,9) by blast
  qed
  moreover have "bindings_ok p1"
  proof -
    have inj: "k = key" if "cp_bindings p k = Some b" for k
      using rest(3) b(1) that unfolding bindings_ok_def by (metis domI inj_onD)
    have "b' < length (cp_bconn p1) \<and> cp_bconn p1 ! b' = map_option (\<lambda>i. pc_conn (item_at p1 i)) (cp_routes p1 k)"
      if k: "cp_bindings p k = Some b'" for k b'
    proof (cases "b' = b")
      case True
      then have "k = key" using inj k by simp
      then show ?thesis using True rest(3) k by (auto simp: bindings_ok_def f conn)
    next
      case False
      then have "k \<noteq> key" using b(1) k by auto
      then show ?thesis using False rest(3) k by (auto simp: bindings_ok_def f conn)
    qed
    then show ?thesis using rest(3) b(1) by (auto simp: bindings_ok_def f)
  qed
  moreover have "gauges_ok p1"
    using rest(2,4) b(2) by (simp add: gauges_ok_def in_state_def f conn routes_ok_def domIff card_insert_if)
  moreover have "dials_ok p1" using rest(5) by (simp add: dials_ok_def f)
  ultimately have "pool_rest p1" by (simp add: pool_rest_def)
  moreover have "item_key p1 j = item_key p j" if "j \<noteq> i" for j using that by (simp add: item_key_def it)
  ultimately have "pool_inv (refreshLocked i p1)"
    using i(1) inv by (intro refresh_ok [where old_key = "item_key p"]) (auto simp: f pool_inv_def prio_ok_def queue_ok_def it)
  then show ?thesis by (simp add: attachLocked_def p1_def)
qed

lemma assign_fields [simp]:
  "cp_bindings (assignPendingLocked order p) = cp_bindings p" "cp_closed (assignPendingLocked order p) = cp_closed p"
  "cp_connections (assignPendingLocked order p) = cp_connections p" "cp_conns (assignPendingLocked order p) = cp_conns p"
  "cp_pendingDials (assignPendingLocked order p) = cp_pendingDials p" "cp_maxConns (assignPendingLocked order p) = cp_maxConns p"
  by (induction order p rule: assignPendingLocked.induct) (simp_all split: option.splits)

lemma assign_ok:
  "pool_inv p \<Longrightarrow> pool_inv (assignPendingLocked order p) \<and>
     (dom (cp_bindings p) \<subseteq> set order \<union> dom (cp_routes p) \<longrightarrow> waiting_ok (assignPendingLocked order p))"
proof (induction order p rule: assignPendingLocked.induct)
  case (1 p)
  then have "dom (cp_routes p) \<subseteq> dom (cp_bindings p)" by (simp add: pool_inv_def pool_rest_def bindings_ok_def)
  then show ?case using 1 by (auto simp: waiting_ok_def)
next
  case (2 key keys p)
  show ?case
  proof (cases "cp_bindings p key")
    case None
    then have "(dom (cp_bindings p) \<subseteq> set (key # keys) \<union> dom (cp_routes p)) = (dom (cp_bindings p) \<subseteq> set keys \<union> dom (cp_routes p))"
      by auto
    then show ?thesis using 2(1) [OF None 2(4)] None by simp
  next
    case (Some b)
    show ?thesis
    proof (cases "cp_routes p key = None")
      case False
      then have "(dom (cp_bindings p) \<subseteq> set (key # keys) \<union> dom (cp_routes p)) = (dom (cp_bindings p) \<subseteq> set keys \<union> dom (cp_routes p))"
        by auto
      then show ?thesis using 2(2) [OF Some False 2(4)] Some False by simp
    next
      case True
      show ?thesis
      proof (cases "selectLocked p")
        case None
        then show ?thesis using 2(4) Some True by (simp add: waiting_ok_def)
      next
        case sel: (Some i)
        have q: "queue_ok p" using 2(4) by (simp add: pool_inv_def)
        have "pc_load (item_at p i) < cp_maxSessions p"
          using 2(4) select_Some(1,2) [OF q sel] by (auto simp: pool_inv_def prio_ok_def split: if_splits)
        then have "pool_inv (attachLocked key b i p)"
          using attach_ok [OF 2(4) select_Some(1) [OF q sel] _ Some True] by simp
        moreover have "\<not> cp_routes p key \<noteq> None" using True by simp
        ultimately have "pool_inv (assignPendingLocked keys (attachLocked key b i p))"
          "dom (cp_bindings p) \<subseteq> set keys \<union> insert key (dom (cp_routes p)) \<longrightarrow> waiting_ok (assignPendingLocked keys (attachLocked key b i p))"
          using 2(3) [OF Some _ sel, unfolded attach_fields] by auto
        then show ?thesis using Some True sel by simp
      qed
    qed
  qed
qed

lemma other_fields_ok:
  assumes "pool_inv p" "pool_rest q" "cp_queue q = cp_queue p" "cp_index q = cp_index p" "cp_conns q = cp_conns p" "cp_maxSessions q = cp_maxSessions p"
    "\<And>j. j \<in> set (cp_queue p) \<Longrightarrow> pc_priority (item_at q j) = pc_priority (item_at p j) \<and> pc_load (item_at q j) = pc_load (item_at p j) \<and>
       pc_id (item_at q j) = pc_id (item_at p j) \<and> pc_conn (item_at q j) = pc_conn (item_at p j)"
  shows "pool_inv q"
proof -
  have "prio_ok q" using assms(1,3,5,6,7) by (simp add: pool_inv_def prio_ok_def)
  moreover have "min_ok (item_key q) (cp_heap p)"
  proof (rule conn_queue.ok_cong [of "item_key p" "cp_heap p"])
    show "min_ok (item_key p) (cp_heap p)" using assms(1) by (simp add: pool_inv_def queue_ok_def)
    show "item_key q y = item_key p y" if "y \<in> set (fst (cp_heap p))" for y using assms(7) [of y] that by (simp add: item_key_def)
  qed
  ultimately show ?thesis using assms(2-4) by (simp add: pool_inv_def queue_ok_def)
qed

text \<open>Recording a new state of a connection moves it from one gauge to the other.\<close>

lemma in_state_move:
  assumes "items_ok p" "i \<in> set (cp_queue p)" "pc_state (item_at p i) \<noteq> st"
    "cp_queue q = cp_queue p" "\<And>j. pc_state (item_at q j) = (if j = i then st else pc_state (item_at p j))"
  shows "int (card (in_state X q)) = int (card (in_state X p)) +
     (if X = st then 1 else if X = pc_state (item_at p i) then - 1 else 0)"
proof -
  have fin: "finite (in_state X p)" by (simp add: in_state_def)
  consider "X = st" | "X \<noteq> st" "X = pc_state (item_at p i)" | "X \<noteq> st" "X \<noteq> pc_state (item_at p i)" by blast
  then show ?thesis
  proof cases
    case 1
    have "in_state X q = insert i (in_state X p)" "i \<notin> in_state X p" using assms 1 by (auto simp: in_state_def)
    then show ?thesis using fin 1 by simp
  next
    case 2
    have "in_state X q = in_state X p - {i}" "i \<in> in_state X p" using assms 2 by (auto simp: in_state_def)
    moreover from this fin have "0 < card (in_state X p)" using card_gt_0_iff by blast
    ultimately show ?thesis using fin 2 by simp
  next
    case 3
    have "in_state X q = in_state X p" using assms 3 by (auto simp: in_state_def split: if_splits)
    then show ?thesis using 3 by simp
  qed
qed

lemma gauge_fields [simp]:
  "cp_queue (gauge_up st p) = cp_queue p" "cp_items (gauge_up st p) = cp_items p" "cp_index (gauge_up st p) = cp_index p"
  "cp_connections (gauge_up st p) = cp_connections p" "cp_conns (gauge_up st p) = cp_conns p" "cp_routes (gauge_up st p) = cp_routes p"
  "cp_bindings (gauge_up st p) = cp_bindings p" "cp_bconn (gauge_up st p) = cp_bconn p" "cp_mRouted (gauge_up st p) = cp_mRouted p"
  "cp_mPending (gauge_up st p) = cp_mPending p" "cp_pendingDials (gauge_up st p) = cp_pendingDials p" "cp_closed (gauge_up st p) = cp_closed p"
  "cp_minConns (gauge_up st p) = cp_minConns p" "cp_maxConns (gauge_up st p) = cp_maxConns p" "cp_maxSessions (gauge_up st p) = cp_maxSessions p"
  "cp_mActive (gauge_up st p) = cp_mActive p + (if st = ConnectionActive then 1 else 0)"
  "cp_mConnecting (gauge_up st p) = cp_mConnecting p + (if st = ConnectionConnecting then 1 else 0)"
  "cp_queue (gauge_down st p) = cp_queue p" "cp_items (gauge_down st p) = cp_items p" "cp_index (gauge_down st p) = cp_index p"
  "cp_connections (gauge_down st p) = cp_connections p" "cp_conns (gauge_down st p) = cp_conns p" "cp_routes (gauge_down st p) = cp_routes p"
  "cp_bindings (gauge_down st p) = cp_bindings p" "cp_bconn (gauge_down st p) = cp_bconn p" "cp_mRouted (gauge_down st p) = cp_mRouted p"
  "cp_mPending (gauge_down st p) = cp_mPending p" "cp_pendingDials (gauge_down st p) = cp_pendingDials p" "cp_closed (gauge_down st p) = cp_closed p"
  "cp_minConns (gauge_down st p) = cp_minConns p" "cp_maxConns (gauge_down st p) = cp_maxConns p" "cp_maxSessions (gauge_down st p) = cp_maxSessions p"
  "cp_mActive (gauge_down st p) = cp_mActive p - (if st = ConnectionActive then 1 else 0)"
  "cp_mConnecting (gauge_down st p) = cp_mConnecting p - (if st = ConnectionConnecting then 1 else 0)"
  "cp_nextID (gauge_up st p) = cp_nextID p"
  by (cases st; simp add: gauge_up_def gauge_down_def)+

definition record_state :: "nat \<Rightarrow> ConnectionState \<Rightarrow> ConnectionPool \<Rightarrow> ConnectionPool" where
  "record_state i st p = upd_item i (\<lambda>item. item\<lparr>pc_state := st\<rparr>) (gauge_up st (gauge_down (pc_state (item_at p i)) p))"

lemma record_state_ok:
  assumes inv: "pool_inv p" and i: "i \<in> set (cp_queue p)" "pc_state (item_at p i) \<noteq> st"
  shows "pool_inv (record_state i st p)"
proof -
  let ?q = "record_state i st p"
  have rest: "items_ok p" "routes_ok p" "bindings_ok p" "gauges_ok p" "dials_ok p" using inv by (simp_all add: pool_inv_def pool_rest_def)
  have il: "i < length (cp_items p)" using queue_item [OF rest(1) i(1)] by simp
  have it: "item_at ?q j = (if j = i then (item_at p i)\<lparr>pc_state := st\<rparr> else item_at p j)" for j
    using il by (auto simp: record_state_def upd_item_def)
  have f: "cp_queue ?q = cp_queue p" "cp_index ?q = cp_index p" "cp_routes ?q = cp_routes p" "cp_bindings ?q = cp_bindings p"
    "cp_connections ?q = cp_connections p" "cp_conns ?q = cp_conns p" "length (cp_items ?q) = length (cp_items p)"
    "cp_bconn ?q = cp_bconn p" "cp_maxSessions ?q = cp_maxSessions p" "cp_mRouted ?q = cp_mRouted p"
    "cp_mPending ?q = cp_mPending p" "cp_pendingDials ?q = cp_pendingDials p"
    "cp_minConns ?q = cp_minConns p" "cp_maxConns ?q = cp_maxConns p" "cp_closed ?q = cp_closed p"
    by (simp_all add: record_state_def upd_item_def)
  have g: "int (card (in_state X ?q)) = int (card (in_state X p)) + (if X = st then 1 else if X = pc_state (item_at p i) then - 1 else 0)" for X
    by (rule in_state_move [OF rest(1) i]) (simp_all add: f it)
  have fi: "pc_conn (item_at ?q j) = pc_conn (item_at p j)" "pc_sessions (item_at ?q j) = pc_sessions (item_at p j)"
    "pc_load (item_at ?q j) = pc_load (item_at p j)" for j by (simp_all add: it)
  have "items_ok ?q" using rest(1) by (simp add: items_ok_def f fi)
  moreover have "routes_ok ?q" using rest(2) unfolding routes_ok_def f fi .
  moreover have "bindings_ok ?q" using rest(3) by (simp add: bindings_ok_def f fi)
  moreover have "gauges_ok ?q"
    using rest(4) i(2) unfolding gauges_ok_def g by (auto simp: f) (auto simp: record_state_def upd_item_def)
  moreover have "dials_ok ?q" using rest(5) by (simp add: dials_ok_def f)
  ultimately have "pool_rest ?q" by (simp add: pool_rest_def)
  then show ?thesis by (rule other_fields_ok [OF inv]) (simp_all add: f it)
qed

text \<open>Removing an item: its sessions lose their route and wait again.\<close>

lemma remove_frame:
  "cp_bindings (removeLocked i p) = cp_bindings p" "cp_closed (removeLocked i p) = cp_closed p"
  "cp_conns (removeLocked i p) = cp_conns p" "cp_minConns (removeLocked i p) = cp_minConns p"
  "cp_maxSessions (removeLocked i p) = cp_maxSessions p" "cp_idleTimeout (removeLocked i p) = cp_idleTimeout p"
  by (simp_all add: removeLocked_def recordConnectionRemovalLocked_def gauge_down_def upd_item_def set_heap_def Let_def
      split: ConnectionState.split)

lemma pool_remove_ok:
  assumes inv: "pool_inv p" and i: "i \<in> set (cp_queue p)"
  shows "pool_inv (removeLocked i p) \<and> set (cp_queue (removeLocked i p)) = set (cp_queue p) - {i} \<and>
    (\<forall>j. j \<noteq> i \<longrightarrow> item_at (removeLocked i p) j = item_at p j) \<and>
    cp_connections (removeLocked i p) = (cp_connections p)(pc_conn (item_at p i) := None) \<and>
    cp_routes (removeLocked i p) = (\<lambda>k. if cp_routes p k = Some i then None else cp_routes p k)"
proof -
  let ?q = "removeLocked i p" and ?c = "pc_conn (item_at p i)"
  have rest: "items_ok p" "routes_ok p" "bindings_ok p" "gauges_ok p" "dials_ok p" using inv by (simp_all add: pool_inv_def pool_rest_def)
  have ic: "i < length (cp_items p)" "cp_connections p ?c = Some i" "?c < length (cp_conns p)" using queue_item [OF rest(1) i] by auto
  define h where "h = heap_Remove (item_key p) (nat (cp_index p i)) (cp_heap p)"
  define lost where "lost = pc_sessions (item_at p i)"
  have ok: "min_ok (item_key p) (cp_heap p)" using inv by (simp add: pool_inv_def queue_ok_def)
  have hq: "min_ok (item_key p) h" "set (fst h) = set (cp_queue p) - {i}"
    using conn_queue.remove_ok [OF ok, of i] i by (simp_all add: h_def)
  have lost: "k \<in> lost \<longleftrightarrow> cp_routes p k = Some i" for k
    using rest(2) i unfolding routes_ok_def lost_def by blast
  have lost': "{k \<in> pc_sessions (item_at p i). cp_routes p k = Some i} = lost" using lost by (auto simp: lost_def)
  have fl: "finite lost" using sessions_finite [OF rest(2) i] by (simp add: lost_def)
  have key1: "item_key (p\<lparr>cp_connections := m\<rparr>) = item_key p" for m by (simp add: item_key_def fun_eq_iff)
  have pos: "cp_index p i \<ge> 0" using conn_queue.ok_position [OF ok, of i] i by simp
  have q: "?q = upd_item i (\<lambda>item. item\<lparr>pc_sessions := {}\<rparr>) ((upd_item i (\<lambda>item. item\<lparr>pc_state := ConnectionClosed\<rparr>)
      (gauge_down (pc_state (item_at p i)) (p\<lparr>cp_connections := (cp_connections p)(?c := None), cp_queue := fst h, cp_index := snd h\<rparr>)))
      \<lparr>cp_routes := (\<lambda>k. if k \<in> lost then None else cp_routes p k), cp_mRouted := cp_mRouted p - int (card lost),
       cp_bconn := map (\<lambda>b. if \<exists>k\<in>lost. cp_bindings p k = Some b then None else cp_bconn p ! b) [0..<length (cp_bconn p)]\<rparr>)"
    unfolding removeLocked_def Let_def recordConnectionRemovalLocked_def set_heap_def upd_item_def
    using ic pos by (simp add: key1 h_def [symmetric] lost' cong: if_cong)
  have it: "item_at ?q j = (if j = i then (item_at p i)\<lparr>pc_state := ConnectionClosed, pc_sessions := {}\<rparr> else item_at p j)" for j
    using ic(1) by (auto simp: q upd_item_def)
  have f: "cp_queue ?q = fst h" "cp_index ?q = snd h" "cp_connections ?q = (cp_connections p)(?c := None)"
    "cp_routes ?q = (\<lambda>k. if k \<in> lost then None else cp_routes p k)" "cp_mRouted ?q = cp_mRouted p - int (card lost)"
    "length (cp_bconn ?q) = length (cp_bconn p)" "length (cp_items ?q) = length (cp_items p)"
    "cp_mPending ?q = cp_mPending p" "cp_pendingDials ?q = cp_pendingDials p" "cp_maxConns ?q = cp_maxConns p"
    "cp_mActive ?q = cp_mActive p - (if pc_state (item_at p i) = ConnectionActive then 1 else 0)"
    "cp_mConnecting ?q = cp_mConnecting p - (if pc_state (item_at p i) = ConnectionConnecting then 1 else 0)"
    by (simp_all add: q upd_item_def)
  have bc: "cp_bconn ?q ! b = (if \<exists>k\<in>lost. cp_bindings p k = Some b then None else cp_bconn p ! b)" if "b < length (cp_bconn p)" for b
    using that by (simp add: q upd_item_def)
  note g = f remove_frame
  have sub: "dom (cp_routes ?q) \<subseteq> dom (cp_routes p)" by (auto simp: g split: if_splits)
  have conn: "pc_conn (item_at p j) \<noteq> ?c" if "j \<in> set (cp_queue p)" "j \<noteq> i" for j
    using queue_item [OF rest(1) that(1)] ic(2) that(2) by auto
  have inj: "c = ?c" if "cp_connections p c = Some i" for c using rest(1) that unfolding items_ok_def by blast
  have "ran ((cp_connections p)(?c := None)) = ran (cp_connections p) - {i}"
  proof (intro set_eqI iffI)
    fix j assume "j \<in> ran ((cp_connections p)(?c := None))"
    then obtain c where "c \<noteq> ?c" "cp_connections p c = Some j" by (auto simp: ran_def split: if_splits)
    then show "j \<in> ran (cp_connections p) - {i}" using inj by (auto intro: ranI)
  next
    fix j assume "j \<in> ran (cp_connections p) - {i}"
    then obtain c where "j \<noteq> i" "cp_connections p c = Some j" by (auto simp: ran_def)
    then show "j \<in> ran ((cp_connections p)(?c := None))" using ic(2) by (intro ranI [of _ c]) auto
  qed
  then have "items_ok ?q" using rest(1) hq(2) by (auto simp: items_ok_def g it)
  moreover have "routes_ok ?q"
  proof -
    have "cp_routes ?q k = Some j \<longleftrightarrow> j \<in> set (cp_queue ?q) \<and> k \<in> pc_sessions (item_at ?q j)" for k j
    proof -
      have "cp_routes p k = Some j \<longleftrightarrow> j \<in> set (cp_queue p) \<and> k \<in> pc_sessions (item_at p j)"
        using rest(2) unfolding routes_ok_def by blast
      then show ?thesis using hq(2) lost by (cases "j = i") (auto simp: g it)
    qed
    moreover have "finite (dom (cp_routes ?q))"
      using rest(2) finite_subset [OF sub] by (simp add: routes_ok_def)
    moreover have "pc_load (item_at ?q j) = int (card (pc_sessions (item_at ?q j))) \<and> pc_load (item_at ?q j) \<le> cp_maxSessions p"
      if "j \<in> set (cp_queue ?q)" for j
      using rest(2) that hq(2) by (auto simp: g it routes_ok_def)
    ultimately show ?thesis unfolding routes_ok_def g(17) by blast
  qed
  moreover have "bindings_ok ?q"
  proof -
    have "cp_bconn ?q ! b = map_option (\<lambda>i. pc_conn (item_at ?q i)) (cp_routes ?q k)" "b < length (cp_bconn p)"
      if k: "cp_bindings p k = Some b" for k b
    proof -
      have b: "b < length (cp_bconn p)" "cp_bconn p ! b = map_option (\<lambda>i. pc_conn (item_at p i)) (cp_routes p k)"
        using rest(3) k by (auto simp: bindings_ok_def)
      have "(\<exists>k'\<in>lost. cp_bindings p k' = Some b) \<longleftrightarrow> k \<in> lost"
        using rest(3) k unfolding bindings_ok_def by (metis domI inj_onD)
      then show "cp_bconn ?q ! b = map_option (\<lambda>i. pc_conn (item_at ?q i)) (cp_routes ?q k)"
        using b lost by (auto simp: bc g it option.map_comp intro: option.map_cong0)
      show "b < length (cp_bconn p)" by (rule b)
    qed
    moreover have "dom (cp_routes ?q) \<subseteq> dom (cp_bindings p)" using rest(3) sub unfolding bindings_ok_def by blast
    ultimately show ?thesis using rest(3) by (simp add: bindings_ok_def g)
  qed
  moreover have "gauges_ok ?q"
  proof -
    have "in_state X ?q = in_state X p - {i}" for X using hq(2) by (auto simp: in_state_def g it)
    moreover have "finite (in_state X p)" for X by (simp add: in_state_def)
    ultimately have cs: "int (card (in_state X ?q)) = int (card (in_state X p)) - (if pc_state (item_at p i) = X then 1 else 0)" for X
      using i card_gt_0_iff [of "in_state X p"] by (auto simp: in_state_def)
    have "dom (cp_routes p) = dom (cp_routes ?q) \<union> lost" "dom (cp_routes ?q) \<inter> lost = {}"
      using lost by (auto simp: g split: if_splits)
    moreover have "finite (dom (cp_routes ?q))" using rest(2) calculation by (auto simp: routes_ok_def)
    ultimately have "card (dom (cp_routes p)) = card (dom (cp_routes ?q)) + card lost" using fl card_Un_disjoint by metis
    then show ?thesis using rest(4) by (simp add: gauges_ok_def cs) (simp add: g)
  qed
  moreover have "dials_ok ?q"
  proof -
    have "card (dom (cp_connections ?q)) \<le> card (dom (cp_connections p))"
      using rest(1) by (auto simp: items_ok_def g intro: card_mono)
    then show ?thesis using rest(5) by (auto simp: dials_ok_def g)
  qed
  ultimately have "pool_rest ?q" by (simp add: pool_rest_def)
  moreover have "prio_ok ?q" using inv hq(2) by (auto simp: pool_inv_def prio_ok_def g it split: if_splits)
  moreover have "queue_ok ?q"
  proof -
    have "item_key ?q j = item_key p j" if "j \<in> set (fst h)" for j using that hq(2) by (simp add: item_key_def it)
    then have "min_ok (item_key ?q) h" by (rule conn_queue.ok_cong [OF hq(1)])
    then show ?thesis by (simp add: queue_ok_def g)
  qed
  ultimately have "pool_inv ?q" by (simp add: pool_inv_def)
  moreover have "cp_routes ?q = (\<lambda>k. if cp_routes p k = Some i then None else cp_routes p k)" by (auto simp: g lost fun_eq_iff)
  ultimately show ?thesis using hq(2) by (simp add: g(1,3) it)
qed

section \<open>Every operation keeps the pool well formed\<close>

definition pool_good :: "ConnectionPool \<Rightarrow> bool" where
  "pool_good p \<longleftrightarrow> pool_inv p \<and> waiting_ok p"

lemma pending_change:
  assumes "pool_good p" "0 \<le> n" "n \<le> max 1 (cp_minConns p)"
    "0 < cp_maxConns p \<longrightarrow> int (card (dom (cp_connections p))) + n \<le> max (cp_minConns p) (cp_maxConns p)"
  shows "pool_good (p\<lparr>cp_pendingDials := n, cp_mPending := n\<rparr>)"
proof -
  let ?q = "p\<lparr>cp_pendingDials := n, cp_mPending := n\<rparr>"
  have inv: "pool_inv p" using assms(1) by (simp add: pool_good_def)
  have same: "items_ok ?q = items_ok p" "routes_ok ?q = routes_ok p" "bindings_ok ?q = bindings_ok p"
    by (simp_all add: items_ok_def routes_ok_def bindings_ok_def)
  have "in_state st ?q = in_state st p" for st by (simp add: in_state_def)
  then have "pool_rest ?q"
    using assms same unfolding pool_good_def pool_inv_def pool_rest_def gauges_ok_def dials_ok_def by simp
  then have "pool_inv ?q" by (rule other_fields_ok [OF inv]) simp_all
  then show ?thesis using assms(1) by (simp add: pool_good_def waiting_ok_def selectLocked_def cong: list.case_cong)
qed

lemma reserve_dial_ok:
  assumes "pool_good p" "reserveDialLocked p = (q, s)"
  shows "pool_good q \<and> cp_pendingDials q = cp_pendingDials p + (if s then 1 else 0) \<and> cp_routes q = cp_routes p \<and> cp_items q = cp_items p"
proof (cases s)
  case True
  then have c: "cp_pendingDials p \<le> 0" "q = p\<lparr>cp_pendingDials := cp_pendingDials p + 1, cp_mPending := cp_mPending p + 1\<rparr>"
      "0 < cp_maxConns p \<longrightarrow> int (card (dom (cp_connections p))) + cp_pendingDials p < cp_maxConns p"
    using assms(2) by (auto simp: reserveDialLocked_def split: if_splits)
  moreover have "0 \<le> cp_pendingDials p" "cp_mPending p = cp_pendingDials p"
    using assms(1) by (simp_all add: pool_good_def pool_inv_def pool_rest_def dials_ok_def gauges_ok_def)
  ultimately show ?thesis using pending_change [OF assms(1), of "cp_pendingDials p + 1"] True by auto
next
  case False
  then show ?thesis using assms by (auto simp: reserveDialLocked_def split: if_splits)
qed

lemma reserve_scale_ok:
  assumes "pool_good p" "reserveScaleLocked p = (q, s)"
  shows "pool_good q \<and> cp_pendingDials q = cp_pendingDials p + (if s then 1 else 0) \<and> cp_routes q = cp_routes p \<and> cp_items q = cp_items p"
  using assms reserve_dial_ok [OF assms(1)] unfolding reserveScaleLocked_def by (auto split: if_splits option.splits)

lemma new_binding_ok:
  assumes "pool_inv p" "cp_bindings p key = None"
  shows "pool_inv (new_binding key None p) \<and> cp_routes p key = None"
proof -
  let ?q = "new_binding key None p"
  have rest: "items_ok p" "routes_ok p" "bindings_ok p" "gauges_ok p" "dials_ok p" using assms(1) by (simp_all add: pool_inv_def pool_rest_def)
  have r: "cp_routes p key = None" using rest(3) assms(2) unfolding bindings_ok_def by (metis domIff subsetD)
  have lt: "b < length (cp_bconn p)" if "cp_bindings p k = Some b" for k b using rest(3) that by (auto simp: bindings_ok_def)
  have "inj_on (cp_bindings ?q) (dom (cp_bindings ?q))"
    using rest(3) lt by (auto simp: new_binding_def bindings_ok_def inj_on_def) blast+
  then have "bindings_ok ?q"
    using rest(3) lt r by (auto simp: new_binding_def bindings_ok_def nth_append less_SucI)
  moreover have "in_state st ?q = in_state st p" for st by (simp add: in_state_def new_binding_def)
  then have "gauges_ok ?q" using rest(4) by (simp add: gauges_ok_def) (simp add: new_binding_def)
  moreover have "items_ok ?q = items_ok p" "routes_ok ?q = routes_ok p" "dials_ok ?q = dials_ok p"
    by (simp_all add: items_ok_def routes_ok_def dials_ok_def new_binding_def)
  then have "items_ok ?q" "routes_ok ?q" "dials_ok ?q" using rest by simp_all
  ultimately have "pool_rest ?q" by (simp add: pool_rest_def)
  then have "pool_inv ?q" by (rule other_fields_ok [OF assms(1)]) (simp_all add: new_binding_def)
  then show ?thesis using r by simp
qed

lemma attach_new_binding:
  "attachLocked key (length (cp_bconn p)) i (new_binding key x p) = attachLocked key (length (cp_bconn p)) i (new_binding key None p)"
proof -
  have "(new_binding key x p)\<lparr>cp_bconn := z\<rparr> = (new_binding key None p)\<lparr>cp_bconn := z\<rparr>" for z by (simp add: new_binding_def)
  then show ?thesis by (simp add: attachLocked_def upd_item_def new_binding_def)
qed

text \<open>Binding a new session to the selected item leaves nobody waiting.\<close>

lemma bind_new_ok:
  assumes good: "pool_good p" and new: "cp_bindings p key = None" and sel: "selectLocked p = Some i"
  shows "pool_good (attachLocked key (length (cp_bconn p)) i (new_binding key None p)) \<and> cp_routes p key = None"
proof -
  let ?q = "new_binding key None p"
  have inv: "pool_inv ?q" "cp_routes p key = None" using new_binding_ok new good by (simp_all add: pool_good_def)
  have q: "queue_ok p" using good by (simp add: pool_good_def pool_inv_def)
  have "pc_load (item_at p i) < cp_maxSessions p"
    using good select_Some(1,2) [OF q sel] by (auto simp: pool_good_def pool_inv_def prio_ok_def split: if_splits)
  then have "pool_inv (attachLocked key (length (cp_bconn p)) i ?q)"
    using attach_ok [OF inv(1), of i key "length (cp_bconn p)"] select_Some(1) [OF q sel] inv(2) by (simp add: new_binding_def)
  moreover have "dom (cp_bindings p) = dom (cp_routes p)" using good sel by (simp add: pool_good_def waiting_ok_def)
  ultimately show ?thesis using inv(2) by (simp add: pool_good_def waiting_ok_def new_binding_def)
qed

lemma select_new_binding [simp]: "selectLocked (new_binding key x p) = selectLocked p"
  by (simp add: selectLocked_def new_binding_def cong: list.case_cong)

lemma pending_new_binding [simp]: "cp_pendingDials (new_binding key x p) = cp_pendingDials p"
  by (simp add: new_binding_def)

lemma bind_ok:
  assumes good: "pool_good p" and b: "Pool_Bind key p = (q, b, s)"
  shows "pool_good q \<and> cp_pendingDials q = cp_pendingDials p + (if s then 1 else 0)"
proof (cases "cp_bindings p key")
  case (Some b')
  then show ?thesis using assms by (auto simp: Pool_Bind_def)
next
  case None
  show ?thesis
  proof (cases "selectLocked p")
    case sel: (Some i)
    define p2 where "p2 = attachLocked key (length (cp_bconn p)) i (new_binding key None p)"
    have g: "pool_good p2" "cp_pendingDials p2 = cp_pendingDials p"
      using bind_new_ok [OF good None sel] by (simp_all add: p2_def)
    then show ?thesis
      using b None sel reserve_scale_ok [OF g(1)] by (auto simp: Pool_Bind_def p2_def [symmetric] Let_def split: if_splits prod.splits)
  next
    case sel: None
    let ?q = "new_binding key None p"
    have "pool_good ?q"
      using new_binding_ok [of p key] None good sel by (simp add: pool_good_def waiting_ok_def)
    then show ?thesis
      using b None sel reserve_dial_ok [of ?q] by (auto simp: Pool_Bind_def Let_def split: prod.splits)
  qed
qed

lemma try_bind_ok:
  assumes good: "pool_good p" and b: "TryBind key p = (q, r, s)"
  shows "pool_good q \<and> cp_pendingDials q = cp_pendingDials p + (if s then 1 else 0)"
proof (cases "cp_bindings p key")
  case (Some b')
  then show ?thesis using assms by (auto simp: TryBind_def)
next
  case None
  show ?thesis
  proof (cases "selectLocked p")
    case sel: (Some i)
    define p2 where "p2 = attachLocked key (length (cp_bconn p)) i (new_binding key None p)"
    have g: "pool_good p2" "cp_pendingDials p2 = cp_pendingDials p"
      using bind_new_ok [OF good None sel] by (simp_all add: p2_def)
    then show ?thesis
      using b None sel good reserve_scale_ok [OF g(1)]
      by (auto simp: TryBind_def attach_new_binding [of key p i "Some (pc_conn (item_at p i))"] p2_def [symmetric] Let_def split: if_splits prod.splits)
  next
    case sel: None
    then show ?thesis using b None reserve_dial_ok [OF good] by (auto simp: TryBind_def split: prod.splits)
  qed
qed

text \<open>A session leaves its item.\<close>

lemma detach_ok:
  assumes inv: "pool_inv p" and r: "cp_routes p key = Some i"
    and q: "q = (upd_item i (\<lambda>item. item\<lparr>pc_sessions := pc_sessions item - {key}, pc_load := pc_load item - 1\<rparr>) p)
        \<lparr>cp_bindings := (cp_bindings p)(key := None), cp_routes := (cp_routes p)(key := None), cp_mRouted := cp_mRouted p - 1\<rparr>"
  shows "pool_inv (refreshLocked i q) \<and> 0 < pc_load (item_at p i)"
proof -
  have rest: "items_ok p" "routes_ok p" "bindings_ok p" "gauges_ok p" "dials_ok p" using inv by (simp_all add: pool_inv_def pool_rest_def)
  have i: "i \<in> set (cp_queue p)" "key \<in> pc_sessions (item_at p i)" using route_queue [OF rest(2) r] by simp_all
  have il: "i < length (cp_items p)" using queue_item [OF rest(1) i(1)] by simp
  have it: "item_at q j = (if j = i then (item_at p i)\<lparr>pc_sessions := pc_sessions (item_at p i) - {key}, pc_load := pc_load (item_at p i) - 1\<rparr>
      else item_at p j)" for j
    using il by (auto simp: q upd_item_def)
  have f: "cp_queue q = cp_queue p" "cp_index q = cp_index p" "cp_routes q = (cp_routes p)(key := None)" "cp_bindings q = (cp_bindings p)(key := None)"
    "cp_connections q = cp_connections p" "cp_conns q = cp_conns p" "length (cp_items q) = length (cp_items p)"
    "cp_bconn q = cp_bconn p" "cp_maxSessions q = cp_maxSessions p" "cp_mRouted q = cp_mRouted p - 1"
    "cp_mActive q = cp_mActive p" "cp_mConnecting q = cp_mConnecting p" "cp_mPending q = cp_mPending p" "cp_pendingDials q = cp_pendingDials p"
    "cp_minConns q = cp_minConns p" "cp_maxConns q = cp_maxConns p" "cp_closed q = cp_closed p"
    by (simp_all add: q upd_item_def)
  have conn: "pc_conn (item_at q j) = pc_conn (item_at p j)" "pc_state (item_at q j) = pc_state (item_at p j)" for j by (simp_all add: it)
  have fin: "finite (pc_sessions (item_at p i))" by (rule sessions_finite [OF rest(2) i(1)])
  have load: "pc_load (item_at p i) = int (card (pc_sessions (item_at p i)))" "pc_load (item_at p i) \<le> cp_maxSessions p"
    using rest(2) i(1) by (auto simp: routes_ok_def)
  have pos: "0 < card (pc_sessions (item_at p i))" using fin i(2) card_gt_0_iff by blast
  have iff: "cp_routes p k = Some j \<longleftrightarrow> j \<in> set (cp_queue p) \<and> k \<in> pc_sessions (item_at p j)" for k j
    using rest(2) unfolding routes_ok_def by blast
  have only: "key \<in> pc_sessions (item_at p j) \<Longrightarrow> j \<in> set (cp_queue p) \<Longrightarrow> j = i" for j using iff [of key j] r by simp
  have "items_ok q" using rest(1) conn by (simp add: items_ok_def f)
  moreover have "routes_ok q"
  proof -
    have "cp_routes q k = Some j \<longleftrightarrow> j \<in> set (cp_queue p) \<and> k \<in> pc_sessions (item_at q j)" for k j
      using iff [of k j] only [of j] by (cases "k = key") (auto simp: f(3) it)
    moreover have "finite (dom (cp_routes q))" using rest(2) by (simp add: routes_ok_def f(3))
    moreover have "pc_load (item_at q j) = int (card (pc_sessions (item_at q j))) \<and> pc_load (item_at q j) \<le> cp_maxSessions p"
      if j: "j \<in> set (cp_queue p)" for j
      using rest(2) j load fin i(2) pos by (auto simp: it routes_ok_def)
    ultimately show ?thesis unfolding routes_ok_def f(1,9) by blast
  qed
  moreover have "bindings_ok q"
  proof -
    have "inj_on (cp_bindings q) (dom (cp_bindings q))" using rest(3) by (auto simp: bindings_ok_def f inj_on_def)
    moreover have "dom (cp_routes q) \<subseteq> dom (cp_bindings q)" using rest(3) unfolding bindings_ok_def f by auto
    ultimately show ?thesis using rest(3) by (auto simp: bindings_ok_def f conn)
  qed
  moreover have "gauges_ok q"
  proof -
    have fd: "finite (dom (cp_routes p))" "key \<in> dom (cp_routes p)" using rest(2) r by (auto simp: routes_ok_def)
    then have "0 < card (dom (cp_routes p))" using card_gt_0_iff by blast
    then have "int (card (dom (cp_routes q))) = int (card (dom (cp_routes p))) - 1" using fd by (simp add: f)
    then show ?thesis using rest(4) by (simp add: gauges_ok_def in_state_def f(1,10-14) conn)
  qed
  moreover have "dials_ok q" using rest(5) by (simp add: dials_ok_def f)
  ultimately have rq: "pool_rest q" by (simp add: pool_rest_def)
  have key: "item_key q j = item_key p j" if "j \<noteq> i" for j using that by (simp add: item_key_def it)
  have "pool_inv (refreshLocked i q)"
    by (rule refresh_ok [OF rq, where old_key = "item_key p"]) (use i(1) inv key in \<open>auto simp: f pool_inv_def prio_ok_def queue_ok_def it\<close>)
  then show ?thesis using load(1) pos by simp
qed

lemma unbind_ok:
  assumes good: "pool_good p" and ord: "dom (cp_bindings p) - {key} \<subseteq> set order"
  shows "pool_good (Unbind now order key p) \<and> cp_pendingDials (Unbind now order key p) = cp_pendingDials p"
proof (cases "cp_routes p key")
  case None
  let ?q = "p\<lparr>cp_bindings := (cp_bindings p)(key := None)\<rparr>"
  have rest: "items_ok p" "routes_ok p" "bindings_ok p" "gauges_ok p" "dials_ok p" "pool_inv p"
    using good by (simp_all add: pool_good_def pool_inv_def pool_rest_def)
  have "inj_on (cp_bindings ?q) (dom (cp_bindings ?q))" using rest(3) by (auto simp: bindings_ok_def inj_on_def)
  moreover have "dom (cp_routes ?q) \<subseteq> dom (cp_bindings ?q)" using rest(3) None by (auto simp: bindings_ok_def)
  ultimately have "bindings_ok ?q" using rest(3) by (auto simp: bindings_ok_def)
  moreover have "items_ok ?q = items_ok p" "routes_ok ?q = routes_ok p" "gauges_ok ?q = gauges_ok p" "dials_ok ?q = dials_ok p"
    by (simp_all add: items_ok_def routes_ok_def gauges_ok_def dials_ok_def in_state_def)
  ultimately have "pool_rest ?q" using rest by (simp add: pool_rest_def)
  then have "pool_inv ?q" by (rule other_fields_ok [OF rest(6)]) simp_all
  moreover have "selectLocked ?q = selectLocked p" by (simp add: selectLocked_def cong: list.case_cong)
  then have "waiting_ok ?q" using good None by (auto simp: pool_good_def waiting_ok_def)
  ultimately show ?thesis using None by (simp add: Unbind_def pool_good_def)
next
  case (Some i)
  define q where "q = (upd_item i (\<lambda>item. item\<lparr>pc_sessions := pc_sessions item - {key}, pc_load := pc_load item - 1\<rparr>) p)
        \<lparr>cp_bindings := (cp_bindings p)(key := None), cp_routes := (cp_routes p)(key := None), cp_mRouted := cp_mRouted p - 1\<rparr>"
  define p3 where "p3 = (if pc_load (item_at (refreshLocked i q) i) = 0
      then upd_item i (\<lambda>item. item\<lparr>pc_idleSince := Some now\<rparr>) (refreshLocked i q) else refreshLocked i q)"
  have inv: "pool_inv p" using good by (simp add: pool_good_def)
  have q: "pool_inv (refreshLocked i q)" "0 < pc_load (item_at p i)" using detach_ok [OF inv Some q_def] by simp_all
  have il: "i < length (cp_items p)"
    using inv Some queue_item [of p i] route_queue [of p key i] by (simp add: pool_inv_def pool_rest_def)
  have p3: "pool_inv p3"
  proof (cases "pc_load (item_at (refreshLocked i q) i) = 0")
    case True
    let ?r = "upd_item i (\<lambda>item. item\<lparr>pc_idleSince := Some now\<rparr>) (refreshLocked i q)"
    have it: "item_at ?r j = (if j = i then (item_at (refreshLocked i q) i)\<lparr>pc_idleSince := Some now\<rparr> else item_at (refreshLocked i q) j)" for j
      using il by (auto simp: upd_item_def q_def)
    have "pool_rest (refreshLocked i q)" using q(1) by (simp add: pool_inv_def)
    then have "pool_rest ?r" by (rule pool_rest_cong) (simp_all add: it, simp_all add: upd_item_def)
    then have "pool_inv ?r" by (rule other_fields_ok [OF q(1)]) (simp_all add: it, simp_all add: upd_item_def)
    then show ?thesis using True by (simp add: p3_def)
  qed (use q(1) in \<open>simp add: p3_def\<close>)
  have u: "Unbind now order key p = assignPendingLocked order p3"
  proof -
    have "upd_item i (\<lambda>item. item\<lparr>pc_load := pc_load item - 1\<rparr>)
        (upd_item i (\<lambda>item. item\<lparr>pc_sessions := pc_sessions item - {key}\<rparr>) (p\<lparr>cp_bindings := (cp_bindings p)(key := None), cp_routes := (cp_routes p)(key := None)\<rparr>))
        \<lparr>cp_mRouted := cp_mRouted p - 1\<rparr> = q"
      using il by (simp add: q_def upd_item_def)
    then show ?thesis using Some q(2) il by (simp add: Unbind_def Let_def p3_def) (simp add: upd_item_def)
  qed
  have b: "cp_bindings p3 = (cp_bindings p)(key := None)" "cp_pendingDials p3 = cp_pendingDials p"
    by (simp_all add: p3_def upd_item_def q_def)
  have "dom (cp_bindings p3) \<subseteq> set order \<union> dom (cp_routes p3)" using ord by (auto simp: b)
  then show ?thesis using assign_ok [OF p3, of order] b by (simp add: u pool_good_def)
qed

text \<open>A new connection joins the pool with no sessions.\<close>

lemma add_item_ok:
  assumes inv: "pool_inv p" and open_: "\<not> cp_closed p"
    and room: "0 < cp_maxConns p \<longrightarrow> int (card (dom (cp_connections p))) + cp_pendingDials p < max (cp_minConns p) (cp_maxConns p)"
    and q: "q = (gauge_up ConnectionConnecting p)\<lparr>cp_conns := cp_conns p @ [ConnectionConnecting], cp_nextID := n,
        cp_items := cp_items p @ [\<lparr>pc_id = n, pc_conn = length (cp_conns p), pc_state = ConnectionConnecting, pc_load = 0,
          pc_priority = PriorityConnecting, pc_idleSince = None, pc_sessions = {}\<rparr>],
        cp_connections := (cp_connections p)(length (cp_conns p) \<mapsto> length (cp_items p))\<rparr>"
  shows "pool_inv (set_heap (heap_Push (item_key q) (length (cp_items p)) (cp_heap q)) q)"
proof -
  let ?i = "length (cp_items p)" and ?c = "length (cp_conns p)"
  define h where "h = heap_Push (item_key q) ?i (cp_heap q)"
  define r where "r = set_heap h q"
  have rest: "items_ok p" "routes_ok p" "bindings_ok p" "gauges_ok p" "dials_ok p" using inv by (simp_all add: pool_inv_def pool_rest_def)
  have old: "j < ?i" "pc_conn (item_at p j) < ?c" if "j \<in> set (cp_queue p)" for j using queue_item [OF rest(1) that] by simp_all
  have it: "item_at q j = item_at p j" if "j \<in> set (cp_queue p)" for j using old(1) [OF that] by (simp add: q nth_append)
  have new: "item_at q ?i = \<lparr>pc_id = n, pc_conn = ?c, pc_state = ConnectionConnecting, pc_load = 0,
      pc_priority = PriorityConnecting, pc_idleSince = None, pc_sessions = {}\<rparr>" by (simp add: q)
  have fresh: "?i \<notin> set (cp_queue p)" using old(1) by blast
  have cfresh: "cp_connections p ?c = None" using rest(1) unfolding items_ok_def by (metis less_irrefl option.exhaust)
  have qq: "cp_queue q = cp_queue p" "cp_index q = cp_index p" by (simp_all add: q)
  have "min_ok (item_key q) (cp_heap p)"
  proof (rule conn_queue.ok_cong [of "item_key p"])
    show "min_ok (item_key p) (cp_heap p)" using inv by (simp add: pool_inv_def queue_ok_def)
  qed (simp add: item_key_def it)
  then have hq: "min_ok (item_key q) h" "set (fst h) = insert ?i (set (cp_queue p))"
    using conn_queue.push_ok [of "item_key q" "cp_heap q" ?i] fresh by (simp_all add: h_def qq)
  have f: "cp_queue r = fst h" "cp_index r = snd h" "cp_items r = cp_items q" "cp_routes r = cp_routes p" "cp_bindings r = cp_bindings p"
    "cp_connections r = (cp_connections p)(?c \<mapsto> ?i)" "cp_conns r = cp_conns p @ [ConnectionConnecting]" "length (cp_items q) = Suc ?i"
    "cp_bconn r = cp_bconn p" "cp_maxSessions r = cp_maxSessions p" "cp_mRouted r = cp_mRouted p" "cp_mActive r = cp_mActive p"
    "cp_mConnecting r = cp_mConnecting p + 1" "cp_mPending r = cp_mPending p" "cp_pendingDials r = cp_pendingDials p"
    "cp_minConns r = cp_minConns p" "cp_maxConns r = cp_maxConns p" "cp_closed r = cp_closed p"
    by (simp_all add: r_def set_heap_def q)
  have "items_ok r"
  proof -
    have "ran (cp_connections r) = insert ?i (ran (cp_connections p))" using cfresh by (simp add: f ran_map_upd)
    moreover have "i < Suc ?i \<and> pc_conn (item_at q i) = c \<and> c < Suc ?c" if "((cp_connections p)(?c \<mapsto> ?i)) c = Some i" for c i
    proof (cases "c = ?c")
      case True
      then show ?thesis using that new by simp
    next
      case False
      then have m: "cp_connections p c = Some i" using that by simp
      then have "i < ?i \<and> pc_conn (item_at p i) = c \<and> c < ?c" "i \<in> set (cp_queue p)"
        using rest(1) unfolding items_ok_def by (auto intro: ranI)
      then show ?thesis using it by auto
    qed
    ultimately show ?thesis using rest(1) hq(2) by (simp add: items_ok_def f)
  qed
  moreover have "routes_ok r"
  proof -
    have "cp_routes r k = Some j \<longleftrightarrow> j \<in> set (cp_queue r) \<and> k \<in> pc_sessions (item_at r j)" for k j
    proof -
      have "cp_routes p k = Some j \<longleftrightarrow> j \<in> set (cp_queue p) \<and> k \<in> pc_sessions (item_at p j)"
        using rest(2) unfolding routes_ok_def by blast
      then show ?thesis using it [of j] new fresh hq(2) by (cases "j = ?i") (auto simp: f)
    qed
    moreover have "pc_load (item_at r j) = int (card (pc_sessions (item_at r j))) \<and> pc_load (item_at r j) \<le> cp_maxSessions p"
      if "j \<in> set (cp_queue r)" for j
      using that hq(2) rest(2,5) it [of j] new by (cases "j = ?i") (auto simp: f routes_ok_def dials_ok_def)
    ultimately show ?thesis using rest(2) unfolding routes_ok_def f(4,10) by blast
  qed
  moreover have "bindings_ok r"
  proof -
    have "map_option (\<lambda>i. pc_conn (item_at r i)) (cp_routes p k) = map_option (\<lambda>i. pc_conn (item_at p i)) (cp_routes p k)" for k
    proof (cases "cp_routes p k")
      case (Some i)
      then show ?thesis using it route_queue [OF rest(2) Some] by (simp add: f)
    qed simp
    then show ?thesis using rest(3) by (simp add: bindings_ok_def f(4,5,9))
  qed
  moreover have "gauges_ok r"
  proof -
    have "in_state X r = (if X = ConnectionConnecting then insert ?i (in_state X p) else in_state X p)" for X
      using it new fresh hq(2) by (auto simp: in_state_def f)
    moreover have "?i \<notin> in_state X p" "finite (in_state X p)" for X using fresh by (simp_all add: in_state_def)
    ultimately show ?thesis using rest(4) by (simp add: gauges_ok_def f)
  qed
  moreover have "dials_ok r"
    using rest(1,5) room open_ cfresh by (simp add: dials_ok_def f items_ok_def domIff card_insert_if) linarith
  ultimately have "pool_rest r" by (simp add: pool_rest_def)
  moreover have "prio_ok r"
    unfolding prio_ok_def
  proof
    fix j assume "j \<in> set (cp_queue r)"
    then consider "j = ?i" | "j \<in> set (cp_queue p)" using hq(2) f(1) by auto
    then show "if pc_priority (item_at r j) = PriorityUnavailable
        then pc_load (item_at r j) \<ge> cp_maxSessions r \<or> cp_conns r ! pc_conn (item_at r j) = ConnectionClosed
        else pc_load (item_at r j) < cp_maxSessions r"
    proof cases
      case 1
      then show ?thesis using new rest(5) by (simp add: f dials_ok_def)
    next
      case 2
      then show ?thesis using inv it [OF 2] old [OF 2] by (simp add: f pool_inv_def prio_ok_def nth_append)
    qed
  qed
  moreover have "queue_ok r" using hq(1) by (simp add: queue_ok_def f item_key_def [abs_def])
  ultimately show ?thesis by (simp add: pool_inv_def r_def h_def)
qed

lemma start_dial_ok:
  assumes good: "pool_good p" and pend: "0 < cp_pendingDials p" and ord: "dom (cp_bindings p) \<subseteq> set order"
  shows "pool_good (startDial ok order p) \<and> cp_pendingDials (startDial ok order p) = cp_pendingDials p - 1"
proof -
  define p1 where "p1 = p\<lparr>cp_pendingDials := cp_pendingDials p - 1, cp_mPending := cp_mPending p - 1\<rparr>"
  have d: "dials_ok p" "gauges_ok p" using good by (simp_all add: pool_good_def pool_inv_def pool_rest_def)
  have "p1 = p\<lparr>cp_pendingDials := cp_pendingDials p - 1, cp_mPending := cp_pendingDials p - 1\<rparr>"
    using d(2) by (simp add: p1_def gauges_ok_def)
  moreover have "pool_good (p\<lparr>cp_pendingDials := cp_pendingDials p - 1, cp_mPending := cp_pendingDials p - 1\<rparr>)"
    by (rule pending_change [OF good]) (use pend d(1) in \<open>auto simp: dials_ok_def\<close>)
  ultimately have g1: "pool_good p1" by simp
  have ms: "0 < cp_maxSessions p" using d(1) by (simp add: dials_ok_def)
  show ?thesis
  proof (cases "ok \<and> \<not> cp_closed p")
    case False
    have "pool_good (p1\<lparr>cp_conns := cp_conns p1 @ [ConnectionClosed]\<rparr>)"
    proof -
      let ?q = "p1\<lparr>cp_conns := cp_conns p1 @ [ConnectionClosed]\<rparr>"
      have inv: "pool_inv p1" using g1 by (simp add: pool_good_def)
      have i1: "items_ok p1" using inv by (simp add: pool_inv_def pool_rest_def)
      have "items_ok ?q" using i1 unfolding items_ok_def by (auto simp: less_SucI)
      moreover have "routes_ok ?q = routes_ok p1" "bindings_ok ?q = bindings_ok p1" "gauges_ok ?q = gauges_ok p1" "dials_ok ?q = dials_ok p1"
        by (simp_all add: routes_ok_def bindings_ok_def gauges_ok_def dials_ok_def in_state_def)
      ultimately have "pool_rest ?q" using inv by (simp add: pool_inv_def pool_rest_def)
      moreover have "prio_ok ?q"
        unfolding prio_ok_def
      proof
        fix j assume "j \<in> set (cp_queue ?q)"
        then have j: "j \<in> set (cp_queue p1)" by simp
        show "if pc_priority (item_at ?q j) = PriorityUnavailable
            then pc_load (item_at ?q j) \<ge> cp_maxSessions ?q \<or> cp_conns ?q ! pc_conn (item_at ?q j) = ConnectionClosed
            else pc_load (item_at ?q j) < cp_maxSessions ?q"
          using inv j queue_item [OF i1 j] by (simp add: pool_inv_def prio_ok_def nth_append)
      qed
      moreover have "queue_ok ?q" using inv by (simp add: pool_inv_def queue_ok_def item_key_def [abs_def])
      moreover have "selectLocked ?q = selectLocked p1" by (simp add: selectLocked_def cong: list.case_cong)
      ultimately show ?thesis using g1 by (simp add: pool_good_def pool_inv_def waiting_ok_def)
    qed
    then show ?thesis using g1 False by (auto simp: startDial_def p1_def Let_def)
  next
    case True
    define q where "q = (gauge_up ConnectionConnecting p1)\<lparr>cp_conns := cp_conns p1 @ [ConnectionConnecting], cp_nextID := cp_nextID p1 + 1,
        cp_items := cp_items p1 @ [\<lparr>pc_id = cp_nextID p1 + 1, pc_conn = length (cp_conns p1), pc_state = ConnectionConnecting, pc_load = 0,
          pc_priority = PriorityConnecting, pc_idleSince = None, pc_sessions = {}\<rparr>],
        cp_connections := (cp_connections p1)(length (cp_conns p1) \<mapsto> length (cp_items p1))\<rparr>"
    have inv: "pool_inv (set_heap (heap_Push (item_key q) (length (cp_items p1)) (cp_heap q)) q)"
      by (rule add_item_ok [OF _ _ _ q_def]) (use g1 True d(1) in \<open>auto simp: pool_good_def p1_def dials_ok_def\<close>)
    have "startDial ok order p = assignPendingLocked order (set_heap (heap_Push (item_key q) (length (cp_items p1)) (cp_heap q)) q)"
      using True ms by (cases p) (simp add: startDial_def Let_def q_def p1_def priorityLocked_def gauge_up_def)
    then show ?thesis using assign_ok [OF inv, of order] ord by (auto simp: pool_good_def set_heap_def q_def p1_def)
  qed
qed

lemma sync_ok:
  assumes good: "pool_good p" and ord: "dom (cp_bindings p) \<subseteq> set order"
  shows "pool_good (syncConnectionState order c p) \<and> cp_pendingDials (syncConnectionState order c p) = cp_pendingDials p"
proof (cases "cp_connections p c")
  case None
  then show ?thesis using good by (simp add: syncConnectionState_def)
next
  case (Some i)
  define st where "st = cp_conns p ! c"
  define p1 where "p1 = (if pc_state (item_at p i) \<noteq> st
      then upd_item i (\<lambda>item. item\<lparr>pc_state := st\<rparr>)
        ((\<lambda>q. if pc_state (item_at p i) = ConnectionActive \<and> st = ConnectionConnecting then q\<lparr>cp_mReconnects := cp_mReconnects q + 1\<rparr> else q)
          (gauge_up st (gauge_down (pc_state (item_at p i)) p))) else p)"
  have inv: "pool_inv p" and w: "waiting_ok p" using good by (simp_all add: pool_good_def)
  have ok: "items_ok p" using inv by (simp add: pool_inv_def pool_rest_def)
  have i: "i \<in> set (cp_queue p)" "pc_conn (item_at p i) = c" "i < length (cp_items p)" "c < length (cp_conns p)"
    using ok Some unfolding items_ok_def by (auto intro: ranI)
  have it1: "item_at p1 j = (if j = i then (item_at p i)\<lparr>pc_state := st\<rparr> else item_at p j)" for j
    using i(3) by (auto simp: p1_def upd_item_def)
  have f1: "cp_queue p1 = cp_queue p" "cp_index p1 = cp_index p" "cp_conns p1 = cp_conns p" "cp_maxSessions p1 = cp_maxSessions p"
    "cp_bindings p1 = cp_bindings p" "cp_routes p1 = cp_routes p" "cp_pendingDials p1 = cp_pendingDials p" "cp_connections p1 = cp_connections p"
    by (simp_all add: p1_def upd_item_def)
  have inv1: "pool_inv p1"
  proof (cases "pc_state (item_at p i) = st")
    case True
    then show ?thesis using inv by (simp add: p1_def)
  next
    case False
    have inv2: "pool_inv (record_state i st p)" by (rule record_state_ok [OF inv i(1) False])
    have rest2: "pool_rest (record_state i st p)" using inv2 by (simp add: pool_inv_def)
    have "pool_rest p1"
      by (rule pool_rest_cong [OF rest2]) (use False in \<open>simp_all add: p1_def record_state_def upd_item_def\<close>)
    then show ?thesis
      by (rule other_fields_ok [OF inv2]) (use False in \<open>simp_all add: p1_def record_state_def upd_item_def\<close>)
  qed
  have s: "syncConnectionState order c p = (if st = ConnectionClosed then assignPendingLocked order (removeLocked i p1) else refreshLocked i p1)"
    using Some by (simp add: syncConnectionState_def Let_def st_def p1_def)
  show ?thesis
  proof (cases "st = ConnectionClosed")
    case True
    have i1: "i \<in> set (cp_queue p1)" using i(1) f1(1) by simp
    have "pool_inv (removeLocked i p1)" using pool_remove_ok [OF inv1 i1] by simp
    moreover have "cp_pendingDials (removeLocked i p1) = cp_pendingDials p"
      unfolding removeLocked_def Let_def recordConnectionRemovalLocked_def by (simp add: upd_item_def set_heap_def f1(7))
    ultimately show ?thesis
      using assign_ok [of "removeLocked i p1" order] True ord by (auto simp: s pool_good_def remove_frame f1)
  next
    case False
    have q1: "queue_ok p1" "prio_ok p1" "pool_rest p1" using inv1 by (simp_all add: pool_inv_def)
    have inv3: "pool_inv (refreshLocked i p1)"
      by (rule refresh_ok [OF q1(3), where old_key = "item_key p1"]) (use i(1) q1(1,2) in \<open>auto simp: f1(1) prio_ok_def queue_ok_def\<close>)
    have "waiting_ok (refreshLocked i p1)"
    proof (cases "selectLocked p = None")
      case True
      then have all: "\<forall>j\<in>set (cp_queue p). pc_priority (item_at p j) = PriorityUnavailable"
        using select_None inv by (simp add: pool_inv_def)
      have "cp_maxSessions p \<le> pc_load (item_at p i)"
        using all i inv False by (auto simp: pool_inv_def prio_ok_def st_def)
      then have "\<forall>j\<in>set (cp_queue p). pc_priority (item_at (refreshLocked i p1) j) = PriorityUnavailable"
        using all i(3) by (simp add: refresh_item it1 priorityLocked_def f1 p1_def upd_item_def)
      moreover have "set (cp_queue (refreshLocked i p1)) = set (cp_queue p)"
        using inv_queue [OF inv3] inv_queue [OF inv] by (simp add: f1)
      ultimately have "selectLocked (refreshLocked i p1) = None" using select_None inv3 by (simp add: pool_inv_def)
      then show ?thesis by (simp add: waiting_ok_def)
    next
      case False
      then show ?thesis using w by (simp add: waiting_ok_def f1)
    qed
    then show ?thesis using inv3 False by (simp add: s pool_good_def f1)
  qed
qed

text \<open>The callbacks of a connection: a closed connection stays closed.\<close>

lemma conn_state_ok:
  assumes good: "pool_good p" and st: "st \<noteq> ConnectionUnknown" "cp_conns p ! c = ConnectionClosed \<longrightarrow> st = ConnectionClosed"
  shows "pool_good (p\<lparr>cp_conns := (cp_conns p)[c := st]\<rparr>)"
proof -
  let ?q = "p\<lparr>cp_conns := (cp_conns p)[c := st]\<rparr>"
  have inv: "pool_inv p" using good by (simp add: pool_good_def)
  have "items_ok ?q"
    using inv st(1) set_update_subset_insert [of "cp_conns p" c st] unfolding pool_inv_def pool_rest_def items_ok_def by auto
  moreover have "routes_ok ?q = routes_ok p" "bindings_ok ?q = bindings_ok p" "gauges_ok ?q = gauges_ok p" "dials_ok ?q = dials_ok p"
    by (simp_all add: routes_ok_def bindings_ok_def gauges_ok_def dials_ok_def in_state_def)
  ultimately have "pool_rest ?q" using inv by (simp add: pool_inv_def pool_rest_def)
  moreover have "(cp_conns p)[c := st] ! x = ConnectionClosed" if "cp_conns p ! x = ConnectionClosed" for x
    using that st(2) by (cases "x = c"; cases "c < length (cp_conns p)") (auto simp: list_update_beyond)
  then have "prio_ok ?q" using inv by (auto simp: pool_inv_def prio_ok_def split: if_splits)
  moreover have "queue_ok ?q" using inv by (simp add: pool_inv_def queue_ok_def item_key_def [abs_def])
  moreover have "selectLocked ?q = selectLocked p" by (simp add: selectLocked_def cong: list.case_cong)
  ultimately show ?thesis using good by (simp add: pool_good_def pool_inv_def waiting_ok_def)
qed

lemma idle_remove_ok:
  assumes good: "pool_good p" and c: "cp_connections p c = Some i" and l: "pc_load (item_at p i) = 0"
  shows "pool_good (removeLocked i p) \<and> cp_pendingDials (removeLocked i p) = cp_pendingDials p \<and>
    cp_routes (removeLocked i p) = cp_routes p \<and> cp_connections (removeLocked i p) = (cp_connections p)(c := None)"
proof -
  have inv: "pool_inv p" and w: "waiting_ok p" using good by (simp_all add: pool_good_def)
  have rest: "items_ok p" "routes_ok p" using inv by (simp_all add: pool_inv_def pool_rest_def)
  have i: "i \<in> set (cp_queue p)" "pc_conn (item_at p i) = c" using rest(1) c unfolding items_ok_def by (auto intro: ranI)
  have "int (card (pc_sessions (item_at p i))) = 0" using rest(2) i(1) l by (auto simp: routes_ok_def)
  then have "pc_sessions (item_at p i) = {}" using sessions_finite [OF rest(2) i(1)] by simp
  then have "cp_routes p k \<noteq> Some i" for k using route_queue [OF rest(2)] by blast
  then have r: "cp_routes (removeLocked i p) = cp_routes p" using pool_remove_ok [OF inv i(1)] by (auto simp: fun_eq_iff)
  have inv': "pool_inv (removeLocked i p)" "set (cp_queue (removeLocked i p)) = set (cp_queue p) - {i}"
    "\<forall>j. j \<noteq> i \<longrightarrow> item_at (removeLocked i p) j = item_at p j" using pool_remove_ok [OF inv i(1)] by simp_all
  have "selectLocked (removeLocked i p) = None" if "selectLocked p = None"
    using that inv'(2,3) select_None [of p] select_None [of "removeLocked i p"] inv inv'(1) by (simp add: pool_inv_def)
  then have "waiting_ok (removeLocked i p)" using w r by (auto simp: waiting_ok_def remove_frame)
  moreover have "cp_pendingDials (removeLocked i p) = cp_pendingDials p"
    unfolding removeLocked_def Let_def recordConnectionRemovalLocked_def by (simp add: upd_item_def set_heap_def)
  ultimately show ?thesis using inv'(1) r pool_remove_ok [OF inv i(1)] i(2) by (simp add: pool_good_def)
qed

lemma idle_loop_ok:
  "pool_good p \<Longrightarrow> idle_loop now order p = (q, conns) \<Longrightarrow>
     pool_good q \<and> cp_pendingDials q = cp_pendingDials p \<and> cp_routes q = cp_routes p \<and> cp_bindings q = cp_bindings p \<and>
     min (int (card (dom (cp_connections p)))) (cp_minConns p) \<le> int (card (dom (cp_connections q)))"
proof (induction now order p arbitrary: q conns rule: idle_loop.induct)
  case (2 now c cs p)
  show ?case
  proof (cases "cp_connections p c")
    case None
    then show ?thesis using 2(1) [OF None] 2(4,5) by simp
  next
    case (Some i)
    show ?thesis
    proof (cases "int (card (dom (cp_connections p))) > cp_minConns p \<and> pc_load (item_at p i) = 0 \<and>
             (case pc_idleSince (item_at p i) of None \<Rightarrow> False | Some since \<Rightarrow> now - since \<ge> cp_idleTimeout p)")
      case True
      then have good: "pool_good (removeLocked i p)" "cp_pendingDials (removeLocked i p) = cp_pendingDials p"
          "cp_routes (removeLocked i p) = cp_routes p" "cp_connections (removeLocked i p) = (cp_connections p)(c := None)"
        using idle_remove_ok [OF 2(4) Some] by simp_all
      obtain conns' where l: "idle_loop now cs (removeLocked i p) = (q, conns')" using 2(5) Some True by (auto split: prod.splits)
      have "finite (dom (cp_connections p))" using 2(4) by (simp add: pool_good_def pool_inv_def pool_rest_def items_ok_def)
      then have "card (dom (cp_connections (removeLocked i p))) = card (dom (cp_connections p)) - 1" using good(4) Some by (simp add: domI)
      moreover have "min (int (card (dom (cp_connections (removeLocked i p))))) (cp_minConns p) \<le> int (card (dom (cp_connections q)))"
        using 2(2) [OF Some True good(1) l] unfolding remove_frame by blast
      ultimately have "min (int (card (dom (cp_connections p)))) (cp_minConns p) \<le> int (card (dom (cp_connections q)))"
        using True by linarith
      then show ?thesis using 2(2) [OF Some True good(1) l] good(2,3) unfolding remove_frame by simp
    next
      case False
      then have "idle_loop now cs p = (q, conns)" using 2(5) Some by (simp only: idle_loop.simps option.case if_False)
      then show ?thesis by (rule 2(3) [OF Some False 2(4)])
    qed
  qed
qed simp

lemma record_removals:
  assumes "distinct is" "\<forall>i\<in>set is. i < length (cp_items p)"
  shows "cp_mActive (fold recordConnectionRemovalLocked is p) = cp_mActive p - int (card {i \<in> set is. pc_state (item_at p i) = ConnectionActive}) \<and>
    cp_mConnecting (fold recordConnectionRemovalLocked is p) = cp_mConnecting p - int (card {i \<in> set is. pc_state (item_at p i) = ConnectionConnecting}) \<and>
    (\<exists>items a b. length items = length (cp_items p) \<and>
       fold recordConnectionRemovalLocked is p = p\<lparr>cp_items := items, cp_mActive := a, cp_mConnecting := b\<rparr>)"
  using assms
proof (induction "is" arbitrary: p)
  case Nil
  show ?case by (intro conjI exI [of _ "cp_items p"] exI [of _ "cp_mActive p"] exI [of _ "cp_mConnecting p"]) simp_all
next
  case (Cons i "is")
  define p1 where "p1 = recordConnectionRemovalLocked i p"
  have it: "item_at p1 j = (if j = i then (item_at p i)\<lparr>pc_state := ConnectionClosed\<rparr> else item_at p j)" for j
    using Cons.prems(2) by (auto simp: p1_def recordConnectionRemovalLocked_def upd_item_def)
  have f: "cp_mActive p1 = cp_mActive p - (if pc_state (item_at p i) = ConnectionActive then 1 else 0)"
    "cp_mConnecting p1 = cp_mConnecting p - (if pc_state (item_at p i) = ConnectionConnecting then 1 else 0)"
    "length (cp_items p1) = length (cp_items p)"
    by (simp_all add: p1_def recordConnectionRemovalLocked_def upd_item_def)
  have shape: "\<exists>items a b. length items = length (cp_items p) \<and> p1 = p\<lparr>cp_items := items, cp_mActive := a, cp_mConnecting := b\<rparr>"
    by (intro exI [of _ "cp_items p1"] exI [of _ "cp_mActive p1"] exI [of _ "cp_mConnecting p1"])
       (cases p, simp add: p1_def recordConnectionRemovalLocked_def upd_item_def gauge_down_def split: ConnectionState.split)
  have st: "{j \<in> set is. pc_state (item_at p1 j) = X} = {j \<in> set is. pc_state (item_at p j) = X}" for X
    using Cons.prems(1) by (auto simp: it)
  have ins: "card {j \<in> set (i # is). pc_state (item_at p j) = X} =
      card {j \<in> set is. pc_state (item_at p j) = X} + (if pc_state (item_at p i) = X then 1 else 0)" for X
  proof -
    have "{j \<in> set (i # is). pc_state (item_at p j) = X} =
        (if pc_state (item_at p i) = X then insert i {j \<in> set is. pc_state (item_at p j) = X} else {j \<in> set is. pc_state (item_at p j) = X})"
      by auto
    then show ?thesis using Cons.prems(1) by simp
  qed
  obtain items a b where e: "length items = length (cp_items p1)" "fold recordConnectionRemovalLocked is p1 = p1\<lparr>cp_items := items, cp_mActive := a, cp_mConnecting := b\<rparr>"
    and g: "cp_mActive (fold recordConnectionRemovalLocked is p1) = cp_mActive p1 - int (card {i \<in> set is. pc_state (item_at p1 i) = ConnectionActive})"
    "cp_mConnecting (fold recordConnectionRemovalLocked is p1) = cp_mConnecting p1 - int (card {i \<in> set is. pc_state (item_at p1 i) = ConnectionConnecting})"
    using Cons.IH [of p1] Cons.prems f(3) by auto
  have step: "fold recordConnectionRemovalLocked (i # is) p = fold recordConnectionRemovalLocked is p1" by (simp add: p1_def)
  have "p1\<lparr>cp_items := items, cp_mActive := a, cp_mConnecting := b\<rparr> = p\<lparr>cp_items := items, cp_mActive := a, cp_mConnecting := b\<rparr>"
    using shape by auto
  then have "\<exists>items a b. length items = length (cp_items p) \<and>
      fold recordConnectionRemovalLocked (i # is) p = p\<lparr>cp_items := items, cp_mActive := a, cp_mConnecting := b\<rparr>"
    using e f(3) unfolding step by auto
  then show ?case using g unfolding step st ins f(1,2) by simp
qed

lemma shutdown_ok:
  assumes good: "pool_good p" and ord: "distinct order" "set order = dom (cp_connections p)"
  shows "pool_good (fst (Pool_Shutdown order p)) \<and> cp_pendingDials (fst (Pool_Shutdown order p)) = cp_pendingDials p"
proof (cases "cp_closed p")
  case True
  then show ?thesis using good by (simp add: Pool_Shutdown_def)
next
  case False
  have rest: "items_ok p" "routes_ok p" "gauges_ok p" "dials_ok p" using good by (simp_all add: pool_good_def pool_inv_def pool_rest_def)
  let ?is = "List.map_filter (cp_connections p) order"
  define p1 where "p1 = p\<lparr>cp_closed := True, cp_bconn := map (\<lambda>b. if b \<in> ran (cp_bindings p) then None else cp_bconn p ! b) [0..<length (cp_bconn p)]\<rparr>"
  have m: "?is = map (\<lambda>c. the (cp_connections p c)) order"
    using ord(2) unfolding map_filter_def by (intro arg_cong2 [where f = map] filter_True) (auto simp: fun_eq_iff)
  have "inj_on (\<lambda>c. the (cp_connections p c)) (dom (cp_connections p))"
    using rest(1) unfolding items_ok_def inj_on_def by (metis domD option.sel)
  then have d: "distinct ?is" using ord by (simp add: m distinct_map)
  have "(\<lambda>c. the (cp_connections p c)) ` dom (cp_connections p) = ran (cp_connections p)" by (force simp: ran_def)
  then have s: "set ?is = set (cp_queue p)" using rest(1) ord(2) by (simp add: m items_ok_def)
  have lt: "\<forall>i\<in>set ?is. i < length (cp_items p1)" using queue_item [OF rest(1)] by (simp add: s p1_def)
  obtain items a b where e: "fold recordConnectionRemovalLocked ?is p1 = p1\<lparr>cp_items := items, cp_mActive := a, cp_mConnecting := b\<rparr>"
    and g: "cp_mActive (fold recordConnectionRemovalLocked ?is p1) = cp_mActive p1 - int (card {i \<in> set ?is. pc_state (item_at p1 i) = ConnectionActive})"
      "cp_mConnecting (fold recordConnectionRemovalLocked ?is p1) = cp_mConnecting p1 - int (card {i \<in> set ?is. pc_state (item_at p1 i) = ConnectionConnecting})"
    using record_removals [OF d lt] by blast
  have ab: "a = 0" "b = 0" using g rest(3) unfolding e by (simp_all add: s p1_def gauges_ok_def in_state_def)
  define q where "q = fst (Pool_Shutdown order p)"
  have q: "q = p1\<lparr>cp_items := items, cp_mActive := 0, cp_mConnecting := 0, cp_mRouted := 0, cp_connections := Map.empty, cp_routes := Map.empty,
      cp_bindings := Map.empty, cp_queue := []\<rparr>"
    using False e ab rest(3) by (simp add: q_def Pool_Shutdown_def Let_def p1_def gauges_ok_def cong: if_cong)
  have "pool_rest q"
    using rest(1,3,4) unfolding pool_rest_def items_ok_def routes_ok_def bindings_ok_def gauges_ok_def dials_ok_def in_state_def
    by (simp add: q p1_def) linarith
  moreover have "prio_ok q" "queue_ok q" "waiting_ok q"
    using conn_queue.ok_empty by (simp_all add: q prio_ok_def queue_ok_def waiting_ok_def)
  ultimately show ?thesis by (simp add: pool_good_def pool_inv_def q_def [symmetric]) (simp add: q p1_def)
qed

section \<open>The pool and its goroutines\<close>

text \<open>
  The state is the pool and the number of dial goroutines that have not taken their step yet. An
  entry of a schedule that cannot happen (no dial in flight, or an order that is not an enumeration
  of the map it walks) is skipped.
\<close>

datatype pool_op =
    PoBind SessionKey | PoTryBind SessionKey | PoUnbind int "SessionKey list" SessionKey
  | PoDial bool "SessionKey list" | PoOpen nat | PoDrop nat | PoClose nat | PoSync "SessionKey list" nat
  | PoCleanup int "nat list" | PoShutdown "nat list"

fun gw_step :: "pool_op \<Rightarrow> ConnectionPool \<times> nat \<Rightarrow> ConnectionPool \<times> nat" where
  "gw_step (PoBind key) (p, dials) = (case Pool_Bind key p of (q, b, s) \<Rightarrow> (q, if s then Suc dials else dials))"
| "gw_step (PoTryBind key) (p, dials) = (case TryBind key p of (q, r, s) \<Rightarrow> (q, if s then Suc dials else dials))"
| "gw_step (PoUnbind now order key) (p, dials) =
     (if set order = dom (cp_bindings p) - {key} then (Unbind now order key p, dials) else (p, dials))"
| "gw_step (PoDial ok order) (p, dials) =
     (if 0 < dials \<and> set order = dom (cp_bindings p) then (startDial ok order p, dials - 1) else (p, dials))"
| "gw_step (PoOpen c) (p, dials) = (fst (conn_OnOpen c p), dials)"
| "gw_step (PoDrop c) (p, dials) = (fst (conn_OnClose c p), dials)"
| "gw_step (PoClose c) (p, dials) = (fst (conn_Close c p), dials)"
| "gw_step (PoSync order c) (p, dials) =
     (if set order = dom (cp_bindings p) then (syncConnectionState order c p, dials) else (p, dials))"
| "gw_step (PoCleanup now order) (p, dials) = (fst (cleanupIdle now order p), dials)"
| "gw_step (PoShutdown order) (p, dials) =
     (if distinct order \<and> set order = dom (cp_connections p) then (fst (Pool_Shutdown order p), dials) else (p, dials))"

definition pool_start :: "ConnectionPoolConfig \<Rightarrow> ConnectionPool \<times> nat" where
  "pool_start cfg = startMinConnections (newConnectionPool cfg)"

definition sys_ok :: "ConnectionPool \<times> nat \<Rightarrow> bool" where
  "sys_ok s \<longleftrightarrow> pool_good (fst s) \<and> cp_pendingDials (fst s) = int (snd s)"

lemma default_config_positive:
  "0 < MinConnections (defaultConnectionPoolConfig cfg)" "0 < MaxSessionsPerConnection (defaultConnectionPoolConfig cfg)"
  "0 < TargetSessionsPerConnection (defaultConnectionPoolConfig cfg)"
  "TargetSessionsPerConnection (defaultConnectionPoolConfig cfg) \<le> MaxSessionsPerConnection (defaultConnectionPoolConfig cfg)"
  "0 < IdleTimeout (defaultConnectionPoolConfig cfg)" "0 < CleanupInterval (defaultConnectionPoolConfig cfg)"
  by (auto simp: defaultConnectionPoolConfig_def Let_def)

lemma start_loop_ok:
  "pool_good p \<Longrightarrow> cp_connections p = Map.empty \<Longrightarrow> start_loop n p = (q, k) \<Longrightarrow>
   pool_good q \<and> cp_pendingDials q = cp_pendingDials p + int k"
proof (induction n arbitrary: p q k)
  case (Suc n)
  let ?p = "p\<lparr>cp_pendingDials := cp_pendingDials p + 1, cp_mPending := cp_mPending p + 1\<rparr>"
  show ?case
  proof (cases "cp_pendingDials p < cp_minConns p")
    case True
    have m: "cp_mPending p = cp_pendingDials p" "0 \<le> cp_pendingDials p"
      using Suc.prems(1) by (simp_all add: pool_good_def pool_inv_def pool_rest_def gauges_ok_def dials_ok_def)
    have "pool_good (p\<lparr>cp_pendingDials := cp_pendingDials p + 1, cp_mPending := cp_pendingDials p + 1\<rparr>)"
      by (rule pending_change [OF Suc.prems(1)]) (use True m Suc.prems(2) in auto)
    then have g: "pool_good ?p" using m(1) by simp
    obtain q' k' where l: "start_loop n ?p = (q', k')" by (cases "start_loop n ?p")
    then have "q = q'" "k = Suc k'" using Suc.prems(2,3) True by simp_all
    then show ?thesis using Suc.IH [OF g _ l] Suc.prems(2) by simp
  next
    case False
    then show ?thesis using Suc.prems by simp
  qed
qed simp

lemma new_pool_good: "pool_good (newConnectionPool cfg)"
  using default_config_positive(1,2) [of cfg]
  by (simp add: max_def conn_queue.ok_empty pool_good_def pool_inv_def pool_rest_def items_ok_def routes_ok_def bindings_ok_def gauges_ok_def dials_ok_def
      prio_ok_def queue_ok_def waiting_ok_def in_state_def newConnectionPool_def Let_def)

lemma pool_start_ok: "sys_ok (pool_start cfg)"
proof -
  obtain q k where s: "start_loop (nat (cp_minConns (newConnectionPool cfg))) (newConnectionPool cfg) = (q, k)"
    by (cases "start_loop (nat (cp_minConns (newConnectionPool cfg))) (newConnectionPool cfg)")
  have "pool_good q \<and> cp_pendingDials q = cp_pendingDials (newConnectionPool cfg) + int k"
    by (rule start_loop_ok [OF new_pool_good _ s]) (simp add: newConnectionPool_def Let_def)
  then show ?thesis by (simp add: sys_ok_def pool_start_def startMinConnections_def s) (simp add: newConnectionPool_def Let_def)
qed

lemma gw_step_ok:
  assumes "sys_ok s"
  shows "sys_ok (gw_step op s)"
proof -
  obtain p d where s: "s = (p, d)" by (cases s)
  have good: "pool_good p" and pd: "cp_pendingDials p = int d" using assms by (simp_all add: sys_ok_def s)
  have not_unknown: "ConnectionActive \<noteq> ConnectionUnknown" "ConnectionConnecting \<noteq> ConnectionUnknown" "ConnectionClosed \<noteq> ConnectionUnknown" by simp_all
  show ?thesis
  proof (cases op)
    case (PoBind key)
    obtain q b r where "Pool_Bind key p = (q, b, r)" by (cases "Pool_Bind key p")
    then show ?thesis using bind_ok [OF good] pd PoBind by (simp add: s sys_ok_def)
  next
    case (PoTryBind key)
    obtain q b r where "TryBind key p = (q, b, r)" by (cases "TryBind key p")
    then show ?thesis using try_bind_ok [OF good] pd PoTryBind by (simp add: s sys_ok_def)
  next
    case (PoUnbind now order key)
    then show ?thesis using unbind_ok [OF good, of key order now] assms pd by (simp add: s sys_ok_def)
  next
    case (PoDial ok order)
    then show ?thesis using start_dial_ok [OF good, of order ok] assms pd by (simp add: s sys_ok_def of_nat_diff)
  next
    case (PoOpen c)
    then show ?thesis using conn_state_ok [OF good not_unknown(1), of c] assms by (simp add: s sys_ok_def conn_OnOpen_def)
  next
    case (PoDrop c)
    then show ?thesis using conn_state_ok [OF good not_unknown(2), of c] assms by (simp add: s sys_ok_def conn_OnClose_def)
  next
    case (PoClose c)
    then show ?thesis using conn_state_ok [OF good not_unknown(3), of c] assms by (simp add: s sys_ok_def conn_Close_def)
  next
    case (PoSync order c)
    then show ?thesis using sync_ok [OF good, of order c] assms pd by (simp add: s sys_ok_def)
  next
    case (PoCleanup now order)
    obtain q conns where "idle_loop now order p = (q, conns)" by (cases "idle_loop now order p")
    then show ?thesis using idle_loop_ok [OF good, of now order q conns] pd PoCleanup by (simp add: s sys_ok_def cleanupIdle_def)
  next
    case (PoShutdown order)
    then show ?thesis using shutdown_ok [OF good, of order] assms pd by (simp add: s sys_ok_def)
  qed
qed

interpretation gateway_pool: step_system "pool_start cfg" gw_step sys_ok for cfg
  by unfold_locales (simp_all add: pool_start_ok gw_step_ok)

lemma pool_reachable:
  assumes "fold gw_step ops (pool_start cfg) = (p, dials)"
  shows "pool_good p" "cp_pendingDials p = int dials" "items_ok p" "routes_ok p" "bindings_ok p" "gauges_ok p" "dials_ok p" "prio_ok p" "queue_ok p" "waiting_ok p"
  using gateway_pool.inv_reachable [of ops cfg] unfolding assms by (simp_all add: sys_ok_def pool_good_def pool_inv_def pool_rest_def)

lemma reserve_dial_fields:
  "reserveDialLocked p = (q, s) \<Longrightarrow> cp_bindings q = cp_bindings p \<and> cp_routes q = cp_routes p \<and> cp_bconn q = cp_bconn p"
  by (auto simp: reserveDialLocked_def split: if_splits)

lemma reserve_scale_fields:
  "reserveScaleLocked p = (q, s) \<Longrightarrow> cp_bindings q = cp_bindings p \<and> cp_routes q = cp_routes p \<and> cp_bconn q = cp_bconn p"
  by (auto simp: reserveScaleLocked_def dest: reserve_dial_fields split: if_splits option.splits)

text \<open>C36. Whatever happens to the sessions, the connections and the dials, in any order: a session is routed
  to an open connection exactly when that connection lists it, the load of a connection is the
  number of its sessions and stays within the limit, the handle of every bound session reads the
  connection it is routed to (or nothing), and the gauges count what they name.\<close>

theorem pool_routes_exact:
  assumes "fold gw_step ops (pool_start cfg) = (p, dials)"
  shows "(\<forall>key i. cp_routes p key = Some i \<longleftrightarrow> i \<in> ran (cp_connections p) \<and> key \<in> pc_sessions (item_at p i)) \<and>
    (\<forall>i\<in>ran (cp_connections p). pc_load (item_at p i) = int (card (pc_sessions (item_at p i))) \<and> pc_load (item_at p i) \<le> cp_maxSessions p) \<and>
    (\<forall>key b. cp_bindings p key = Some b \<longrightarrow> cp_bconn p ! b = map_option (\<lambda>i. pc_conn (item_at p i)) (cp_routes p key)) \<and>
    cp_mActive p = int (card {i \<in> ran (cp_connections p). pc_state (item_at p i) = ConnectionActive}) \<and>
    cp_mConnecting p = int (card {i \<in> ran (cp_connections p). pc_state (item_at p i) = ConnectionConnecting}) \<and>
    cp_mRouted p = int (card (dom (cp_routes p))) \<and> cp_mPending p = int dials"
proof -
  note r = pool_reachable [OF assms]
  have q: "set (cp_queue p) = ran (cp_connections p)" using r(3) by (simp add: items_ok_def)
  have "\<forall>key i. cp_routes p key = Some i \<longleftrightarrow> i \<in> ran (cp_connections p) \<and> key \<in> pc_sessions (item_at p i)"
    using r(4) unfolding routes_ok_def q by blast
  moreover have "\<forall>i\<in>ran (cp_connections p). pc_load (item_at p i) = int (card (pc_sessions (item_at p i))) \<and> pc_load (item_at p i) \<le> cp_maxSessions p"
    using r(4) unfolding routes_ok_def q by blast
  moreover have "\<forall>key b. cp_bindings p key = Some b \<longrightarrow> cp_bconn p ! b = map_option (\<lambda>i. pc_conn (item_at p i)) (cp_routes p key)"
    using r(5) by (simp add: bindings_ok_def)
  moreover have "cp_mActive p = int (card {i \<in> ran (cp_connections p). pc_state (item_at p i) = ConnectionActive}) \<and>
    cp_mConnecting p = int (card {i \<in> ran (cp_connections p). pc_state (item_at p i) = ConnectionConnecting}) \<and>
    cp_mRouted p = int (card (dom (cp_routes p))) \<and> cp_mPending p = int dials"
    using r(2,6) by (simp add: gauges_ok_def in_state_def q)
  ultimately show ?thesis by (elim conjE, intro conjI)
qed

text \<open>C37. A new session goes to the best connection there is: no connection of the pool comes before the chosen
  one in the order of priority, load and identifier. Without a connection that has room the session waits.\<close>

theorem bind_selects_least:
  assumes "fold gw_step ops (pool_start cfg) = (p, dials)" "cp_bindings p key = None" "Pool_Bind key p = (q, b, s)"
  shows "cp_bindings q key = Some b \<and>
    (case cp_routes q key of
       Some i \<Rightarrow> i \<in> ran (cp_connections p) \<and> pc_load (item_at p i) < cp_maxSessions p \<and>
         (\<forall>j\<in>ran (cp_connections p). \<not> Less (item_at p j) (item_at p i)) \<and> cp_bconn q ! b = Some (pc_conn (item_at p i))
     | None \<Rightarrow> (\<forall>j\<in>ran (cp_connections p). cp_maxSessions p \<le> pc_load (item_at p j) \<or> cp_conns p ! pc_conn (item_at p j) = ConnectionClosed))"
proof -
  note r = pool_reachable [OF assms(1)]
  have qr: "set (cp_queue p) = ran (cp_connections p)" using r(3) by (simp add: items_ok_def)
  have nr: "cp_routes p key = None" using r(5) assms(2) unfolding bindings_ok_def by (metis domIff subsetD)
  show ?thesis
  proof (cases "selectLocked p")
    case None
    then have "\<forall>j\<in>ran (cp_connections p). cp_maxSessions p \<le> pc_load (item_at p j) \<or> cp_conns p ! pc_conn (item_at p j) = ConnectionClosed"
      using select_None [OF r(9)] r(8) unfolding qr prio_ok_def by simp
    moreover obtain d where d: "reserveDialLocked (new_binding key None p) = (q, d)" "b = length (cp_bconn p)"
      using assms(2,3) None by (cases "reserveDialLocked (new_binding key None p)") (simp add: Pool_Bind_def Let_def)
    moreover have "cp_bindings q key = Some b \<and> cp_routes q key = None"
      using reserve_dial_fields [OF d(1)] d(2) nr by (simp add: new_binding_def)
    ultimately show ?thesis by simp
  next
    case (Some i)
    define p2 where "p2 = attachLocked key (length (cp_bconn p)) i (new_binding key None p)"
    have sel: "i \<in> set (cp_queue p)" "pc_priority (item_at p i) \<noteq> PriorityUnavailable" "\<And>j. j \<in> set (cp_queue p) \<Longrightarrow> item_key p i \<le> item_key p j"
      using select_Some [OF r(9) Some] by auto
    have "pc_load (item_at p i) < cp_maxSessions p" using r(8) sel(1,2) by (auto simp: prio_ok_def split: if_splits)
    moreover have "\<forall>j\<in>ran (cp_connections p). \<not> Less (item_at p j) (item_at p i)" using sel(3) unfolding Less_key qr by (auto simp: not_less)
    moreover have p2: "cp_bindings p2 key = Some (length (cp_bconn p))" "cp_routes p2 key = Some i" "cp_bconn p2 ! length (cp_bconn p) = Some (pc_conn (item_at p i))"
      by (simp_all add: p2_def new_binding_def attachLocked_def upd_item_def)
    moreover have "cp_bindings q = cp_bindings p2 \<and> cp_routes q = cp_routes p2 \<and> cp_bconn q = cp_bconn p2 \<and> b = length (cp_bconn p)"
      using assms(2,3) Some reserve_scale_fields [of p2] by (auto simp: Pool_Bind_def Let_def p2_def [symmetric] split: if_splits prod.splits)
    ultimately show ?thesis using sel(1) qr by simp
  qed
qed


subsection \<open>The limits\<close>

definition limits :: "ConnectionPool \<Rightarrow> int \<times> int \<times> int \<times> int \<times> int" where
  "limits p = (cp_minConns p, cp_targetSessions p, cp_maxSessions p, cp_maxConns p, cp_idleTimeout p)"

lemma limits_basic [simp]:
  "limits (upd_item i f p) = limits p" "limits (set_heap h p) = limits p" "limits (gauge_up st p) = limits p"
  "limits (gauge_down st p) = limits p" "limits (new_binding key x p) = limits p"
  "limits (p\<lparr>cp_connections := m\<rparr>) = limits p" "limits (p\<lparr>cp_routes := r\<rparr>) = limits p" "limits (p\<lparr>cp_bindings := b\<rparr>) = limits p"
  "limits (p\<lparr>cp_conns := cs\<rparr>) = limits p" "limits (p\<lparr>cp_bconn := bs\<rparr>) = limits p" "limits (p\<lparr>cp_mRouted := n\<rparr>) = limits p"
  "limits (p\<lparr>cp_pendingDials := n\<rparr>) = limits p" "limits (p\<lparr>cp_mPending := n\<rparr>) = limits p" "limits (p\<lparr>cp_nextID := k\<rparr>) = limits p"
  "limits (p\<lparr>cp_items := is\<rparr>) = limits p" "limits (p\<lparr>cp_closed := c\<rparr>) = limits p" "limits (p\<lparr>cp_queue := q\<rparr>) = limits p"
  "limits (p\<lparr>cp_mReconnects := n\<rparr>) = limits p"
  by (simp_all add: limits_def upd_item_def set_heap_def gauge_up_def gauge_down_def new_binding_def split: ConnectionState.split)

lemma limits_locked [simp]:
  "limits (refreshLocked i p) = limits p" "limits (attachLocked key b i p) = limits p"
  "limits (recordConnectionRemovalLocked i p) = limits p" "limits (fst (reserveDialLocked p)) = limits p"
  by (simp_all add: refreshLocked_def attachLocked_def recordConnectionRemovalLocked_def reserveDialLocked_def Let_def)

lemma limits_scale [simp]: "limits (fst (reserveScaleLocked p)) = limits p"
  by (simp add: reserveScaleLocked_def split: option.split)

lemma limits_remove [simp]: "limits (removeLocked i p) = limits p"
  by (simp add: removeLocked_def Let_def)

lemma limits_assign [simp]: "limits (assignPendingLocked order p) = limits p"
  by (induction order p rule: assignPendingLocked.induct) (simp_all split: option.split)

lemma limits_idle [simp]: "limits (fst (idle_loop now order p)) = limits p"
  by (induction now order p rule: idle_loop.induct) (simp_all add: case_prod_beta split: option.split)

lemma limits_removals [simp]: "limits (fold recordConnectionRemovalLocked is p) = limits p"
  by (induction "is" arbitrary: p) simp_all

lemma limits_start: "limits (fst (start_loop n p)) = limits p"
  by (induction n arbitrary: p) (simp_all add: case_prod_beta)

lemma limits_step: "limits (fst (gw_step op s)) = limits (fst s)"
proof (cases s)
  case (Pair p d)
  show ?thesis
  proof (cases op)
    case (PoBind key)
    then show ?thesis using Pair by (simp add: Pool_Bind_def Let_def case_prod_beta split: option.split)
  next
    case (PoTryBind key)
    then show ?thesis using Pair by (simp add: TryBind_def Let_def case_prod_beta split: option.split)
  next
    case (PoUnbind now order key)
    then show ?thesis using Pair by (simp add: Unbind_def Let_def split: option.split)
  next
    case (PoDial ok order)
    then show ?thesis using Pair by (simp add: startDial_def Let_def)
  next
    case (PoSync order c)
    then show ?thesis using Pair by (simp add: syncConnectionState_def Let_def split: option.split)
  next
    case (PoShutdown order)
    then show ?thesis using Pair by (simp add: Pool_Shutdown_def Let_def)
  qed (use Pair in \<open>simp_all add: conn_OnOpen_def conn_OnClose_def conn_Close_def cleanupIdle_def\<close>)
qed

lemma limits_run:
  assumes "fold gw_step ops (pool_start cfg) = (p, dials)" "c = defaultConnectionPoolConfig cfg"
  shows "cp_minConns p = MinConnections c" "cp_targetSessions p = TargetSessionsPerConnection c"
    "cp_maxSessions p = MaxSessionsPerConnection c" "cp_maxConns p = MaxConnections c" "cp_idleTimeout p = IdleTimeout c"
proof -
  have "limits (fst (fold gw_step ops s)) = limits (fst s)" for s by (induction ops arbitrary: s) (simp_all add: limits_step)
  from this [of "pool_start cfg"] have "limits p = limits (newConnectionPool cfg)"
    unfolding assms(1) by (simp add: pool_start_def startMinConnections_def limits_start)
  then show "cp_minConns p = MinConnections c" "cp_targetSessions p = TargetSessionsPerConnection c"
    "cp_maxSessions p = MaxSessionsPerConnection c" "cp_maxConns p = MaxConnections c" "cp_idleTimeout p = IdleTimeout c"
    by (simp_all add: limits_def newConnectionPool_def Let_def assms(2))
qed

text \<open>C39. The pool stays within its configuration: no connection carries more than the maximum number of
  sessions, at most one dial is in flight beyond the initial ones, and when a maximum is configured the
  connections together with the pending dials do not exceed it (nor the minimum, when that is larger).
  The effective limits are positive, and the scaling target lies within the session limit.\<close>

theorem pool_limits:
  assumes "fold gw_step ops (pool_start cfg) = (p, dials)" "c = defaultConnectionPoolConfig cfg"
  shows "(\<forall>i\<in>ran (cp_connections p). pc_load (item_at p i) \<le> MaxSessionsPerConnection c) \<and>
    int dials \<le> max 1 (MinConnections c) \<and>
    (0 < MaxConnections cfg \<longrightarrow> int (card (dom (cp_connections p)) + dials) \<le> max (MinConnections c) (MaxConnections cfg)) \<and>
    0 < MinConnections c \<and> 0 < TargetSessionsPerConnection c \<and> TargetSessionsPerConnection c \<le> MaxSessionsPerConnection c"
proof -
  note r = pool_reachable [OF assms(1)] and l = limits_run [OF assms]
  have "MaxConnections c = MaxConnections cfg" by (simp add: assms(2) defaultConnectionPoolConfig_def Let_def)
  moreover have "set (cp_queue p) = ran (cp_connections p)" using r(3) by (simp add: items_ok_def)
  then have "\<forall>i\<in>ran (cp_connections p). pc_load (item_at p i) \<le> MaxSessionsPerConnection c"
    using r(4) unfolding routes_ok_def l by blast
  ultimately show ?thesis
    using r(2,7) default_config_positive [of cfg] unfolding assms(2) [symmetric] dials_ok_def l by simp
qed

text \<open>C40. The idle clean-up takes no connection from a session and never leaves fewer connections than the
  configured minimum, unless there were fewer before.\<close>

theorem idle_cleanup_safe:
  assumes "fold gw_step ops (pool_start cfg) = (p, dials)" "cleanupIdle now order p = (q, conns)"
  shows "cp_routes q = cp_routes p \<and> cp_bindings q = cp_bindings p \<and>
    min (int (card (dom (cp_connections p)))) (MinConnections (defaultConnectionPoolConfig cfg)) \<le> int (card (dom (cp_connections q)))"
  using idle_loop_ok [OF pool_reachable(1) [OF assms(1)], of now order q conns] assms(2) limits_run(1) [OF assms(1) refl]
  by (simp add: cleanupIdle_def)

subsection \<open>Witnesses\<close>

definition sample_pool_config :: ConnectionPoolConfig where
  "sample_pool_config = \<lparr>MinConnections = 0, TargetSessionsPerConnection = 0, MaxSessionsPerConnection = 2, MaxConnections = 3,
     IdleTimeout = 0, CleanupInterval = 0\<rparr>"

definition sample_pool_ops :: "pool_op list" where
  "sample_pool_ops = [PoBind [1], PoDial True [[1]], PoOpen 0, PoSync [[1]] 0, PoBind [2], PoUnbind 10 [[2]] [1]]"

theorem pool_routes_exact_witness:
  "\<exists>p dials. fold gw_step sample_pool_ops (pool_start sample_pool_config) = (p, dials) \<and>
     cp_mRouted p = int (card (dom (cp_routes p))) \<and> cp_mPending p = int dials"
proof -
  obtain p dials where s: "fold gw_step sample_pool_ops (pool_start sample_pool_config) = (p, dials)" by (meson surj_pair)
  show ?thesis using pool_routes_exact [OF s] s by blast
qed

lemma sample_pool_start:
  "pool_start sample_pool_config = ((newConnectionPool sample_pool_config)\<lparr>cp_pendingDials := 1, cp_mPending := 1\<rparr>, 1)"
  by (simp add: pool_start_def startMinConnections_def newConnectionPool_def defaultConnectionPoolConfig_def sample_pool_config_def)

theorem bind_selects_least_witness:
  "\<exists>q b s. Pool_Bind [1] (fst (pool_start sample_pool_config)) = (q, b, s) \<and> cp_bindings q [1] = Some b"
proof -
  have s: "fold gw_step [] (pool_start sample_pool_config) = (fst (pool_start sample_pool_config), snd (pool_start sample_pool_config))" by simp
  have n: "cp_bindings (fst (pool_start sample_pool_config)) [1] = None" by (simp add: sample_pool_start newConnectionPool_def Let_def)
  obtain q b r where b: "Pool_Bind [1] (fst (pool_start sample_pool_config)) = (q, b, r)" by (metis surj_pair)
  show ?thesis using bind_selects_least [OF s n b] b by blast
qed


theorem pool_limits_witness:
  "\<exists>p dials. fold gw_step sample_pool_ops (pool_start sample_pool_config) = (p, dials) \<and>
     int (card (dom (cp_connections p)) + dials) \<le> 3"
proof -
  obtain p dials where s: "fold gw_step sample_pool_ops (pool_start sample_pool_config) = (p, dials)" by (meson surj_pair)
  show ?thesis
    using pool_limits [OF s refl] s by (simp add: defaultConnectionPoolConfig_def sample_pool_config_def Let_def)
qed

theorem idle_cleanup_safe_witness:
  "\<exists>p dials q conns. fold gw_step sample_pool_ops (pool_start sample_pool_config) = (p, dials) \<and>
     cleanupIdle 99999 [0] p = (q, conns) \<and> cp_routes q = cp_routes p"
proof -
  obtain p dials where s: "fold gw_step sample_pool_ops (pool_start sample_pool_config) = (p, dials)" by (meson surj_pair)
  obtain q conns where c: "cleanupIdle 99999 [0] p = (q, conns)" by (meson surj_pair)
  show ?thesis using idle_cleanup_safe [OF s c] s c by blast
qed

end
