(* ===== verification/MachinePool.thy ===== *)
theory MachinePool
  imports MinHeap Sessions "HOL-Library.Product_Lexorder"
begin

text \<open>
  \<open>internal/machine/pool.go\<close> and \<open>internal/machine/connection.go\<close>: the machine's end of the data plane.
  Gateways open connections to the machine; the \<open>ConnectionManager\<close> routes every session over the
  least-loaded active connection and tells the gateway when a session ends. The sender of a session,
  \<open>sessionWriteLoop\<close> of \<open>biz/handler/session.go\<close>, asks it for a connection.

  A connection is an index into \<open>cm_conns\<close>, a heap item an index into \<open>cm_items\<close>. The functions of the manager run
  under its mutex and are atomic; the state of a connection and its socket are atomics that change between them,
  so \<open>OnOpen\<close> and \<open>OnClose\<close> are given by their single operations as well. Whether a write to
  a socket succeeds is an argument; what was written is kept in \<open>cm_sent\<close>.

  The loop of \<open>Select\<close> drops inactive connections until it finds an active one. It would not end if dropping
  the first element could leave the queue as it is, so it is a \<open>partial_function\<close>, and that it always
  returns is part of what is shown about it.
\<close>

section \<open>Model\<close>

record machineConn =
  mc_state :: ConnectionState
  mc_socket :: bool

record heapConnection =
  hc_id :: nat
  hc_conn :: nat
  hc_load :: int
  hc_sessions :: "SessionKey set"

record ConnectionManager =
  cm_nextID :: nat
  cm_connections :: "nat \<rightharpoonup> nat"
  cm_routes :: "SessionKey \<rightharpoonup> nat"
  cm_active :: "nat list"
  cm_index :: "nat \<Rightarrow> int"
  cm_items :: "heapConnection list"
  cm_conns :: "machineConn list"
  cm_sent :: "(nat \<times> bytes) list"
  cm_mActive :: int
  cm_mRouted :: int

definition empty_manager :: ConnectionManager where
  "empty_manager =
     \<lparr>cm_nextID = 0, cm_connections = Map.empty, cm_routes = Map.empty, cm_active = [], cm_index = (\<lambda>_. 0),
      cm_items = [], cm_conns = [], cm_sent = [], cm_mActive = 0, cm_mRouted = 0\<rparr>"

text \<open>The manager registers its observer, here a number, with the session manager.\<close>

definition NewConnectionManager :: "nat \<Rightarrow> ('p, 'v) SessionManager \<Rightarrow> ConnectionManager \<times> ('p, 'v) SessionManager" where
  "NewConnectionManager fn sm = (empty_manager, snd (AddDeletedObserver fn sm))"

definition NewConnection :: "ConnectionManager \<Rightarrow> ConnectionManager" where
  "NewConnection m = m\<lparr>cm_conns := cm_conns m @ [\<lparr>mc_state = ConnectionUnknown, mc_socket = False\<rparr>]\<rparr>"

abbreviation hc_at :: "ConnectionManager \<Rightarrow> nat \<Rightarrow> heapConnection" where
  "hc_at m i \<equiv> cm_items m ! i"

abbreviation conn_state :: "ConnectionManager \<Rightarrow> nat \<Rightarrow> ConnectionState" where
  "conn_state m c \<equiv> mc_state (cm_conns m ! c)"

abbreviation item_live :: "ConnectionManager \<Rightarrow> nat \<Rightarrow> bool" where
  "item_live m i \<equiv> conn_state m (hc_conn (hc_at m i)) = ConnectionActive"

abbreviation cm_heap :: "ConnectionManager \<Rightarrow> nat qheap" where
  "cm_heap m \<equiv> (cm_active m, cm_index m)"

definition upd_hc :: "nat \<Rightarrow> (heapConnection \<Rightarrow> heapConnection) \<Rightarrow> ConnectionManager \<Rightarrow> ConnectionManager" where
  "upd_hc i f m = m\<lparr>cm_items := (cm_items m)[i := f (hc_at m i)]\<rparr>"

definition set_active :: "nat qheap \<Rightarrow> ConnectionManager \<Rightarrow> ConnectionManager" where
  "set_active h m = m\<lparr>cm_active := fst h, cm_index := snd h\<rparr>"

definition machine_Less :: "heapConnection \<Rightarrow> heapConnection \<Rightarrow> bool" where
  "machine_Less a b = (if hc_load a \<noteq> hc_load b then hc_load a < hc_load b else hc_id a < hc_id b)"

definition hc_key :: "ConnectionManager \<Rightarrow> nat \<Rightarrow> int \<times> nat" where
  "hc_key m i = (hc_load (hc_at m i), hc_id (hc_at m i))"

lemma machine_Less_key: "machine_Less (hc_at m i) (hc_at m j) \<longleftrightarrow> hc_key m i < hc_key m j"
  by (auto simp: machine_Less_def hc_key_def)

definition cm_Store :: "nat \<Rightarrow> ConnectionManager \<Rightarrow> ConnectionManager" where
  "cm_Store c m =
     (if cm_connections m c \<noteq> None then m
      else
        let i = length (cm_items m);
            m1 = m\<lparr>cm_nextID := cm_nextID m + 1,
                   cm_items := cm_items m @ [\<lparr>hc_id = cm_nextID m + 1, hc_conn = c, hc_load = 0, hc_sessions = {}\<rparr>],
                   cm_index := (cm_index m)(i := int (length (cm_active m))),
                   cm_connections := (cm_connections m)(c \<mapsto> i), cm_mActive := cm_mActive m + 1\<rparr>
        in set_active (heap_Push (hc_key m1) i (cm_heap m1)) m1)"

definition removeConnectionLocked :: "nat \<Rightarrow> ConnectionManager \<Rightarrow> ConnectionManager" where
  "removeConnectionLocked i m =
     (if cm_connections m (hc_conn (hc_at m i)) \<noteq> Some i then m
      else
        let m1 = m\<lparr>cm_connections := (cm_connections m)(hc_conn (hc_at m i) := None), cm_mActive := cm_mActive m - 1\<rparr>;
            m2 = (if cm_index m1 i \<ge> 0 then set_active (heap_Remove (hc_key m1) (nat (cm_index m1 i)) (cm_heap m1)) m1 else m1);
            gone = {key \<in> hc_sessions (hc_at m2 i). cm_routes m2 key = Some i};
            m3 = m2\<lparr>cm_routes := (\<lambda>key. if key \<in> gone then None else cm_routes m2 key),
                     cm_mRouted := cm_mRouted m2 - int (card gone)\<rparr>
        in upd_hc i (\<lambda>item. item\<lparr>hc_sessions := {}\<rparr>) m3)"

definition releaseLocked :: "SessionKey \<Rightarrow> nat \<Rightarrow> ConnectionManager \<Rightarrow> ConnectionManager" where
  "releaseLocked key i m =
     (if cm_routes m key \<noteq> Some i then m
      else
        let m1 = upd_hc i (\<lambda>item. item\<lparr>hc_sessions := hc_sessions item - {key}\<rparr>)
                   (m\<lparr>cm_routes := (cm_routes m)(key := None)\<rparr>)
        in if hc_load (hc_at m1 i) > 0
           then let m2 = upd_hc i (\<lambda>item. item\<lparr>hc_load := hc_load item - 1\<rparr>) (m1\<lparr>cm_mRouted := cm_mRouted m1 - 1\<rparr>)
                in set_active (heap_Fix (hc_key m2) (cm_index m2 i) (cm_heap m2)) m2
           else m1)"

text \<open>The body of the loop in \<open>Select\<close> for an active connection.\<close>

definition assign_route :: "SessionKey \<Rightarrow> nat \<Rightarrow> ConnectionManager \<Rightarrow> ConnectionManager" where
  "assign_route key i m =
     (let m1 = upd_hc i (\<lambda>item. item\<lparr>hc_sessions := insert key (hc_sessions item), hc_load := hc_load item + 1\<rparr>)
                 (m\<lparr>cm_routes := (cm_routes m)(key \<mapsto> i), cm_mRouted := cm_mRouted m + 1\<rparr>)
      in set_active (heap_Fix (hc_key m1) (cm_index m1 i) (cm_heap m1)) m1)"

partial_function (option) select_loop :: "SessionKey \<Rightarrow> ConnectionManager \<Rightarrow> (ConnectionManager \<times> nat option) option" where
  [code]: "select_loop key m =
     (case cm_active m of
        [] \<Rightarrow> Some (m, None)
      | i # _ \<Rightarrow>
          if item_live m i then Some (assign_route key i m, Some (hc_conn (hc_at m i)))
          else select_loop key (removeConnectionLocked i m))"

definition Select :: "SessionKey \<Rightarrow> ConnectionManager \<Rightarrow> (ConnectionManager \<times> nat option) option" where
  "Select key m =
     (case cm_routes m key of
        Some i \<Rightarrow>
          if item_live m i then Some (m, Some (hc_conn (hc_at m i))) else select_loop key (removeConnectionLocked i m)
      | None \<Rightarrow> select_loop key m)"

definition Lookup :: "SessionKey \<Rightarrow> ConnectionManager \<Rightarrow> ConnectionManager \<times> nat option" where
  "Lookup key m =
     (case cm_routes m key of
        None \<Rightarrow> (m, None)
      | Some i \<Rightarrow>
          if item_live m i then (m, Some (hc_conn (hc_at m i))) else (removeConnectionLocked i m, None))"

definition cm_Release :: "SessionKey \<Rightarrow> ConnectionManager \<Rightarrow> ConnectionManager" where
  "cm_Release key m = (case cm_routes m key of None \<Rightarrow> m | Some i \<Rightarrow> releaseLocked key i m)"

definition cm_Remove :: "nat \<Rightarrow> ConnectionManager \<Rightarrow> ConnectionManager" where
  "cm_Remove c m = (case cm_connections m c of None \<Rightarrow> m | Some i \<Rightarrow> removeConnectionLocked i m)"

section \<open>Connections\<close>

definition upd_conn :: "nat \<Rightarrow> (machineConn \<Rightarrow> machineConn) \<Rightarrow> ConnectionManager \<Rightarrow> ConnectionManager" where
  "upd_conn c f m = m\<lparr>cm_conns := (cm_conns m)[c := f (cm_conns m ! c)]\<rparr>"

definition machine_OnOpen :: "nat \<Rightarrow> ConnectionManager \<Rightarrow> ConnectionManager" where
  "machine_OnOpen c m = cm_Store c (upd_conn c (\<lambda>x. x\<lparr>mc_socket := True, mc_state := ConnectionActive\<rparr>) m)"

definition machine_OnClose :: "nat \<Rightarrow> ConnectionManager \<Rightarrow> ConnectionManager" where
  "machine_OnClose c m = cm_Remove c (upd_conn c (\<lambda>x. x\<lparr>mc_state := ConnectionClosed, mc_socket := False\<rparr>) m)"

text \<open>\<open>Write\<close> returns whether it succeeded; \<open>io\<close> is the outcome of \<open>Writev\<close>.\<close>

definition machine_Write :: "bool \<Rightarrow> nat \<Rightarrow> SessionKey \<Rightarrow> Packet \<Rightarrow> ConnectionManager \<Rightarrow> ConnectionManager \<times> bool" where
  "machine_Write io c key packet m =
     (if conn_state m c \<noteq> ConnectionActive \<or> \<not> mc_socket (cm_conns m ! c) then (m, False)
      else
        let header = fst (Packet_Header packet)
        in if \<not> io then (m, False)
           else (m\<lparr>cm_sent := cm_sent m @ [(c, key @ header @ contents (pk_Payload packet))]\<rparr>, True))"

text \<open>\<open>OnMessage\<close> with the packet its pool returned: what is given to the handler.\<close>

definition machine_OnMessage :: "bool \<Rightarrow> bytes \<Rightarrow> Packet \<Rightarrow> (SessionKey \<times> Packet) option" where
  "machine_OnMessage binary body packet =
     (if \<not> binary \<or> length body < SessionKeySize then None
      else
        let key = take SessionKeySize body
        in case Unmarshal (drop SessionKeySize body) packet of
             (packet', None) \<Rightarrow> Some (key, packet')
           | (_, Some _) \<Rightarrow> None)"

section \<open>Ends of sessions\<close>

definition close_packet :: "Packet \<Rightarrow> Packet" where
  "close_packet packet = packet\<lparr>pk_Type := TypeClose\<rparr>"

text \<open>
  \<open>onSessionDelete\<close> with the packet from the pool and the outcomes of its two writes. The result says whether
  the gateway was told.
\<close>

definition onSessionDelete ::
  "Packet \<Rightarrow> bool \<Rightarrow> bool \<Rightarrow> SessionKey \<Rightarrow> ConnectionManager \<Rightarrow> (ConnectionManager \<times> bool) option" where
  "onSessionDelete pk io1 io2 key m =
     (let packet = close_packet pk;
          found = (case Lookup key m of (m1, Some c) \<Rightarrow> Some (m1, Some c) | (m1, None) \<Rightarrow> Select key m1)
      in case found of
           None \<Rightarrow> None
         | Some (m1, None) \<Rightarrow> Some (cm_Release key m1, False)
         | Some (m1, Some c) \<Rightarrow>
             (case machine_Write io1 c key packet m1 of
                (m2, True) \<Rightarrow> Some (cm_Release key m2, True)
              | (m2, False) \<Rightarrow>
                  (case Select key (cm_Remove c m2) of
                     None \<Rightarrow> None
                   | Some (m3, None) \<Rightarrow> Some (cm_Release key m3, False)
                   | Some (m3, Some c') \<Rightarrow>
                       (case machine_Write io2 c' key packet m3 of
                          (m4, True) \<Rightarrow> Some (cm_Release key m4, True)
                        | (m4, False) \<Rightarrow> Some (cm_Release key (cm_Remove c' m4), False)))))"


section \<open>Invariant\<close>

definition cm_items_ok :: "ConnectionManager \<Rightarrow> bool" where
  "cm_items_ok m \<longleftrightarrow>
     (\<forall>c i. cm_connections m c = Some i \<longrightarrow> i < length (cm_items m) \<and> hc_conn (hc_at m i) = c) \<and>
     set (cm_active m) = ran (cm_connections m) \<and> finite (dom (cm_connections m))"

definition cm_routes_ok :: "ConnectionManager \<Rightarrow> bool" where
  "cm_routes_ok m \<longleftrightarrow>
     (\<forall>k i. cm_routes m k = Some i \<longleftrightarrow> i \<in> set (cm_active m) \<and> k \<in> hc_sessions (hc_at m i)) \<and> finite (dom (cm_routes m))"

definition cm_loads_ok :: "ConnectionManager \<Rightarrow> bool" where
  "cm_loads_ok m \<longleftrightarrow> (\<forall>i\<in>set (cm_active m). hc_load (hc_at m i) = int (card (hc_sessions (hc_at m i))))"

definition cm_gauges_ok :: "ConnectionManager \<Rightarrow> bool" where
  "cm_gauges_ok m \<longleftrightarrow>
     cm_mActive m = int (card (dom (cm_connections m))) \<and> cm_mRouted m = int (card (dom (cm_routes m)))"

definition cm_inv :: "ConnectionManager \<Rightarrow> bool" where
  "cm_inv m \<longleftrightarrow> cm_items_ok m \<and> cm_routes_ok m \<and> cm_loads_ok m \<and> cm_gauges_ok m \<and> min_ok (hc_key m) (cm_heap m)"

lemma cm_invD:
  assumes "cm_inv m"
  shows "cm_items_ok m" "cm_routes_ok m" "cm_loads_ok m" "cm_gauges_ok m" "min_ok (hc_key m) (cm_heap m)"
  using assms by (simp_all add: cm_inv_def)

lemma stored_item:
  assumes "cm_items_ok m" "i \<in> set (cm_active m)"
  shows "i < length (cm_items m)" "cm_connections m (hc_conn (hc_at m i)) = Some i"
proof -
  obtain c where c: "cm_connections m c = Some i" using assms unfolding cm_items_ok_def by (auto simp: ran_def)
  then have "i < length (cm_items m) \<and> hc_conn (hc_at m i) = c" using assms(1) unfolding cm_items_ok_def by blast
  then show "i < length (cm_items m)" "cm_connections m (hc_conn (hc_at m i)) = Some i" using c by simp_all
qed

lemma stored_active: "cm_items_ok m \<Longrightarrow> cm_connections m c = Some i \<Longrightarrow> i \<in> set (cm_active m) \<and> i < length (cm_items m) \<and> hc_conn (hc_at m i) = c"
  unfolding cm_items_ok_def by (auto intro: ranI)

lemma route_active: "cm_routes_ok m \<Longrightarrow> cm_routes m k = Some i \<Longrightarrow> i \<in> set (cm_active m) \<and> k \<in> hc_sessions (hc_at m i)"
  unfolding cm_routes_ok_def by blast

lemma sessions_routed:
  assumes "cm_routes_ok m" "i \<in> set (cm_active m)"
  shows "hc_sessions (hc_at m i) = {k. cm_routes m k = Some i}" "finite (hc_sessions (hc_at m i))"
proof -
  show eq: "hc_sessions (hc_at m i) = {k. cm_routes m k = Some i}" using assms unfolding cm_routes_ok_def by blast
  have "{k. cm_routes m k = Some i} \<subseteq> dom (cm_routes m)" by auto
  then show "finite (hc_sessions (hc_at m i))"
    unfolding eq using assms(1) unfolding cm_routes_ok_def by (blast intro: finite_subset)
qed

lemma upd_hc_simps [simp]:
  "cm_connections (upd_hc i f m) = cm_connections m" "cm_routes (upd_hc i f m) = cm_routes m"
  "cm_active (upd_hc i f m) = cm_active m" "cm_index (upd_hc i f m) = cm_index m" "cm_conns (upd_hc i f m) = cm_conns m"
  "cm_sent (upd_hc i f m) = cm_sent m" "cm_mActive (upd_hc i f m) = cm_mActive m" "cm_mRouted (upd_hc i f m) = cm_mRouted m"
  "length (cm_items (upd_hc i f m)) = length (cm_items m)"
  by (simp_all add: upd_hc_def)

lemma upd_hc_at: "i < length (cm_items m) \<Longrightarrow> hc_at (upd_hc i f m) j = (if j = i then f (hc_at m i) else hc_at m j)"
  by (simp add: upd_hc_def)

lemma set_active_simps [simp]:
  "cm_connections (set_active h m) = cm_connections m" "cm_routes (set_active h m) = cm_routes m"
  "cm_active (set_active h m) = fst h" "cm_index (set_active h m) = snd h" "cm_conns (set_active h m) = cm_conns m"
  "cm_sent (set_active h m) = cm_sent m" "cm_mActive (set_active h m) = cm_mActive m" "cm_mRouted (set_active h m) = cm_mRouted m"
  "cm_items (set_active h m) = cm_items m"
  by (simp_all add: set_active_def)

lemma hc_key_items: "cm_items m' = cm_items m \<Longrightarrow> hc_key m' = hc_key m"
  by (rule ext) (simp add: hc_key_def)

lemma hc_key_set_active [simp]: "hc_key (set_active h m) = hc_key m"
  by (rule hc_key_items) simp

subsection \<open>Storing a connection\<close>

lemma cm_Store_ok:
  assumes inv: "cm_inv m"
  shows "cm_inv (cm_Store c m)"
proof (cases "cm_connections m c")
  case None
  let ?i = "length (cm_items m)"
  define m1 where "m1 = m\<lparr>cm_nextID := cm_nextID m + 1,
    cm_items := cm_items m @ [\<lparr>hc_id = cm_nextID m + 1, hc_conn = c, hc_load = 0, hc_sessions = {}\<rparr>],
    cm_index := (cm_index m)(?i := int (length (cm_active m))),
    cm_connections := (cm_connections m)(c \<mapsto> ?i), cm_mActive := cm_mActive m + 1\<rparr>"
  define h where "h = heap_Push (hc_key m1) ?i (cm_heap m1)"
  have res: "cm_Store c m = set_active h m1" using None by (simp add: cm_Store_def Let_def m1_def h_def)
  note I = cm_invD [OF inv]
  have act: "cm_active m1 = cm_active m" by (simp add: m1_def)
  have notin: "?i \<notin> set (cm_active m)" using stored_item(1) [OF I(1)] by blast
  have at: "hc_at m1 j = hc_at m j" if "j \<in> set (cm_active m)" for j
    using stored_item(1) [OF I(1) that] by (simp add: m1_def nth_append)
  have new: "hc_at m1 ?i = \<lparr>hc_id = cm_nextID m + 1, hc_conn = c, hc_load = 0, hc_sessions = {}\<rparr>" by (simp add: m1_def)
  have "min_ok (hc_key m1) (cm_heap m1)"
  proof -
    have "min_ok (hc_key m1) (cm_heap m)" using I(5) by (rule conn_queue.ok_cong) (simp add: hc_key_def at)
    moreover have "placed (cm_heap m1)" if "placed (cm_heap m)"
      using that notin by (auto simp: placed_def m1_def dest: nth_mem)
    ultimately show ?thesis by (simp add: min_ok_def act)
  qed
  then have h: "min_ok (hc_key m1) h" "set (fst h) = insert ?i (set (cm_active m))"
    using conn_queue.push_ok [of "hc_key m1" "cm_heap m1" ?i] notin act by (simp_all add: h_def)
  have conn: "cm_connections m1 = (cm_connections m)(c \<mapsto> ?i)" and len: "length (cm_items m1) = Suc ?i"
    and rt: "cm_routes m1 = cm_routes m" by (simp_all add: m1_def)
  have "cm_items_ok (set_active h m1)"
  proof -
    have "i < Suc ?i \<and> hc_conn (hc_at m1 i) = c'" if "cm_connections m1 c' = Some i" for c' i
    proof (cases "c' = c")
      case True
      then show ?thesis using that new by (simp add: conn)
    next
      case False
      then have s: "cm_connections m c' = Some i" using that by (simp add: conn)
      note t = stored_active [OF I(1) s]
      then show ?thesis using at [of i] by simp
    qed
    moreover have "ran (cm_connections m1) = insert ?i (set (cm_active m))"
      using None I(1) unfolding conn cm_items_ok_def by (simp add: ran_map_upd)
    moreover have "finite (dom (cm_connections m1))" using I(1) by (simp add: conn cm_items_ok_def)
    ultimately show ?thesis using h(2) len by (simp add: cm_items_ok_def)
  qed
  moreover have "cm_routes_ok (set_active h m1)"
    using I(2) at new notin unfolding cm_routes_ok_def by (auto simp: h(2) rt)
  moreover have "cm_loads_ok (set_active h m1)"
    using I(3) at new by (auto simp: cm_loads_ok_def h(2))
  moreover have "cm_gauges_ok (set_active h m1)"
    using I(4) I(1) None by (simp add: cm_gauges_ok_def m1_def cm_items_ok_def card_insert_if domIff)
  ultimately show ?thesis using h(1) by (simp add: res cm_inv_def)
qed (simp add: cm_Store_def inv)

subsection \<open>Removing a connection\<close>

lemma remove_effect:
  assumes inv: "cm_inv m" and i: "i \<in> set (cm_active m)" and m': "m' = removeConnectionLocked i m"
  shows "cm_connections m' = (cm_connections m)(hc_conn (hc_at m i) := None)"
    and "cm_routes m' = (\<lambda>k. if cm_routes m k = Some i then None else cm_routes m k)"
    and "set (cm_active m') = set (cm_active m) - {i}" and "length (cm_items m') = length (cm_items m)"
    and "\<And>j. hc_at m' j = (if j = i then (hc_at m i)\<lparr>hc_sessions := {}\<rparr> else hc_at m j)"
    and "cm_conns m' = cm_conns m" and "cm_sent m' = cm_sent m"
    and "cm_mActive m' = cm_mActive m - 1"
    and "cm_mRouted m' = cm_mRouted m - int (card {k. cm_routes m k = Some i})"
    and "min_ok (hc_key m') (cm_heap m')"
proof -
  note I = cm_invD [OF inv]
  note s = stored_item [OF I(1) i]
  define m1 where "m1 = m\<lparr>cm_connections := (cm_connections m)(hc_conn (hc_at m i) := None), cm_mActive := cm_mActive m - 1\<rparr>"
  define h where "h = heap_Remove (hc_key m) (nat (cm_index m i)) (cm_heap m)"
  have pos: "0 \<le> cm_index m i" using conn_queue.ok_position [OF I(5)] i by simp
  have h: "min_ok (hc_key m) h" "set (fst h) = set (cm_active m) - {i}"
    using conn_queue.remove_ok [OF I(5)] i by (simp_all add: h_def)
  have ses: "{key \<in> hc_sessions (hc_at m i). cm_routes m key = Some i} = {k. cm_routes m k = Some i}"
    using sessions_routed(1) [OF I(2) i] by auto
  have k1: "hc_key m1 = hc_key m" by (rule hc_key_items) (simp add: m1_def)
  have res: "m' = upd_hc i (\<lambda>item. item\<lparr>hc_sessions := {}\<rparr>)
      ((set_active h m1)\<lparr>cm_routes := (\<lambda>k. if cm_routes m k = Some i then None else cm_routes m k),
        cm_mRouted := cm_mRouted m - int (card {k. cm_routes m k = Some i})\<rparr>)"
  proof -
    have f: "cm_index m1 = cm_index m" "cm_active m1 = cm_active m" "cm_routes m1 = cm_routes m" "cm_items m1 = cm_items m"
      "cm_mRouted m1 = cm_mRouted m" by (simp_all add: m1_def)
    have "m' = (let m2 = set_active h m1; gone = {key \<in> hc_sessions (hc_at m2 i). cm_routes m2 key = Some i}
      in upd_hc i (\<lambda>item. item\<lparr>hc_sessions := {}\<rparr>)
        (m2\<lparr>cm_routes := (\<lambda>key. if key \<in> gone then None else cm_routes m2 key), cm_mRouted := cm_mRouted m2 - int (card gone)\<rparr>))"
      using s(2) pos unfolding m' removeConnectionLocked_def Let_def m1_def [symmetric] by (simp only: f k1 h_def not_True_eq_False if_False if_True simp_thms)
    then show ?thesis unfolding Let_def set_active_simps f ses by (simp only: mem_Collect_eq)
  qed
  show "cm_connections m' = (cm_connections m)(hc_conn (hc_at m i) := None)"
    "cm_routes m' = (\<lambda>k. if cm_routes m k = Some i then None else cm_routes m k)"
    "set (cm_active m') = set (cm_active m) - {i}" "length (cm_items m') = length (cm_items m)"
    "cm_conns m' = cm_conns m" "cm_sent m' = cm_sent m" "cm_mActive m' = cm_mActive m - 1"
    "cm_mRouted m' = cm_mRouted m - int (card {k. cm_routes m k = Some i})"
    by (simp_all add: res h(2)) (simp_all add: m1_def)
  show at: "hc_at m' j = (if j = i then (hc_at m i)\<lparr>hc_sessions := {}\<rparr> else hc_at m j)" for j
    using s(1) by (simp add: res upd_hc_def m1_def)
  have "hc_key m' = hc_key m" by (rule ext) (simp add: hc_key_def at)
  then show "min_ok (hc_key m') (cm_heap m')" using h(1) by (simp add: res)
qed

lemma conn_remove_ok:
  assumes inv: "cm_inv m" and i: "i \<in> set (cm_active m)"
  shows "cm_inv (removeConnectionLocked i m)"
proof -
  define m' where "m' = removeConnectionLocked i m"
  note I = cm_invD [OF inv] and e = remove_effect [OF inv i m'_def]
  note s = stored_item [OF I(1) i]
  have fin: "finite (dom (cm_connections m))" "finite (dom (cm_routes m))"
    using I(1,2) by (simp_all add: cm_items_ok_def cm_routes_ok_def)
  have "cm_items_ok m'"
  proof -
    have "j < length (cm_items m') \<and> hc_conn (hc_at m' j) = c" if "cm_connections m' c = Some j" for c j
      using that stored_active [OF I(1), of c j] by (auto simp: e split: if_splits)
    moreover have "ran (cm_connections m') = set (cm_active m) - {i}"
    proof (intro set_eqI iffI)
      fix j
      assume "j \<in> ran (cm_connections m')"
      then obtain c where c: "cm_connections m c = Some j" "c \<noteq> hc_conn (hc_at m i)" by (auto simp: e(1) ran_def split: if_splits)
      note t = stored_active [OF I(1) c(1)]
      with c(2) show "j \<in> set (cm_active m) - {i}" by blast
    next
      fix j
      assume j: "j \<in> set (cm_active m) - {i}"
      have t: "cm_connections m (hc_conn (hc_at m j)) = Some j" using stored_item(2) [OF I(1)] j by blast
      have "hc_conn (hc_at m j) \<noteq> hc_conn (hc_at m i)" using t s(2) j by auto
      then have "cm_connections m' (hc_conn (hc_at m j)) = Some j" using t by (simp add: e(1))
      then show "j \<in> ran (cm_connections m')" by (rule ranI)
    qed
    moreover have "finite (dom (cm_connections m'))" using fin by (simp add: e(1))
    ultimately show ?thesis by (simp add: cm_items_ok_def e(3))
  qed
  moreover have dom': "dom (cm_routes m') = dom (cm_routes m) - {k. cm_routes m k = Some i}" by (auto simp: e(2) split: if_splits)
  moreover have "cm_routes_ok m'"
  proof -
    have "cm_routes m' k = Some j \<longleftrightarrow> j \<in> set (cm_active m') \<and> k \<in> hc_sessions (hc_at m' j)" for k j
    proof -
      have "cm_routes m k = Some j \<longleftrightarrow> j \<in> set (cm_active m) \<and> k \<in> hc_sessions (hc_at m j)"
        using I(2) unfolding cm_routes_ok_def by blast
      then show ?thesis by (auto simp: e(2,3,5))
    qed
    then show ?thesis using fin(2) dom' unfolding cm_routes_ok_def by simp
  qed
  moreover have "cm_loads_ok m'" using I(3) by (simp add: cm_loads_ok_def e(3,5))
  moreover have "cm_gauges_ok m'"
  proof -
    have "{k. cm_routes m k = Some i} \<subseteq> dom (cm_routes m)" by auto
    then have "card (dom (cm_routes m')) = card (dom (cm_routes m)) - card {k. cm_routes m k = Some i}"
      "card {k. cm_routes m k = Some i} \<le> card (dom (cm_routes m))"
      using fin(2) by (simp_all add: dom' card_Diff_subset finite_subset card_mono)
    moreover have "card (dom (cm_connections m')) = card (dom (cm_connections m)) - 1" "0 < card (dom (cm_connections m))"
      using s(2) fin(1) by (auto simp: e(1) domI card_gt_0_iff)
    ultimately show ?thesis using I(4) by (simp add: cm_gauges_ok_def e(8,9) of_nat_diff)
  qed
  ultimately show ?thesis using e(10) by (simp add: cm_inv_def m'_def)
qed


subsection \<open>Adding and releasing routes\<close>

lemma refix:
  assumes "min_ok (hc_key m) (cm_heap m)" "i \<in> set (cm_active m)" "i < length (cm_items m)"
    and "cm_items m1 = (cm_items m)[i := x]"
  shows "min_ok (hc_key m1) (heap_Fix (hc_key m1) (cm_index m i) (cm_heap m)) \<and>
    set (fst (heap_Fix (hc_key m1) (cm_index m i) (cm_heap m))) = set (cm_active m)"
proof -
  have "hc_key m1 y = hc_key m y" if "y \<noteq> i" for y using that assms(3,4) by (simp add: hc_key_def)
  then show ?thesis using conn_queue.fix_ok [OF assms(1), of i "hc_key m1"] assms(2) by simp
qed

lemma release_effect:
  assumes inv: "cm_inv m" and r: "cm_routes m key = Some i" and m': "m' = releaseLocked key i m"
  shows "cm_connections m' = cm_connections m" and "cm_routes m' = (cm_routes m)(key := None)"
    and "set (cm_active m') = set (cm_active m)" and "length (cm_items m') = length (cm_items m)"
    and "\<And>j. hc_at m' j = (if j = i then (hc_at m i)\<lparr>hc_sessions := hc_sessions (hc_at m i) - {key}, hc_load := hc_load (hc_at m i) - 1\<rparr> else hc_at m j)"
    and "cm_conns m' = cm_conns m" and "cm_sent m' = cm_sent m" and "cm_mActive m' = cm_mActive m"
    and "cm_mRouted m' = cm_mRouted m - 1" and "min_ok (hc_key m') (cm_heap m')"
proof -
  note I = cm_invD [OF inv]
  have i: "i \<in> set (cm_active m)" "key \<in> hc_sessions (hc_at m i)" using route_active [OF I(2) r] by simp_all
  note s = stored_item [OF I(1) i(1)]
  have "0 < card (hc_sessions (hc_at m i))" using sessions_routed(2) [OF I(2) i(1)] i(2) by (auto simp: card_gt_0_iff)
  then have load: "0 < hc_load (hc_at m i)" using I(3) i(1) by (simp add: cm_loads_ok_def)
  define x where "x = (hc_at m i)\<lparr>hc_sessions := hc_sessions (hc_at m i) - {key}, hc_load := hc_load (hc_at m i) - 1\<rparr>"
  define m2 where "m2 = m\<lparr>cm_routes := (cm_routes m)(key := None), cm_mRouted := cm_mRouted m - 1, cm_items := (cm_items m)[i := x]\<rparr>"
  define h where "h = heap_Fix (hc_key m2) (cm_index m i) (cm_heap m)"
  have two: "upd_hc i (\<lambda>item. item\<lparr>hc_load := hc_load item - 1\<rparr>)
      ((upd_hc i (\<lambda>item. item\<lparr>hc_sessions := hc_sessions item - {key}\<rparr>) (m\<lparr>cm_routes := (cm_routes m)(key := None)\<rparr>))\<lparr>cm_mRouted := cm_mRouted m - 1\<rparr>) = m2"
    using s(1) by (simp add: upd_hc_def m2_def x_def)
  have res: "m' = set_active h m2"
    unfolding m' releaseLocked_def Let_def using r load s(1) by (simp add: upd_hc_at two) (simp add: h_def m2_def)
  have h: "min_ok (hc_key m2) h" "set (fst h) = set (cm_active m)"
    using refix [OF I(5) i(1) s(1), of m2 x] by (simp_all add: h_def m2_def)
  show "cm_connections m' = cm_connections m" "cm_routes m' = (cm_routes m)(key := None)"
    "set (cm_active m') = set (cm_active m)" "length (cm_items m') = length (cm_items m)"
    "\<And>j. hc_at m' j = (if j = i then (hc_at m i)\<lparr>hc_sessions := hc_sessions (hc_at m i) - {key}, hc_load := hc_load (hc_at m i) - 1\<rparr> else hc_at m j)"
    "cm_conns m' = cm_conns m" "cm_sent m' = cm_sent m" "cm_mActive m' = cm_mActive m"
    "cm_mRouted m' = cm_mRouted m - 1" "min_ok (hc_key m') (cm_heap m')"
    using s(1) h by (simp_all add: res) (simp_all add: m2_def x_def)
qed

lemma assign_effect:
  assumes inv: "cm_inv m" and i: "i \<in> set (cm_active m)" and m': "m' = assign_route key i m"
  shows "cm_connections m' = cm_connections m" and "cm_routes m' = (cm_routes m)(key \<mapsto> i)"
    and "set (cm_active m') = set (cm_active m)" and "length (cm_items m') = length (cm_items m)"
    and "\<And>j. hc_at m' j = (if j = i then (hc_at m i)\<lparr>hc_sessions := insert key (hc_sessions (hc_at m i)), hc_load := hc_load (hc_at m i) + 1\<rparr> else hc_at m j)"
    and "cm_conns m' = cm_conns m" and "cm_sent m' = cm_sent m" and "cm_mActive m' = cm_mActive m"
    and "cm_mRouted m' = cm_mRouted m + 1" and "min_ok (hc_key m') (cm_heap m')"
proof -
  note I = cm_invD [OF inv]
  note s = stored_item [OF I(1) i]
  define x where "x = (hc_at m i)\<lparr>hc_sessions := insert key (hc_sessions (hc_at m i)), hc_load := hc_load (hc_at m i) + 1\<rparr>"
  define m2 where "m2 = m\<lparr>cm_routes := (cm_routes m)(key \<mapsto> i), cm_mRouted := cm_mRouted m + 1, cm_items := (cm_items m)[i := x]\<rparr>"
  define h where "h = heap_Fix (hc_key m2) (cm_index m i) (cm_heap m)"
  have two: "upd_hc i (\<lambda>item. item\<lparr>hc_sessions := insert key (hc_sessions item), hc_load := hc_load item + 1\<rparr>)
      (m\<lparr>cm_routes := (cm_routes m)(key \<mapsto> i), cm_mRouted := cm_mRouted m + 1\<rparr>) = m2"
    by (simp add: upd_hc_def m2_def x_def)
  have res: "m' = set_active h m2"
    unfolding m' assign_route_def Let_def two by (simp add: h_def m2_def)
  have h: "min_ok (hc_key m2) h" "set (fst h) = set (cm_active m)"
    using refix [OF I(5) i s(1), of m2 x] by (simp_all add: h_def m2_def)
  show "cm_connections m' = cm_connections m" "cm_routes m' = (cm_routes m)(key \<mapsto> i)"
    "set (cm_active m') = set (cm_active m)" "length (cm_items m') = length (cm_items m)"
    "\<And>j. hc_at m' j = (if j = i then (hc_at m i)\<lparr>hc_sessions := insert key (hc_sessions (hc_at m i)), hc_load := hc_load (hc_at m i) + 1\<rparr> else hc_at m j)"
    "cm_conns m' = cm_conns m" "cm_sent m' = cm_sent m" "cm_mActive m' = cm_mActive m"
    "cm_mRouted m' = cm_mRouted m + 1" "min_ok (hc_key m') (cm_heap m')"
    using s(1) h by (simp_all add: res) (simp_all add: m2_def x_def)
qed

text \<open>The invariant after a change of one item's sessions.\<close>

lemma rerouted_ok:
  assumes inv: "cm_inv m" and i: "i \<in> set (cm_active m)"
    and same: "cm_connections m' = cm_connections m" "set (cm_active m') = set (cm_active m)"
      "length (cm_items m') = length (cm_items m)" "cm_mActive m' = cm_mActive m"
    and at: "\<And>j. hc_at m' j = (if j = i then (hc_at m i)\<lparr>hc_sessions := S, hc_load := l\<rparr> else hc_at m j)"
    and load: "l = int (card S)"
    and routes: "\<And>k j. cm_routes m' k = Some j \<longleftrightarrow> (if k \<in> D then j = i \<and> k \<in> S else cm_routes m k = Some j)"
      and S: "S - D = hc_sessions (hc_at m i) - D" and D: "\<And>k j. k \<in> D \<Longrightarrow> cm_routes m k = Some j \<Longrightarrow> j = i"
    and fin: "finite (dom (cm_routes m'))" and gauge: "cm_mRouted m' = int (card (dom (cm_routes m')))"
    and queue: "min_ok (hc_key m') (cm_heap m')"
  shows "cm_inv m'"
proof -
  note I = cm_invD [OF inv]
  have "j < length (cm_items m) \<and> hc_conn (hc_at m' j) = c" if "cm_connections m c = Some j" for c j
    using stored_active [OF I(1) that] by (cases "j = i") (simp_all add: at)
  then have "cm_items_ok m'" using I(1) same unfolding cm_items_ok_def by simp
  moreover have "cm_routes m' k = Some j \<longleftrightarrow> j \<in> set (cm_active m') \<and> k \<in> hc_sessions (hc_at m' j)" for k j
  proof -
    have old: "cm_routes m k = Some j \<longleftrightarrow> j \<in> set (cm_active m) \<and> k \<in> hc_sessions (hc_at m j)"
      using I(2) unfolding cm_routes_ok_def by blast
    have sk: "k \<notin> D \<Longrightarrow> k \<in> S \<longleftrightarrow> k \<in> hc_sessions (hc_at m i)" using S by blast
    show ?thesis
    proof (cases "j = i")
      case True
      then show ?thesis using i old sk by (auto simp: routes same(2) at)
    next
      case False
      then show ?thesis using old D [of k j] by (auto simp: routes same(2) at)
    qed
  qed
  then have "cm_routes_ok m'" using fin by (simp add: cm_routes_ok_def)
  moreover have "cm_loads_ok m'" using I(3) load by (simp add: cm_loads_ok_def same(2) at)
  moreover have "cm_gauges_ok m'" using I(4) gauge by (simp add: cm_gauges_ok_def same)
  ultimately show ?thesis using queue by (simp add: cm_inv_def)
qed

lemma route_release_ok:
  assumes inv: "cm_inv m" and r: "cm_routes m key = Some i"
  shows "cm_inv (releaseLocked key i m)"
proof -
  define m' where "m' = releaseLocked key i m"
  note I = cm_invD [OF inv] and e = release_effect [OF inv r m'_def]
  have i: "i \<in> set (cm_active m)" "key \<in> hc_sessions (hc_at m i)" using route_active [OF I(2) r] by simp_all
  have fin: "finite (dom (cm_routes m))" using I(2) by (simp add: cm_routes_ok_def)
  note sf = sessions_routed(2) [OF I(2) i(1)]
  have pos: "0 < card (hc_sessions (hc_at m i))" using sf i(2) by (auto simp: card_gt_0_iff)
  have "0 < card (dom (cm_routes m))" using fin r by (auto simp: card_gt_0_iff)
  then have gauge: "cm_mRouted m' = int (card (dom (cm_routes m')))"
    using I(4) fin r by (simp add: e(2,9) cm_gauges_ok_def domI of_nat_diff)
  have load: "hc_load (hc_at m i) - 1 = int (card (hc_sessions (hc_at m i) - {key}))"
    using I(3) i sf pos by (simp add: cm_loads_ok_def of_nat_diff)
  have "cm_inv m'"
  proof (rule rerouted_ok [OF inv i(1) e(1,3,4,8) e(5) load, of "{key}"])
    show "cm_routes m' k = Some j \<longleftrightarrow> (if k \<in> {key} then j = i \<and> k \<in> hc_sessions (hc_at m i) - {key} else cm_routes m k = Some j)" for k j
      by (simp add: e(2))
    show "j = i" if "k \<in> {key}" "cm_routes m k = Some j" for k j using that r by simp
    show "finite (dom (cm_routes m'))" using fin by (simp add: e(2))
  qed (use gauge e(10) in auto)
  then show ?thesis by (simp add: m'_def)
qed

lemma route_assign_ok:
  assumes inv: "cm_inv m" and i: "i \<in> set (cm_active m)" and new: "cm_routes m key = None"
  shows "cm_inv (assign_route key i m)"
proof -
  define m' where "m' = assign_route key i m"
  note I = cm_invD [OF inv] and e = assign_effect [OF inv i m'_def]
  have fin: "finite (dom (cm_routes m))" using I(2) by (simp add: cm_routes_ok_def)
  note sf = sessions_routed [OF I(2) i]
  have out: "key \<notin> hc_sessions (hc_at m i)" using sf(1) new by simp
  have gauge: "cm_mRouted m' = int (card (dom (cm_routes m')))"
    using I(4) fin new by (simp add: e(2,9) cm_gauges_ok_def card_insert_if domIff)
  have load: "hc_load (hc_at m i) + 1 = int (card (insert key (hc_sessions (hc_at m i))))"
    using I(3) i sf(2) out by (simp add: cm_loads_ok_def)
  have "cm_inv m'"
  proof (rule rerouted_ok [OF inv i e(1,3,4,8) e(5) load, of "{key}"])
    show "cm_routes m' k = Some j \<longleftrightarrow> (if k \<in> {key} then j = i \<and> k \<in> insert key (hc_sessions (hc_at m i)) else cm_routes m k = Some j)" for k j
      by (auto simp: e(2))
    show "j = i" if "k \<in> {key}" "cm_routes m k = Some j" for k j using that new by simp
    show "finite (dom (cm_routes m'))" using fin by (simp add: e(2))
  qed (use gauge e(10) in auto)
  then show ?thesis by (simp add: m'_def)
qed

lemma cm_Release_ok: "cm_inv m \<Longrightarrow> cm_inv (cm_Release key m)"
  by (simp add: cm_Release_def route_release_ok split: option.splits)

lemma cm_Remove_ok: "cm_inv m \<Longrightarrow> cm_inv (cm_Remove c m)"
  using stored_active [OF cm_invD(1)] by (simp add: cm_Remove_def conn_remove_ok split: option.splits)

lemma Lookup_ok: "cm_inv m \<Longrightarrow> cm_inv (fst (Lookup key m))"
  using route_active [OF cm_invD(2)] by (simp add: Lookup_def conn_remove_ok split: option.splits)

text \<open>Connections, the frames sent and new connections are not part of the invariant.\<close>

lemma cm_inv_frame:
  assumes "cm_inv m" "cm_connections m' = cm_connections m" "cm_routes m' = cm_routes m" "cm_active m' = cm_active m"
    "cm_index m' = cm_index m" "cm_items m' = cm_items m" "cm_mActive m' = cm_mActive m" "cm_mRouted m' = cm_mRouted m"
  shows "cm_inv m'"
proof -
  have "hc_key m' = hc_key m" using assms(6) by (rule hc_key_items)
  then show ?thesis
    using assms by (simp add: cm_inv_def cm_items_ok_def cm_routes_ok_def cm_loads_ok_def cm_gauges_ok_def)
qed

lemma upd_conn_ok: "cm_inv m \<Longrightarrow> cm_inv (upd_conn c f m)"
  by (erule cm_inv_frame) (simp_all add: upd_conn_def)

lemma NewConnection_ok: "cm_inv m \<Longrightarrow> cm_inv (NewConnection m)"
  by (erule cm_inv_frame) (simp_all add: NewConnection_def)

lemma Write_ok: "cm_inv m \<Longrightarrow> cm_inv (fst (machine_Write io c key packet m))"
  by (erule cm_inv_frame) (simp_all add: machine_Write_def Let_def)


section \<open>Selection\<close>

text \<open>
  What \<open>Select\<close> does for a session without a usable route: it drops connections that are not active with
  their routes, and gives the session the least-loaded active one, if there is one.
\<close>

definition live_conn :: "ConnectionManager \<Rightarrow> nat \<Rightarrow> nat \<Rightarrow> bool" where
  "live_conn m c i \<longleftrightarrow> cm_connections m c = Some i \<and> conn_state m c = ConnectionActive"

definition others_kept :: "SessionKey \<Rightarrow> ConnectionManager \<Rightarrow> ConnectionManager \<Rightarrow> bool" where
  "others_kept key m m' \<longleftrightarrow>
     (\<forall>k i. k \<noteq> key \<longrightarrow> cm_routes m k = Some i \<longrightarrow> item_live m i \<longrightarrow> cm_routes m' k = Some i) \<and>
     (\<forall>k i. k \<noteq> key \<longrightarrow> cm_routes m' k = Some i \<longrightarrow> cm_routes m k = Some i) \<and>
     (\<forall>c i. live_conn m c i \<longrightarrow> cm_connections m' c = Some i) \<and>
     (\<forall>c i. cm_connections m' c = Some i \<longrightarrow> cm_connections m c = Some i)"

definition assigned :: "SessionKey \<Rightarrow> ConnectionManager \<Rightarrow> ConnectionManager \<Rightarrow> nat option \<Rightarrow> bool" where
  "assigned key m m' r \<longleftrightarrow>
     (case r of
        None \<Rightarrow> (\<forall>c i. \<not> live_conn m c i) \<and> cm_routes m' key = None
      | Some c \<Rightarrow> (\<exists>i. live_conn m c i \<and> cm_routes m' key = Some i \<and> (\<forall>c' j. live_conn m c' j \<longrightarrow> hc_key m i \<le> hc_key m j)))"

definition selected :: "SessionKey \<Rightarrow> ConnectionManager \<Rightarrow> ConnectionManager \<Rightarrow> nat option \<Rightarrow> bool" where
  "selected key m m' r \<longleftrightarrow>
     cm_conns m' = cm_conns m \<and> cm_sent m' = cm_sent m \<and> others_kept key m m' \<and> assigned key m m' r"

lemma others_keptD:
  assumes "others_kept key m m'"
  shows "\<And>k i. k \<noteq> key \<Longrightarrow> cm_routes m k = Some i \<Longrightarrow> item_live m i \<Longrightarrow> cm_routes m' k = Some i"
    and "\<And>k i. k \<noteq> key \<Longrightarrow> cm_routes m' k = Some i \<Longrightarrow> cm_routes m k = Some i"
    and "\<And>c i. live_conn m c i \<Longrightarrow> cm_connections m' c = Some i"
    and "\<And>c i. cm_connections m' c = Some i \<Longrightarrow> cm_connections m c = Some i"
  using assms unfolding others_kept_def by blast+

lemma selectedD:
  assumes "selected key m m' r"
  shows "cm_conns m' = cm_conns m" "cm_sent m' = cm_sent m" "others_kept key m m'" "assigned key m m' r"
  using assms unfolding selected_def by simp_all

lemma selected_step:
  assumes inv: "cm_inv m" and i: "i \<in> set (cm_active m)" and dead: "\<not> item_live m i"
    and sel: "selected key (removeConnectionLocked i m) m' r"
  shows "selected key m m' r"
proof -
  define m1 where "m1 = removeConnectionLocked i m"
  note I = cm_invD [OF inv] and e = remove_effect [OF inv i m1_def]
  note s = selectedD [OF sel [folded m1_def]]
  note k = others_keptD [OF s(3)]
  have conn1: "cm_conns m1 = cm_conns m" and key1: "hc_key m1 j = hc_key m j" and hconn1: "hc_conn (hc_at m1 j) = hc_conn (hc_at m j)" for j
    by (simp_all add: e(6) hc_key_def e(5))
  have live1: "live_conn m1 c j \<longleftrightarrow> live_conn m c j" for c j using dead by (auto simp: live_conn_def conn1 e(1))
  have sub: "cm_connections m c = Some j" if "cm_connections m1 c = Some j" for c j using that by (auto simp: e(1) split: if_splits)
  have rsub: "cm_routes m k = Some j" if "cm_routes m1 k = Some j" for k j using that by (auto simp: e(2) split: if_splits)
  have rkeep: "cm_routes m1 k = Some j" if "cm_routes m k = Some j" "item_live m j" for k j using that dead by (auto simp: e(2))
  have "others_kept key m m'"
    unfolding others_kept_def
  proof (intro conjI allI impI)
    show "cm_routes m' k = Some j" if "k \<noteq> key" "cm_routes m k = Some j" "item_live m j" for k j
      using k(1) [OF that(1) rkeep [OF that(2,3)]] that(3) by (simp add: conn1 hconn1)
    show "cm_routes m k = Some j" if "k \<noteq> key" "cm_routes m' k = Some j" for k j by (rule rsub [OF k(2) [OF that]])
    show "cm_connections m' c = Some j" if "live_conn m c j" for c j using that by (intro k(3)) (simp add: live1)
    show "cm_connections m c = Some j" if "cm_connections m' c = Some j" for c j by (rule sub [OF k(4) [OF that]])
  qed
  moreover have "assigned key m m' r" using s(4) by (cases r) (simp_all add: assigned_def live1 key1)
  ultimately show ?thesis using s(1,2) by (simp add: selected_def e(6,7))
qed

lemma select_loop_ok:
  assumes "cm_inv m" "cm_routes m key = None"
  shows "\<exists>m' r. select_loop key m = Some (m', r) \<and> cm_inv m' \<and> selected key m m' r"
  using assms
proof (induction "card (set (cm_active m))" arbitrary: m rule: less_induct)
  case less
  note I = cm_invD [OF less.prems(1)]
  show ?case
  proof (cases "cm_active m")
    case Nil
    then have "ran (cm_connections m) = {}" using I(1) by (simp add: cm_items_ok_def)
    then have "\<not> live_conn m c i" for c i by (auto simp: live_conn_def ran_def)
    then have "selected key m m None" using less.prems(2) by (simp add: selected_def others_kept_def assigned_def)
    moreover have "select_loop key m = Some (m, None)" by (subst select_loop.simps) (simp add: Nil)
    ultimately show ?thesis using less.prems(1) by blast
  next
    case (Cons i rest)
    then have i: "i \<in> set (cm_active m)" by simp
    note st = stored_item [OF I(1) i]
    show ?thesis
    proof (cases "item_live m i")
      case True
      define m' where "m' = assign_route key i m"
      note e = assign_effect [OF less.prems(1) i m'_def]
      have "select_loop key m = Some (m', Some (hc_conn (hc_at m i)))"
        by (subst select_loop.simps) (simp add: Cons True m'_def)
      moreover have "cm_inv m'" unfolding m'_def by (rule route_assign_ok [OF less.prems(1) i less.prems(2)])
      moreover have "selected key m m' (Some (hc_conn (hc_at m i)))"
      proof -
        have least: "hc_key m i \<le> hc_key m j" if "j \<in> set (cm_active m)" for j
          using conn_queue.ok_first [OF I(5), of j] that by (simp add: Cons)
        have "hc_key m i \<le> hc_key m j" if "live_conn m c' j" for c' j
          using stored_active [OF I(1), of c' j] that least [of j] by (simp add: live_conn_def)
        then have "assigned key m m' (Some (hc_conn (hc_at m i)))" using st(2) True by (simp add: assigned_def live_conn_def e(2))
        moreover have "others_kept key m m'" by (simp add: others_kept_def e(1,2) live_conn_def)
        ultimately show ?thesis by (simp add: selected_def e(6,7))
      qed
      ultimately show ?thesis by blast
    next
      case False
      define m1 where "m1 = removeConnectionLocked i m"
      note e = remove_effect [OF less.prems(1) i m1_def]
      have "card (set (cm_active m1)) < card (set (cm_active m))" unfolding e(3) using i by (intro psubset_card_mono) auto
      moreover have inv1: "cm_inv m1" unfolding m1_def by (rule conn_remove_ok [OF less.prems(1) i])
      moreover have "cm_routes m1 key = None" using less.prems(2) by (simp add: e(2))
      ultimately obtain m' r where r: "select_loop key m1 = Some (m', r)" "cm_inv m'" "selected key m1 m' r"
        using less.hyps by blast
      have "select_loop key m = Some (m', r)" using r(1) by (subst select_loop.simps) (simp add: Cons False m1_def)
      then show ?thesis using r(2,3) selected_step [OF less.prems(1) i False, of key m' r] by (simp add: m1_def)
    qed
  qed
qed

lemma Select_ok:
  assumes inv: "cm_inv m"
  shows "\<exists>m' r. Select key m = Some (m', r) \<and> cm_inv m' \<and>
    (case cm_routes m key of
       Some i \<Rightarrow> if item_live m i then m' = m \<and> r = Some (hc_conn (hc_at m i)) else selected key m m' r
     | None \<Rightarrow> selected key m m' r)"
proof (cases "cm_routes m key")
  case None
  then show ?thesis using select_loop_ok [OF inv None] by (simp add: Select_def)
next
  case (Some i)
  note i = route_active [OF cm_invD(2) [OF inv] Some]
  show ?thesis
  proof (cases "item_live m i")
    case True
    then show ?thesis using Some inv by (simp add: Select_def)
  next
    case False
    define m1 where "m1 = removeConnectionLocked i m"
    have inv1: "cm_inv m1" unfolding m1_def by (rule conn_remove_ok [OF inv conjunct1 [OF i]])
    have "cm_routes m1 key = None" using remove_effect(2) [OF inv _ m1_def] i Some by simp
    then obtain m' r where r: "select_loop key m1 = Some (m', r)" "cm_inv m'" "selected key m1 m' r"
      using select_loop_ok [OF inv1] by blast
    have "selected key m m' r" using selected_step [OF inv _ False, of key m' r] i r(3) by (simp add: m1_def)
    moreover have "Select key m = Some (m', r)" using Some False r(1) by (simp add: Select_def m1_def)
    ultimately show ?thesis using Some False r(2) by simp
  qed
qed


section \<open>Histories\<close>

text \<open>An active connection has a socket, and only connections that exist are stored.\<close>

definition sockets_ok :: "ConnectionManager \<Rightarrow> bool" where
  "sockets_ok m \<longleftrightarrow>
     (\<forall>x\<in>set (cm_conns m). mc_state x = ConnectionActive \<longrightarrow> mc_socket x) \<and> dom (cm_connections m) \<subseteq> {..<length (cm_conns m)}"

definition machine_inv :: "ConnectionManager \<Rightarrow> bool" where
  "machine_inv m \<longleftrightarrow> cm_inv m \<and> sockets_ok m"

lemma machine_invI: "cm_inv m' \<Longrightarrow> sockets_ok m \<Longrightarrow> cm_conns m' = cm_conns m \<Longrightarrow>
    dom (cm_connections m') \<subseteq> dom (cm_connections m) \<Longrightarrow> machine_inv m'"
  by (auto simp: machine_inv_def sockets_ok_def)

lemma live_socket: "sockets_ok m \<Longrightarrow> live_conn m c i \<Longrightarrow> c < length (cm_conns m) \<and> mc_socket (cm_conns m ! c)"
  by (force simp: sockets_ok_def live_conn_def)

text \<open>What \<open>Select\<close> gives, whether or not the session had a route.\<close>

definition routed :: "SessionKey \<Rightarrow> ConnectionManager \<Rightarrow> ConnectionManager \<Rightarrow> nat option \<Rightarrow> bool" where
  "routed key m m' r \<longleftrightarrow>
     cm_conns m' = cm_conns m \<and> cm_sent m' = cm_sent m \<and> live_conn m' = live_conn m \<and>
     dom (cm_connections m') \<subseteq> dom (cm_connections m) \<and>
     (case r of None \<Rightarrow> (\<forall>c i. \<not> live_conn m c i) \<and> cm_routes m' key = None
      | Some c \<Rightarrow> (\<exists>i. live_conn m c i \<and> cm_routes m' key = Some i))"

lemma selected_routed:
  assumes sel: "selected key m m' r"
  shows "routed key m m' r"
proof -
  note s = selectedD [OF sel]
  note k = others_keptD [OF s(3)]
  have "live_conn m' c i \<longleftrightarrow> live_conn m c i" for c i
    using k(3) [of c i] k(4) [of c i] by (auto simp: live_conn_def s(1))
  then have "live_conn m' = live_conn m" by blast
  moreover have "dom (cm_connections m') \<subseteq> dom (cm_connections m)" using k(4) by blast
  moreover have "case r of None \<Rightarrow> (\<forall>c i. \<not> live_conn m c i) \<and> cm_routes m' key = None
      | Some c \<Rightarrow> (\<exists>i. live_conn m c i \<and> cm_routes m' key = Some i)"
    using s(4) by (cases r) (auto simp: assigned_def)
  ultimately show ?thesis using s(1,2) by (simp add: routed_def)
qed

lemma Select_routed:
  assumes inv: "machine_inv m"
  obtains m' r where "Select key m = Some (m', r)" "machine_inv m'" "routed key m m' r"
proof -
  have cinv: "cm_inv m" and sock: "sockets_ok m" using inv by (simp_all add: machine_inv_def)
  obtain m' r where r: "Select key m = Some (m', r)" "cm_inv m'"
    "case cm_routes m key of
       Some i \<Rightarrow> if item_live m i then m' = m \<and> r = Some (hc_conn (hc_at m i)) else selected key m m' r
     | None \<Rightarrow> selected key m m' r" using Select_ok [OF cinv, of key] by blast
  have "routed key m m' r"
  proof (cases "\<exists>i. cm_routes m key = Some i \<and> item_live m i")
    case True
    then obtain i where i: "cm_routes m key = Some i" "item_live m i" by blast
    then have "m' = m" "r = Some (hc_conn (hc_at m i))" using r(3) by simp_all
    moreover have "live_conn m (hc_conn (hc_at m i)) i"
      using stored_item(2) [OF cm_invD(1) [OF cinv]] route_active [OF cm_invD(2) [OF cinv] i(1)] i(2) by (simp add: live_conn_def)
    ultimately show ?thesis using i(1) by (simp add: routed_def)
  next
    case False
    then have "selected key m m' r" using r(3) by (auto split: option.splits if_splits)
    then show ?thesis by (rule selected_routed)
  qed
  moreover from this have "machine_inv m'" using r(2) sock by (intro machine_invI [of m' m]) (simp_all add: routed_def)
  ultimately show ?thesis using that r(1) by blast
qed

lemma Remove_conn:
  assumes inv: "machine_inv m" and m': "m' = cm_Remove c m"
  shows "machine_inv m'" "cm_conns m' = cm_conns m" "cm_sent m' = cm_sent m"
    "live_conn m' c' i \<longleftrightarrow> live_conn m c' i \<and> c' \<noteq> c"
proof -
  have cinv: "cm_inv m" and sock: "sockets_ok m" using inv by (simp_all add: machine_inv_def)
  have "cm_conns m' = cm_conns m \<and> cm_sent m' = cm_sent m \<and> cm_connections m' = (cm_connections m)(c := None)"
  proof (cases "cm_connections m c")
    case None
    then show ?thesis by (auto simp: m' cm_Remove_def)
  next
    case (Some i)
    note t = stored_active [OF cm_invD(1) [OF cinv] Some]
    have "m' = removeConnectionLocked i m" by (simp add: m' cm_Remove_def Some)
    note e = remove_effect [OF cinv conjunct1 [OF t] this]
    show ?thesis using t by (simp add: e(1,6,7))
  qed
  then have f: "cm_conns m' = cm_conns m" "cm_sent m' = cm_sent m" "cm_connections m' = (cm_connections m)(c := None)" by simp_all
  show "cm_conns m' = cm_conns m" "cm_sent m' = cm_sent m" by (fact f)+
  show "live_conn m' c' i \<longleftrightarrow> live_conn m c' i \<and> c' \<noteq> c" by (auto simp: live_conn_def f)
  show "machine_inv m'" using cm_Remove_ok [OF cinv, of c] sock by (intro machine_invI [of m' m]) (auto simp: f m' [symmetric])
qed

lemma Release_conn:
  assumes inv: "machine_inv m" and m': "m' = cm_Release key m"
  shows "machine_inv m'" "cm_sent m' = cm_sent m" "cm_routes m' key = None" "live_conn m' = live_conn m" "cm_conns m' = cm_conns m"
proof -
  have cinv: "cm_inv m" and sock: "sockets_ok m" using inv by (simp_all add: machine_inv_def)
  have f: "cm_conns m' = cm_conns m \<and> cm_sent m' = cm_sent m \<and> cm_connections m' = cm_connections m \<and> cm_routes m' key = None"
  proof (cases "cm_routes m key")
    case (Some i)
    then have "m' = releaseLocked key i m" by (simp add: m' cm_Release_def)
    note e = release_effect [OF cinv Some this]
    show ?thesis by (simp add: e(1,2,6,7))
  qed (simp add: m' cm_Release_def)
  then show "cm_sent m' = cm_sent m" "cm_routes m' key = None" "cm_conns m' = cm_conns m" by simp_all
  show "live_conn m' = live_conn m" using f by (intro ext) (simp add: live_conn_def)
  show "machine_inv m'" using cm_Release_ok [OF cinv, of key] sock f by (intro machine_invI [of m' m]) (simp_all add: m' [symmetric])
qed

lemma Write_conn:
  assumes inv: "machine_inv m" and live: "live_conn m c i" and m': "(m', ok) = machine_Write io c key packet m"
  shows "machine_inv m'" "ok = io" "live_conn m' = live_conn m" "cm_routes m' = cm_routes m"
    "cm_sent m' = (if io then cm_sent m @ [(c, key @ fst (Packet_Header packet) @ contents (pk_Payload packet))] else cm_sent m)"
proof -
  have cinv: "cm_inv m" and sock: "sockets_ok m" using inv by (simp_all add: machine_inv_def)
  have w: "machine_Write io c key packet m =
      (m\<lparr>cm_sent := (if io then cm_sent m @ [(c, key @ fst (Packet_Header packet) @ contents (pk_Payload packet))] else cm_sent m)\<rparr>, io)"
    using live_socket [OF sock live] live by (simp add: machine_Write_def live_conn_def Let_def)
  then show "ok = io" "cm_routes m' = cm_routes m"
    "cm_sent m' = (if io then cm_sent m @ [(c, key @ fst (Packet_Header packet) @ contents (pk_Payload packet))] else cm_sent m)"
    using m' by simp_all
  show "live_conn m' = live_conn m" using m' w by (intro ext) (simp add: live_conn_def)
  have "cm_inv m'" using Write_ok [OF cinv, of io c key packet] m' [symmetric] by simp
  then show "machine_inv m'" using sock m' w by (intro machine_invI [of m' m]) simp_all
qed


text \<open>The search of \<open>onSessionDelete\<close> is a \<open>Select\<close>: \<open>Lookup\<close> only saves it the loop.\<close>

lemma find_is_Select:
  assumes inv: "cm_inv m"
  shows "(case Lookup key m of (m1, Some c) \<Rightarrow> Some (m1, Some c) | (m1, None) \<Rightarrow> Select key m1) = Select key m"
proof (cases "cm_routes m key")
  case (Some i)
  note i = conjunct1 [OF route_active [OF cm_invD(2) [OF inv] Some]]
  have "cm_routes (removeConnectionLocked i m) key = None" using remove_effect(2) [OF inv i refl] Some by simp
  then show ?thesis using Some by (simp add: Lookup_def Select_def)
qed (simp add: Lookup_def)

definition close_frame :: "SessionKey \<Rightarrow> Packet \<Rightarrow> bytes" where
  "close_frame key pk = key @ fst (Packet_Header (close_packet pk)) @ contents (pk_Payload pk)"

lemma delete_cases:
  assumes inv: "machine_inv m"
  obtains m' told where "onSessionDelete pk io1 io2 key m = Some (m', told)" "machine_inv m'" "cm_routes m' key = None"
    "if told then \<exists>c i. live_conn m c i \<and> cm_sent m' = cm_sent m @ [(c, close_frame key pk)] else cm_sent m' = cm_sent m"
    "\<And>c i. live_conn m c i \<Longrightarrow> io1 \<Longrightarrow> told"
    "\<And>c i c' i'. live_conn m c i \<Longrightarrow> live_conn m c' i' \<Longrightarrow> c \<noteq> c' \<Longrightarrow> io2 \<Longrightarrow> told"
proof -
  let ?p = "close_packet pk"
  have pay: "key @ fst (Packet_Header ?p) @ contents (pk_Payload ?p) = close_frame key pk" by (simp add: close_frame_def close_packet_def)
  have cinv: "cm_inv m" using inv by (simp add: machine_inv_def)
  obtain m1 r where s: "Select key m = Some (m1, r)" "machine_inv m1" "routed key m m1 r" by (rule Select_routed [OF inv])
  have live1: "live_conn m1 = live_conn m" and sent1: "cm_sent m1 = cm_sent m" using s(3) by (simp_all add: routed_def)
  show ?thesis
  proof (cases r)
    case None
    have "onSessionDelete pk io1 io2 key m = Some (cm_Release key m1, False)"
      by (simp add: onSessionDelete_def Let_def find_is_Select [OF cinv] s(1) None)
    moreover have "\<not> live_conn m c i" for c i using s(3) None by (simp add: routed_def)
    ultimately show ?thesis
      using that [of "cm_Release key m1" False] Release_conn [OF s(2) refl, of key] sent1 by simp
  next
    case (Some c)
    obtain i where i: "live_conn m c i" using s(3) Some by (auto simp: routed_def)
    obtain m2 ok where w: "(m2, ok) = machine_Write io1 c key ?p m1" by (metis surj_pair)
    have i1: "live_conn m1 c i" using i by (simp add: live1)
    note w1 = Write_conn [OF s(2) i1 w, unfolded pay]
    show ?thesis
    proof (cases io1)
      case True
      have "onSessionDelete pk io1 io2 key m = Some (cm_Release key m2, True)"
      proof -
        have "machine_Write True c key ?p m1 = (m2, True)" using w w1(2) True by simp
        then show ?thesis using True by (simp add: onSessionDelete_def Let_def find_is_Select [OF cinv] s(1) Some)
      qed
      then show ?thesis
        using that [of "cm_Release key m2" True] Release_conn [OF w1(1) refl, of key] w1(5) sent1 i True by auto
    next
      case False
      define m3 where "m3 = cm_Remove c m2"
      note r3 = Remove_conn [OF w1(1) m3_def]
      have live3: "live_conn m3 c' i' \<longleftrightarrow> live_conn m c' i' \<and> c' \<noteq> c" for c' i' using r3(4) by (simp add: w1(3) live1)
      have sent3: "cm_sent m3 = cm_sent m" using r3(3) w1(5) False sent1 by simp
      obtain m4 r' where t: "Select key m3 = Some (m4, r')" "machine_inv m4" "routed key m3 m4 r'" by (rule Select_routed [OF r3(1)])
      have live4: "live_conn m4 = live_conn m3" and sent4: "cm_sent m4 = cm_sent m" using t(3) sent3 by (simp_all add: routed_def)
      have del: "onSessionDelete pk io1 io2 key m =
          (case r' of None \<Rightarrow> Some (cm_Release key m4, False)
           | Some c' \<Rightarrow> (case machine_Write io2 c' key ?p m4 of
                (m4, True) \<Rightarrow> Some (cm_Release key m4, True) | (m4, False) \<Rightarrow> Some (cm_Release key (cm_Remove c' m4), False)))"
      proof -
        have "machine_Write False c key ?p m1 = (m2, False)" using w w1(2) False by simp
        then show ?thesis
          using False by (simp add: onSessionDelete_def Let_def find_is_Select [OF cinv] s(1) Some m3_def [symmetric] t(1))
      qed
      show ?thesis
      proof (cases r')
        case None
        have "\<not> live_conn m3 c' i'" for c' i' using t(3) None by (simp add: routed_def)
        then have only: "live_conn m c' i' \<Longrightarrow> c' = c" for c' i' using live3 by blast
        show ?thesis
        proof (rule that [of "cm_Release key m4" False])
          show "onSessionDelete pk io1 io2 key m = Some (cm_Release key m4, False)" by (simp add: del None)
          show False if "live_conn m a x" "live_conn m b y" "a \<noteq> b" for a b x y
            using only [OF that(1)] only [OF that(2)] that(3) by simp
        qed (use Release_conn [OF t(2) refl, of key] sent4 False in simp_all)
      next
        case (Some c')
        obtain i' where i': "live_conn m3 c' i'" using t(3) Some by (auto simp: routed_def)
        then have i4: "live_conn m4 c' i'" and im: "live_conn m c' i'" using live3 by (simp_all add: live4)
        obtain m5 ok' where w': "(m5, ok') = machine_Write io2 c' key ?p m4" by (metis surj_pair)
        note w2 = Write_conn [OF t(2) i4 w', unfolded pay]
        show ?thesis
        proof (cases io2)
          case True
          have "onSessionDelete pk io1 io2 key m = Some (cm_Release key m5, True)"
          proof -
            have "machine_Write True c' key ?p m4 = (m5, True)" using w' w2(2) True by simp
            then show ?thesis unfolding del using True by (simp add: Some)
          qed
          then show ?thesis
            using that [of "cm_Release key m5" True] Release_conn [OF w2(1) refl, of key] w2(5) sent4 im True by auto
        next
          case io2: False
          have "onSessionDelete pk io1 io2 key m = Some (cm_Release key (cm_Remove c' m5), False)"
          proof -
            have "machine_Write False c' key ?p m4 = (m5, False)" using w' w2(2) io2 by simp
            then show ?thesis unfolding del using io2 by (simp add: Some)
          qed
          then show ?thesis
            using that [of "cm_Release key (cm_Remove c' m5)" False] Release_conn [OF Remove_conn(1) [OF w2(1) refl] refl, of key]
              Remove_conn(3) [OF w2(1) refl] w2(5) sent4 io2 False by simp
        qed
      qed
    qed
  qed
qed


text \<open>
  A history is a list of operations of any goroutine. \<open>MoOpen\<close> and \<open>MoStore\<close> are the two halves of \<open>OnOpen\<close>, \<open>MoClosing\<close>,
  \<open>MoUnplug\<close> and \<open>MoRemove\<close> the three of \<open>OnClose\<close>; the senders and \<open>onSessionDelete\<close> contribute the others.
\<close>

datatype machine_op =
    MoNew | MoOpen nat | MoStore nat | MoClosing nat | MoUnplug nat | MoRemove nat
  | MoSelect SessionKey | MoLookup SessionKey | MoRelease SessionKey
  | MoWrite bool nat SessionKey Packet | MoDelete Packet bool bool SessionKey

fun machine_step :: "machine_op \<Rightarrow> ConnectionManager \<Rightarrow> ConnectionManager" where
  "machine_step MoNew m = NewConnection m"
| "machine_step (MoOpen c) m =
     (if c < length (cm_conns m) \<and> conn_state m c = ConnectionUnknown
      then upd_conn c (\<lambda>x. x\<lparr>mc_socket := True, mc_state := ConnectionActive\<rparr>) m else m)"
| "machine_step (MoStore c) m = (if c < length (cm_conns m) \<and> conn_state m c \<noteq> ConnectionUnknown then cm_Store c m else m)"
| "machine_step (MoClosing c) m = upd_conn c (\<lambda>x. x\<lparr>mc_state := ConnectionClosed\<rparr>) m"
| "machine_step (MoUnplug c) m =
     (if conn_state m c = ConnectionClosed then upd_conn c (\<lambda>x. x\<lparr>mc_socket := False\<rparr>) m else m)"
| "machine_step (MoRemove c) m = cm_Remove c m"
| "machine_step (MoSelect key) m = (case Select key m of Some (m', _) \<Rightarrow> m' | None \<Rightarrow> m)"
| "machine_step (MoLookup key) m = fst (Lookup key m)"
| "machine_step (MoRelease key) m = cm_Release key m"
| "machine_step (MoWrite io c key packet) m = fst (machine_Write io c key packet m)"
| "machine_step (MoDelete pk io1 io2 key) m = (case onSessionDelete pk io1 io2 key m of Some (m', _) \<Rightarrow> m' | None \<Rightarrow> m)"

lemma upd_conn_inv:
  assumes "machine_inv m" "c < length (cm_conns m) \<Longrightarrow> mc_state (f (cm_conns m ! c)) = ConnectionActive \<Longrightarrow> mc_socket (f (cm_conns m ! c))"
  shows "machine_inv (upd_conn c f m)"
proof -
  have "mc_socket x" if "x \<in> set (cm_conns (upd_conn c f m))" "mc_state x = ConnectionActive" for x
  proof (cases "c < length (cm_conns m)")
    case True
    have "x = f (cm_conns m ! c) \<or> x \<in> set (cm_conns m)"
      using that(1) set_update_subset_insert [of "cm_conns m" c] by (auto simp: upd_conn_def)
    then show ?thesis using assms that(2) True by (auto simp: machine_inv_def sockets_ok_def)
  next
    case False
    then have "cm_conns (upd_conn c f m) = cm_conns m" by (simp add: upd_conn_def list_update_beyond)
    then show ?thesis using assms(1) that by (simp add: machine_inv_def sockets_ok_def)
  qed
  then show ?thesis using assms(1) upd_conn_ok [of m c f] by (simp add: machine_inv_def sockets_ok_def upd_conn_def)
qed

lemma Store_inv:
  assumes "machine_inv m" "c < length (cm_conns m)"
  shows "machine_inv (cm_Store c m)"
proof -
  have "cm_conns (cm_Store c m) = cm_conns m" "dom (cm_connections (cm_Store c m)) \<subseteq> insert c (dom (cm_connections m))"
    by (auto simp: cm_Store_def Let_def)
  then show ?thesis using assms cm_Store_ok [of m c] by (auto simp: machine_inv_def sockets_ok_def)
qed

lemma Lookup_inv:
  assumes inv: "machine_inv m"
  shows "machine_inv (fst (Lookup key m))"
proof (cases "\<exists>i. cm_routes m key = Some i \<and> \<not> item_live m i")
  case True
  then obtain i where i: "cm_routes m key = Some i" "\<not> item_live m i" by blast
  have cinv: "cm_inv m" using inv by (simp add: machine_inv_def)
  note a = conjunct1 [OF route_active [OF cm_invD(2) [OF cinv] i(1)]]
  have "fst (Lookup key m) = cm_Remove (hc_conn (hc_at m i)) m"
    using i stored_item(2) [OF cm_invD(1) [OF cinv] a] by (simp add: Lookup_def cm_Remove_def)
  then show ?thesis using Remove_conn(1) [OF inv refl] by simp
next
  case False
  then have "fst (Lookup key m) = m" by (auto simp: Lookup_def split: option.splits)
  then show ?thesis using inv by simp
qed

lemma machine_step_inv: "machine_inv m \<Longrightarrow> machine_inv (machine_step op m)"
proof (cases op)
  case MoNew
  assume "machine_inv m"
  then show ?thesis using NewConnection_ok [of m] by (auto simp: MoNew machine_inv_def sockets_ok_def NewConnection_def)
next
  case (MoSelect key)
  assume inv: "machine_inv m"
  obtain m' r where "Select key m = Some (m', r)" "machine_inv m'" by (rule Select_routed [OF inv])
  then show ?thesis by (simp add: MoSelect)
next
  case (MoClosing c)
  assume "machine_inv m"
  then show ?thesis unfolding MoClosing machine_step.simps by (rule upd_conn_inv) simp
next
  case (MoUnplug c)
  assume inv: "machine_inv m"
  then have "machine_inv (upd_conn c (\<lambda>x. x\<lparr>mc_socket := False\<rparr>) m)" if "conn_state m c = ConnectionClosed"
    by (rule upd_conn_inv) (simp add: that)
  then show ?thesis using inv by (simp add: MoUnplug)
next
  case (MoWrite io c key packet)
  assume inv: "machine_inv m"
  have f: "cm_conns (fst (machine_Write io c key packet m)) = cm_conns m"
    "cm_connections (fst (machine_Write io c key packet m)) = cm_connections m" by (simp_all add: machine_Write_def Let_def)
  show ?thesis using inv Write_ok [of m io c key packet] unfolding MoWrite machine_step.simps machine_inv_def sockets_ok_def f by simp
next
  case (MoDelete pk io1 io2 key)
  assume inv: "machine_inv m"
  obtain m' told where "onSessionDelete pk io1 io2 key m = Some (m', told)" "machine_inv m'" by (rule delete_cases [OF inv])
  then show ?thesis by (simp add: MoDelete)
qed (simp_all add: upd_conn_inv Store_inv Lookup_inv Remove_conn(1) [OF _ refl] Release_conn(1) [OF _ refl])

interpretation machine_pool: step_system empty_manager machine_step machine_inv
proof
  show "machine_inv empty_manager"
    using conn_queue.ok_empty by (simp add: machine_inv_def sockets_ok_def cm_inv_def cm_items_ok_def cm_routes_ok_def cm_loads_ok_def
        cm_gauges_ok_def empty_manager_def)
qed (rule machine_step_inv)

section \<open>Properties of the manager\<close>

text \<open>C41. Whatever the senders, the callbacks of the connections and the ends of sessions do, in whatever order: the queue holds each
  stored connection once, a session has a route exactly when the connection it leads to lists it, the load of a connection is the number
  of its sessions, and the two gauges are the numbers of stored connections and of routes.\<close>

theorem machine_routes_exact:
  assumes "m = fold machine_step ops empty_manager"
  shows "distinct (cm_active m) \<and> set (cm_active m) = ran (cm_connections m) \<and>
    (\<forall>k i. cm_routes m k = Some i \<longleftrightarrow> i \<in> ran (cm_connections m) \<and> k \<in> hc_sessions (hc_at m i)) \<and>
    (\<forall>i\<in>ran (cm_connections m). hc_load (hc_at m i) = int (card (hc_sessions (hc_at m i)))) \<and>
    cm_mActive m = int (card (dom (cm_connections m))) \<and> cm_mRouted m = int (card (dom (cm_routes m)))"
proof -
  have inv: "cm_inv m" using machine_pool.inv_reachable [of ops] by (simp add: assms machine_inv_def)
  note I = cm_invD [OF inv]
  have act: "set (cm_active m) = ran (cm_connections m)" using I(1) by (simp add: cm_items_ok_def)
  have d: "distinct (cm_active m)" using conn_queue.ok_distinct [OF I(5)] by simp
  have r: "\<forall>k i. cm_routes m k = Some i \<longleftrightarrow> i \<in> ran (cm_connections m) \<and> k \<in> hc_sessions (hc_at m i)"
    using I(2) unfolding cm_routes_ok_def act by (rule conjunct1)
  have l: "\<forall>i\<in>ran (cm_connections m). hc_load (hc_at m i) = int (card (hc_sessions (hc_at m i)))"
    using I(3) unfolding cm_loads_ok_def act .
  show ?thesis using I(4) act d r l unfolding cm_gauges_ok_def by blast
qed

text \<open>C42. \<open>Select\<close> always returns. A session whose route leads to an active connection keeps it and nothing changes.
  Otherwise it gets the active connection that comes first by load and age, or nothing when no stored connection is active;
  connections that are not active are dropped with their routes, and no other session loses an active connection.\<close>

theorem machine_select_least:
  assumes "m = fold machine_step ops empty_manager"
  shows "\<exists>m' r. Select key m = Some (m', r) \<and>
    (if \<exists>i. cm_routes m key = Some i \<and> item_live m i
     then m' = m \<and> (\<exists>c i. r = Some c \<and> live_conn m c i \<and> cm_routes m key = Some i)
     else others_kept key m m' \<and> assigned key m m' r)"
proof -
  have inv: "cm_inv m" using machine_pool.inv_reachable [of ops] by (simp add: assms machine_inv_def)
  note I = cm_invD [OF inv]
  obtain m' r where r: "Select key m = Some (m', r)"
    "case cm_routes m key of
       Some i \<Rightarrow> if item_live m i then m' = m \<and> r = Some (hc_conn (hc_at m i)) else selected key m m' r
     | None \<Rightarrow> selected key m m' r" using Select_ok [OF inv, of key] by blast
  show ?thesis
  proof (cases "\<exists>i. cm_routes m key = Some i \<and> item_live m i")
    case True
    then obtain i where i: "cm_routes m key = Some i" "item_live m i" by blast
    have "live_conn m (hc_conn (hc_at m i)) i"
      using stored_item(2) [OF I(1)] route_active [OF I(2) i(1)] i(2) by (simp add: live_conn_def)
    then show ?thesis using r i by auto
  next
    case False
    then have "selected key m m' r" using r(2) by (auto split: option.splits if_splits)
    then show ?thesis using r(1) selectedD [of key m m' r] unfolding if_not_P [OF False] by blast
  qed
qed

text \<open>C43. The end of a session: \<open>onSessionDelete\<close> always returns and leaves no route behind. The gateway gets one frame, the key with a Close packet, over a
  connection that was active, or none; it does get it when there is an active connection and the first write succeeds, and also when
  there are two and the second write succeeds.\<close>

theorem session_delete_notifies:
  assumes "m = fold machine_step ops empty_manager" "packet_blank pk"
  shows "\<exists>m' told. onSessionDelete pk io1 io2 key m = Some (m', told) \<and> cm_routes m' key = None \<and>
    (if told then \<exists>c i. live_conn m c i \<and> cm_sent m' = cm_sent m @ [(c, key @ [0x56, 0x43, 4, 0, 0, 0, 0, 0])] else cm_sent m' = cm_sent m) \<and>
    ((\<exists>c i. live_conn m c i) \<and> io1 \<longrightarrow> told) \<and>
    ((\<exists>c i c' i'. live_conn m c i \<and> live_conn m c' i' \<and> c \<noteq> c') \<and> io2 \<longrightarrow> told)"
proof -
  have inv: "machine_inv m" using machine_pool.inv_reachable [of ops] by (simp add: assms(1))
  have frame: "close_frame key pk = key @ [0x56, 0x43, 4, 0, 0, 0, 0, 0]"
    using assms(2) by (simp add: close_frame_def close_packet_def Packet_Header_def Let_def packet_blank_def PutUint32_def)
  show ?thesis
  proof (rule delete_cases [OF inv, of pk io1 io2 key])
    fix m' told
    assume d: "onSessionDelete pk io1 io2 key m = Some (m', told)" "cm_routes m' key = None"
      "if told then \<exists>c i. live_conn m c i \<and> cm_sent m' = cm_sent m @ [(c, close_frame key pk)] else cm_sent m' = cm_sent m"
      "\<And>c i. live_conn m c i \<Longrightarrow> io1 \<Longrightarrow> told"
      "\<And>c i c' i'. live_conn m c i \<Longrightarrow> live_conn m c' i' \<Longrightarrow> c \<noteq> c' \<Longrightarrow> io2 \<Longrightarrow> told"
    have "(\<exists>c i. live_conn m c i) \<and> io1 \<longrightarrow> told" using d(4) by blast
    moreover have "(\<exists>c i c' i'. live_conn m c i \<and> live_conn m c' i' \<and> c \<noteq> c') \<and> io2 \<longrightarrow> told" using d(5) by blast
    ultimately show ?thesis using d(1,2,3) unfolding frame by blast
  qed
qed


section \<open>Concrete histories\<close>

definition sample_machine_ops :: "machine_op list" where
  "sample_machine_ops = [MoNew, MoOpen 0, MoStore 0, MoNew, MoOpen 1, MoStore 1, MoSelect [1], MoSelect [2], MoSelect [3], MoClosing 0, MoLookup [1]]"

definition sample_machine :: ConnectionManager where
  "sample_machine = fold machine_step sample_machine_ops empty_manager"

lemma sample_machine_values:
  "cm_mRouted sample_machine = 1" "cm_mActive sample_machine = 1" "cm_routes sample_machine [2] = Some 1" "cm_routes sample_machine [3] = None"
  "live_conn sample_machine 1 1" "cm_sent sample_machine = []"
  unfolding live_conn_def by code_simp+

theorem machine_routes_exact_witness:
  "card (dom (cm_routes sample_machine)) = 1 \<and> card (dom (cm_connections sample_machine)) = 1"
  using machine_routes_exact [OF sample_machine_def] sample_machine_values(1,2) by linarith

theorem machine_select_least_witness:
  "\<exists>m' c i. Select [3] sample_machine = Some (m', Some c) \<and> live_conn sample_machine c i \<and> cm_routes m' [3] = Some i"
proof -
  obtain m' r where "Select [3] sample_machine = Some (m', r)" "assigned [3] sample_machine m' r"
    using machine_select_least [OF sample_machine_def, of "[3]"] sample_machine_values(4) by auto
  then show ?thesis using sample_machine_values(5) by (cases r) (auto simp: assigned_def)
qed

theorem session_delete_notifies_witness:
  "\<exists>m' c. onSessionDelete new_packet True False [2] sample_machine = Some (m', True) \<and> cm_routes m' [2] = None \<and>
     cm_sent m' = [(c, [2, 0x56, 0x43, 4, 0, 0, 0, 0, 0])]"
proof -
  obtain m' told where d: "onSessionDelete new_packet True False [2] sample_machine = Some (m', told)" "cm_routes m' [2] = None"
    "if told then \<exists>c i. live_conn sample_machine c i \<and> cm_sent m' = cm_sent sample_machine @ [(c, [2] @ [0x56, 0x43, 4, 0, 0, 0, 0, 0])]
     else cm_sent m' = cm_sent sample_machine"
    "(\<exists>c i. live_conn sample_machine c i) \<and> True \<longrightarrow> told"
    using session_delete_notifies [OF sample_machine_def packets.blank_fresh, of True False "[2]"] by blast
  have told using d(4) sample_machine_values(5) by blast
  then show ?thesis using d(1,2,3) sample_machine_values(6) by auto
qed


section \<open>The sender of a session\<close>

text \<open>
  \<open>sessionWriteLoop\<close> of \<open>biz/handler/session.go\<close>: one packet received from the workflow's output. The connection of the last packet is
  kept as long as it is active.
\<close>

definition write_packet :: "bool \<Rightarrow> SessionKey \<Rightarrow> Packet \<Rightarrow> nat option \<Rightarrow> ConnectionManager \<Rightarrow> (ConnectionManager \<times> nat option) option" where
  "write_packet io key packet conn m =
     (case (case conn of None \<Rightarrow> Select key m
            | Some c \<Rightarrow> if conn_state m c \<noteq> ConnectionActive then Select key m else Some (m, Some c)) of
        None \<Rightarrow> None
      | Some (m1, None) \<Rightarrow> Some (m1, None)
      | Some (m1, Some c) \<Rightarrow> Some (fst (machine_Write io c key packet m1), Some c))"

text \<open>C44. A packet that the sender takes from the output while its session is being deleted brings the route back: the observers run
  before the workflow is stopped, so the session has been reported as closed and its route released, but when the sender has no
  connection yet its write enters the session again, and the load of that connection stays too high until the connection closes.\<close>

theorem late_packet_restores_route:
  assumes "m = fold machine_step ops empty_manager" "onSessionDelete pk io1 io2 key m = Some (m1, told)" "live_conn m1 c i"
  shows "cm_routes m1 key = None \<and>
    (\<exists>m2 c' j. write_packet io key packet None m1 = Some (m2, Some c') \<and> cm_routes m2 key = Some j \<and> live_conn m1 c' j)"
proof -
  have inv: "machine_inv m" using machine_pool.inv_reachable [of ops] by (simp add: assms(1))
  have inv1: "machine_inv m1" and none: "cm_routes m1 key = None"
    using delete_cases [OF inv, of pk io1 io2 key] assms(2) by (metis option.inject prod.inject)+
  obtain m' r where s: "Select key m1 = Some (m', r)" "machine_inv m'" "routed key m1 m' r" by (rule Select_routed [OF inv1])
  have "r \<noteq> None" using s(3) assms(3) by (cases r) (auto simp: routed_def)
  then obtain c' where r: "r = Some c'" by blast
  obtain j where j: "live_conn m1 c' j" "cm_routes m' key = Some j" using s(3) r by (auto simp: routed_def)
  have "cm_routes (fst (machine_Write io c' key packet m')) = cm_routes m'" by (simp add: machine_Write_def Let_def)
  moreover have "write_packet io key packet None m1 = Some (fst (machine_Write io c' key packet m'), Some c')"
    by (simp add: write_packet_def s(1) r)
  ultimately show ?thesis using none j by simp
qed

theorem late_packet_restores_route_witness:
  "\<exists>m1 m2 c'. onSessionDelete new_packet True True [2] sample_machine = Some (m1, True) \<and> cm_routes m1 [2] = None \<and>
     write_packet True [2] new_packet None m1 = Some (m2, Some c') \<and> cm_routes m2 [2] \<noteq> None"
proof -
  define r where "r = onSessionDelete new_packet True True [2] sample_machine"
  have e: "r \<noteq> None" "snd (the r)" "live_conn (fst (the r)) 1 1" unfolding r_def live_conn_def by code_simp+
  then obtain m1 where m1: "r = Some (m1, True)" "live_conn m1 1 1" by (cases r) auto
  then show ?thesis
    using late_packet_restores_route [OF sample_machine_def m1(1) [unfolded r_def] m1(2), of True new_packet] unfolding r_def by auto
qed

section \<open>Packets for sessions\<close>

text \<open>
  \<open>handleMessage\<close> acts on the session manager and, through its observer, on the connection manager. The record holds what comes from
  outside: the number of the observer, the pools' choices, the outcomes of the writes and the time.
\<close>

record handle_env =
  he_fn :: nat
  he_packet :: Packet
  he_io1 :: bool
  he_io2 :: bool
  he_pick :: "nat option"
  he_now :: int

abbreviation (input) AudioSampleRate :: int where "AudioSampleRate \<equiv> 16000"
abbreviation (input) AudioChannels :: int where "AudioChannels \<equiv> 1"

definition handle_audio :: "nat option \<Rightarrow> bytes \<Rightarrow> ('p, 'v) workflow \<Rightarrow> ('p, 'v) workflow" where
  "handle_audio pick payload w =
     (case NewAudio pick (''audio'', AudioSampleRate, AudioChannels) (en_audio (wf_engine w)) of
        (a, h) \<Rightarrow>
          let h1 = (case Audio_SetBytes payload (mh_objs h ! a) of Inl _ \<Rightarrow> h | Inr b \<Rightarrow> mh_update a (\<lambda>_. b) h);
              w1 = upd_engine (\<lambda>en. en\<lparr>en_audio := Audio_ReadOnly a h1\<rparr>) w
          in case (SendToHead (EvAudio a) w1 :: _ \<times> unit workflow_error option \<times> bool) of
               (w2, None, _) \<Rightarrow> w2
             | (w2, Some _, _) \<Rightarrow> upd_engine (release_ev (EvAudio a)) w2)"

fun run_deleted :: "handle_env \<Rightarrow> Session list \<Rightarrow> (nat \<times> nat) list \<Rightarrow> ConnectionManager \<Rightarrow> ConnectionManager option" where
  "run_deleted env sessions [] m = Some m"
| "run_deleted env sessions ((fn, s) # calls) m =
     (if fn = he_fn env
      then case onSessionDelete (he_packet env) (he_io1 env) (he_io2 env) (ss_Key (sessions ! s)) m of
             None \<Rightarrow> None | Some (m', _) \<Rightarrow> run_deleted env sessions calls m'
      else run_deleted env sessions calls m)"

definition handleMessage ::
  "handle_env \<Rightarrow> SessionKey \<Rightarrow> Packet \<Rightarrow> ('p, 'v) SessionManager \<times> ConnectionManager \<Rightarrow> (('p, 'v) SessionManager \<times> ConnectionManager) option" where
  "handleMessage env key packet = (\<lambda>(sm, m).
     case LoadSession (he_now env) key sm of
       (sm1, None) \<Rightarrow> Some (sm1, m)
     | (sm1, Some s) \<Rightarrow>
         (let sm2 = upd_session s (UpdateActivity (he_now env)) sm1;
              i = ss_Workflow (mg_heap sm2 ! s)
          in if pk_Type packet = TypeAudio then Some (workflow_at i (handle_audio (he_pick env) (contents (pk_Payload packet))) sm2, m)
             else if pk_Type packet = TypePause then Some (workflow_at i (\<lambda>w. fst (Pause w :: _ \<times> unit workflow_error option \<times> nat list)) sm2, m)
             else if pk_Type packet = TypeResume then Some (workflow_at i (\<lambda>w. fst (Resume w :: _ \<times> unit workflow_error option \<times> nat list)) sm2, m)
             else if pk_Type packet = TypeClose
             then case RemoveSession (ss_Key (mg_heap sm2 ! s)) sm2 of
                    None \<Rightarrow> None
                  | Some (sm3, calls) \<Rightarrow> map_option (\<lambda>m'. (sm3, m')) (run_deleted env (mg_heap sm3) calls m)
             else Some (sm2, m)))"


text \<open>No operation on sessions touches the registered observers.\<close>

lemma stop_sessions_observers:
  "stop_sessions ss sm = Some sm' \<Longrightarrow> mg_onDeleted sm' = mg_onDeleted sm \<and> mg_onDeletedCount sm' = mg_onDeletedCount sm"
proof (induction ss arbitrary: sm)
  case (Cons s ss)
  then obtain sm1 where s: "stop_workflow (ss_Workflow (mg_heap sm ! s)) sm = Some sm1" "stop_sessions ss sm1 = Some sm'"
    by (auto simp: bind_eq_Some_conv)
  have "mg_onDeleted sm1 = mg_onDeleted sm \<and> mg_onDeletedCount sm1 = mg_onDeletedCount sm" using s(1) by (auto simp: stop_workflow_def)
  then show ?case using Cons.IH [OF s(2)] by simp
qed simp

lemma create_observers:
  "mg_onDeleted (fst (CreateSession env ctx key name properties sm)) = mg_onDeleted sm"
  "mg_onDeletedCount (fst (CreateSession env ctx key name properties sm)) = mg_onDeletedCount sm"
  by (simp_all add: CreateSession_def Let_def split: sum.split prod.split option.split)

lemma session_step_observers:
  assumes "session_step op sm = Some sm'"
  shows "mg_onDeleted sm' = mg_onDeleted sm \<and> mg_onDeletedCount sm' = mg_onDeletedCount sm"
proof (cases op)
  case (SoRemove key)
  then show ?thesis
    using assms by (auto simp: RemoveSession_def Let_def stop_workflow_def split: option.splits if_splits)
next
  case (SoCleanup now order)
  then show ?thesis using assms by (auto simp: Cleanup_def Let_def dest!: stop_sessions_observers)
next
  case (SoStop order)
  then show ?thesis using assms by (auto simp: SM_Stop_def Let_def dest!: stop_sessions_observers)
qed (use assms in \<open>auto simp: create_observers LoadSession_def upd_session_def workflow_at_def split: option.splits\<close>)

lemma session_run_observers:
  "session_run ops sm = Some sm' \<Longrightarrow> mg_onDeleted sm' = mg_onDeleted sm \<and> mg_onDeletedCount sm' = mg_onDeletedCount sm"
proof (induction ops arbitrary: sm)
  case (Cons op ops)
  then obtain sm1 where s: "session_step op sm = Some sm1" "session_run ops sm1 = Some sm'" by (auto simp: bind_eq_Some_conv)
  then show ?case using Cons.IH [OF s(2)] session_step_observers [OF s(1)] by simp
qed simp

lemma registered_manager:
  assumes "(m, sm0) = NewConnectionManager fn (NewSessionManager timeout)"
  shows "sess_inv sm0" "observer_snapshot (mg_onDeleted sm0) (mg_onDeletedCount sm0) = [fn]"
  using assms new_manager_inv [of timeout]
  by (simp_all add: NewConnectionManager_def AddDeletedObserver_def NewSessionManager_def addObserver_def sess_inv_def owned_def
      observer_snapshot_def numeral_eq_Suc List.map_filter_def)

lemma remove_stops:
  assumes inv: "sess_inv sm" and s: "mg_sessions sm key = Some s" and r: "RemoveSession key sm = Some (sm', calls)"
  shows "wf_state (mg_wfs sm' ! ss_Workflow (mg_heap sm ! s)) = Stopped" "mg_heap sm' = mg_heap sm"
    "calls = map (\<lambda>fn. (fn, s)) (observer_snapshot (mg_onDeleted sm) (mg_onDeletedCount sm))"
proof -
  let ?i = "ss_Workflow (mg_heap sm ! s)"
  have b: "s < length (mg_heap sm)" using inv s by (auto simp: sess_inv_def)
  then have i: "?i < length (mg_wfs sm)" "closed_stopped (mg_wfs sm ! ?i)" using inv by (auto simp: sess_inv_def)
  obtain w' where w: "Stop (mg_wfs sm ! ?i) = Some w'" "wf_state w' = Stopped" by (rule Stop_closed_stopped [OF i(2)])
  show "wf_state (mg_wfs sm' ! ?i) = Stopped" "mg_heap sm' = mg_heap sm"
    "calls = map (\<lambda>fn. (fn, s)) (observer_snapshot (mg_onDeleted sm) (mg_onDeletedCount sm))"
    using r s w i(1) by (auto simp: RemoveSession_def Let_def stop_workflow_def split: if_splits)
qed

text \<open>C45. A Close packet from the gateway ends its session on the machine: the session leaves the table, its workflow is stopped, its
  route is released, and when a connection is active and takes the write, the gateway gets exactly one Close frame for that key. A packet
  for a session that does not exist changes nothing.\<close>

theorem close_packet_ends_session:
  assumes "(m0, sm0) = NewConnectionManager (he_fn env) (NewSessionManager timeout)" "all_admissible ops sm0" "session_run ops sm0 = Some sm"
    and "m = fold machine_step mops m0" "packet_blank (he_packet env)" "pk_Type packet = TypeClose"
  shows "case mg_sessions sm key of
      None \<Rightarrow> handleMessage env key packet (sm, m) = Some (sm, m)
    | Some s \<Rightarrow> \<exists>sm' m'. handleMessage env key packet (sm, m) = Some (sm', m') \<and> mg_sessions sm' = (mg_sessions sm)(key := None) \<and>
        wf_state (mg_wfs sm' ! ss_Workflow (mg_heap sm ! s)) = Stopped \<and> cm_routes m' key = None \<and>
        ((\<exists>c i. live_conn m c i) \<and> he_io1 env \<longrightarrow>
           (\<exists>c i. live_conn m c i \<and> cm_sent m' = cm_sent m @ [(c, close_frame key (he_packet env))]))"
proof (cases "mg_sessions sm key")
  case None
  then show ?thesis by (simp add: handleMessage_def LoadSession_def)
next
  case (Some s)
  have inv: "sess_inv sm" using session_run_inv [OF registered_manager(1) [OF assms(1)] assms(2)] assms(3) by auto
  have minv: "machine_inv m"
    using machine_pool.inv_reachable [of mops] assms(1) by (simp add: assms(4) NewConnectionManager_def)
  let ?upd = "upd_session s (UpdateActivity (he_now env))"
  define sm2 where "sm2 = ?upd (?upd sm)"
  have inv2: "sess_inv sm2"
    unfolding sm2_def by (intro upd_session_inv inv) (simp_all add: UpdateActivity_def)
  have key: "mg_sessions sm2 = mg_sessions sm" "mg_onDeleted sm2 = mg_onDeleted sm" "mg_onDeletedCount sm2 = mg_onDeletedCount sm"
    by (simp_all add: sm2_def upd_session_def)
  have s2: "mg_sessions sm2 key = Some s" using Some key(1) by simp
  have b: "s < length (mg_heap sm)" "ss_Key (mg_heap sm ! s) = key" using inv Some by (auto simp: sess_inv_def)
  have same: "ss_Key (mg_heap sm2 ! s) = key" "ss_Workflow (mg_heap sm2 ! s) = ss_Workflow (mg_heap sm ! s)"
    using b by (simp_all add: sm2_def upd_session_def UpdateActivity_def)
  obtain sm3 calls where r: "RemoveSession key sm2 = Some (sm3, calls)" "mg_sessions sm3 = (mg_sessions sm2)(key := None)"
    using remove_ok [OF inv2, of key] by blast
  note rs = remove_stops [OF inv2 s2 r(1)]
  have obs: "observer_snapshot (mg_onDeleted sm) (mg_onDeletedCount sm) = [he_fn env]"
    using session_run_observers [OF assms(3)] registered_manager(2) [OF assms(1)] by simp
  have calls: "calls = [(he_fn env, s)]" using rs(3) obs by (simp add: key)
  show ?thesis
  proof (rule delete_cases [OF minv, of "he_packet env" "he_io1 env" "he_io2 env" key])
    fix m' told
    assume d: "onSessionDelete (he_packet env) (he_io1 env) (he_io2 env) key m = Some (m', told)" "cm_routes m' key = None"
      "if told then \<exists>c i. live_conn m c i \<and> cm_sent m' = cm_sent m @ [(c, close_frame key (he_packet env))] else cm_sent m' = cm_sent m"
      "\<And>c i. live_conn m c i \<Longrightarrow> he_io1 env \<Longrightarrow> told"
    have "handleMessage env key packet (sm, m) = Some (sm3, m')"
      using assms(6) Some r(1) same(1) calls rs(2) d(1)
      by (simp add: handleMessage_def LoadSession_def Let_def sm2_def [symmetric])
    moreover have "(\<exists>c i. live_conn m c i) \<and> he_io1 env \<longrightarrow>
        (\<exists>c i. live_conn m c i \<and> cm_sent m' = cm_sent m @ [(c, close_frame key (he_packet env))])"
      using d(3,4) by (cases told) auto
    ultimately show ?thesis using Some r(2) key(1) rs(1) same(2) d(2) by simp
  qed
qed


definition sample_handle_env :: handle_env where
  "sample_handle_env = \<lparr>he_fn = 7, he_packet = new_packet, he_io1 = True, he_io2 = True, he_pick = None, he_now = 5000\<rparr>"

definition sample_machine_sessions :: "(unit, (unit, unit) any) SessionManager" where
  "sample_machine_sessions = snd (NewConnectionManager 7 (NewSessionManager 60000))"

lemma sample_machine_session:
  "session_run [SoCreate (sample_env 1000) None [2] ''w'' Map.empty] sample_machine_sessions \<noteq> None"
  "mg_sessions (the (session_run [SoCreate (sample_env 1000) None [2] ''w'' Map.empty] sample_machine_sessions)) [2] = Some 0"
  "mg_sessions sample_machine_sessions [2] = None"
  by code_simp+

theorem close_packet_ends_session_witness:
  "\<exists>sm sm' m' c. mg_sessions sm [2] = Some 0 \<and>
     handleMessage sample_handle_env [2] (close_packet new_packet) (sm :: (unit, (unit, unit) any) SessionManager, sample_machine) = Some (sm', m') \<and>
     mg_sessions sm' [2] = None \<and> cm_routes m' [2] = None \<and> cm_sent m' = [(c, close_frame [2] new_packet)]"
proof -
  let ?op = "SoCreate (sample_env 1000) None [2] ''w'' Map.empty :: (unit, unit, unit) session_op"
  obtain sm where sm: "session_run [?op] sample_machine_sessions = Some sm" "mg_sessions sm [2] = Some 0"
    using sample_machine_session(1,2) by auto
  have new: "(empty_manager, sample_machine_sessions) = NewConnectionManager (he_fn sample_handle_env) (NewSessionManager 60000)"
    by (simp add: sample_handle_env_def sample_machine_sessions_def NewConnectionManager_def)
  have ad: "all_admissible [?op] sample_machine_sessions" using sample_machine_session(3) by simp
  have blank: "packet_blank (he_packet sample_handle_env)" by (simp add: sample_handle_env_def packets.blank_fresh)
  have close: "pk_Type (close_packet new_packet) = TypeClose" by (simp add: close_packet_def)
  show ?thesis
    using close_packet_ends_session [OF new ad sm(1) sample_machine_def blank close, of "[2]"] sm(2) sample_machine_values(5,6)
    by (auto simp: sample_handle_env_def)
qed

end
