(* ===== verification/Spec2Isabelle.thy ===== *)
theory Spec2Isabelle
  imports Packet Multi Sessions GatewayPool MachinePool
begin

text \<open>
  Voce: a verification development.

  \<^bold>\<open>The program.\<close> Voce runs voice workflows. A workflow is a graph of plugins: nodes receive events
  (signals, payloads, audio, video) from upstream nodes, hand them to their plugin and send what the
  plugin produces to the downstream nodes. An engine process (the machine) holds the workflows of
  its clients as sessions; a gateway process accepts clients and forwards their packets over a pool of
  connections to a machine. The repository's parts depend on each other from the bottom up:

  \<^item> \<open>pkg/buf\<close>, \<open>pkg/pool\<close>, \<open>pkg/syncx\<close>: buffers, object pools, channel sends, the sharded map;
  \<^item> \<open>internal/protocol\<close>: the packet format between client, gateway and machine;
  \<^item> \<open>internal/schema\<close>: events, with pooled and reference-counted audio and video;
  \<^item> \<open>internal/engine\<close>: contracts between plugins, the plugin registry, the validation of a configuration,
    nodes and their scheduler, the workflow, parallel tracks, configuration stores, sessions;
  \<^item> \<open>internal/gateway\<close>: the pool of connections to a machine.

  \<^bold>\<open>Theories and sources.\<close>

  \<^item> \<open>Prelude\<close>: bytes, results and generic lemmas on lists; the locale \<open>step_system\<close>, which gives the
    induction over histories that all the invariants below use.
  \<^item> \<open>Slices\<close> (\<open>pkg/buf/buffer.go\<close>) and \<open>Pool\<close> (\<open>pkg/pool/pool.go\<close>): slices with a length and a capacity, the
    recycling buffer, and a pool whose \<open>Acquire\<close> returns any parked object or a new one. The locale
    \<open>recycler\<close> shows once that what a pool returns is blank; packets are an instance.
  \<^item> \<open>Syncx\<close> (\<open>pkg/syncx/chan.go\<close>, \<open>sharded_map.go\<close>): a channel is a record of buffer, capacity and closed flag;
    the sends return whether the value was sent, refused, or the sender is parked. The sharded map is a list of
    maps; the locale \<open>key_map\<close> states its contract.
  \<^item> \<open>Packet\<close> (\<open>internal/protocol/packet.go\<close>, \<open>types.go\<close>): \<open>Marshal\<close>, \<open>Unmarshal\<close>, \<open>UnmarshalHeader\<close>,
    \<open>SetPayload\<close>, session keys; sizes are 32-bit words.
  \<^item> \<open>Props\<close> (\<open>internal/schema/interface.go\<close>, \<open>signal.go\<close>, \<open>payload.go\<close>, \<open>helper.go\<close>): property lists and read-only views.
  \<^item> \<open>Refcount\<close>, \<open>Media\<close> (\<open>internal/schema/audio.go\<close>, \<open>video.go\<close>): objects live in a heap indexed by address, with
    their pools and the gauge of live objects. The locale \<open>refcounted\<close> is the contract of \<open>Retain\<close> and \<open>Release\<close>, \<open>shared_media\<close>
    that of an object shared read-only; both are interpreted for audio and for video.
  \<^item> \<open>Contract\<close> (\<open>internal/engine/property.go\<close>), \<open>Registry\<close> (\<open>builder.go\<close>, \<open>resource.go\<close>, \<open>store.go\<close>, \<open>plugin.go\<close>),
    \<open>Graph\<close> (\<open>config.go\<close>, \<open>graph.go\<close>): what plugins declare, how names resolve to builders, which
    configurations are accepted and in which order the nodes start.
  \<^item> \<open>Node\<close> (\<open>engine.go\<close>, \<open>node.go\<close>, \<open>node_loop.go\<close>), \<open>Scheduler\<close> (\<open>scheduler.go\<close>, \<open>node_scheduler.go\<close>),
    \<open>Delivery\<close>: the runtime graph. The state \<open>engine\<close> holds the nodes with their routing tables and queues, the workers of the
    scheduler and the media heaps; \<open>engine_step\<close> is one step of any goroutine.
  \<^item> \<open>Workflow\<close> (\<open>workflow.go\<close>): \<open>NewWorkflow\<close>, \<open>Start\<close>, \<open>Stop\<close>, \<open>Pause\<close>, \<open>Resume\<close>, the entry points \<open>SendToHead\<close>, \<open>SendToNode\<close>,
    \<open>SendToNodeWithName\<close>, \<open>Broadcast\<close>, and \<open>Write\<close> to the output channel. \<open>Start\<close>, \<open>Stop\<close> and \<open>Write\<close> are split at their
    atomic operations so that their interleavings are histories of steps.
  \<^item> \<open>Multi\<close> (\<open>multi.go\<close>): one track per event kind with its drop strategy, reader goroutine and epoch counter.
  \<^item> \<open>ConfigStore\<close> (\<open>manager.go\<close>): the file store and the Redis store. The locale \<open>config_manager\<close> is the abstract
    configuration map, \<open>two_managers\<close> relates two implementations of it.
  \<^item> \<open>Sessions\<close> (\<open>session.go\<close>): the session manager with its observers and the merging of configurations.
  \<^item> \<open>MinHeap\<close>, \<open>GatewayPool\<close> (\<open>internal/gateway/pool.go\<close>, callbacks of \<open>connection.go\<close>): \<open>container/heap\<close> as the connection queue
    uses it, behind the locale \<open>priority_queue\<close>, and the pool over it.

  \<^bold>\<open>How code becomes definitions.\<close> A struct is a record and a pointer to it an index into a list in
  the state. Code under one mutex, or one atomic operation, is one function from state to state; goroutines are
  interleaved by folding a step function over a list of operations, and an operation that its goroutine could not
  perform in that state leaves it unchanged. A send that would block returns \<open>Parked\<close> and is tried again by
  a later step. Contexts are \<open>ctx_err option\<close>. Time is an integer argument, in milliseconds unless the source uses
  seconds. Go iterates over maps in any order, so the order is an argument and theorems hold for all orders.
  Errors are values of a datatype per component, returned through \<open>option\<close> or a sum; a panic is a flag or \<open>None\<close>.

  \<^bold>\<open>What the lemmas show.\<close>

  \<^item> Ownership: reference counts are exact for single objects (\<open>Media\<close>), for the runtime graph (\<open>Delivery\<close>) and for a
    workflow under any interleaving (\<open>Workflow\<close>); tracks release every object once (\<open>Multi\<close>); packets
    written to a workflow are conserved.
  \<^item> Configuration: \<open>BuildGraph\<close> and \<open>ValidateProperties\<close> decide declarative conditions, the start order is
    topological away from cycles, the routing tables are the configured edges.
  \<^item> Stores and sessions: both configuration stores refine one abstract map; a restart restores the file store;
    session accounting and clean-up are exact.
  \<^item> Gateway pool: routes, loads and gauges agree under any interleaving, selection is least-first, no session waits
    beside a free place, limits hold, clean-up takes no connection from a session.
  \<^item> Codec: round trips in both directions, sizes at the 32-bit limit.
  \<^item> Behaviour that departs from the comments or the intent is stated as theorems of kind error
    (for instance the activity stamp in seconds, a \<open>Stop\<close> that overlaps with \<open>Start\<close>, the video edge).

  \<^bold>\<open>Loops, bounds and fuel.\<close> Loops over lists are structural recursion. \<open>kahn\<close> (the topological sort), \<open>heap_up\<close> and
  \<open>heap_down\<close> have termination proofs. The
  retry loop \<open>pushDropOldest\<close> may not end, so it is a \<open>partial_function\<close> and the theorem says exactly when it
  returns. \<open>start_loop\<close> of the gateway pool takes the configured minimum as fuel: every round reserves
  one dial and the loop ends when that many exist.

  \<^bold>\<open>Parameters.\<close> JSON, UUIDs, the file system, the Redis client, the reflection-based decoding of plugin
  configurations and the plugins' own callbacks are arguments of the definitions; where a theorem relies on their behaviour
  it is a hypothesis, discharged in a witness with a concrete function.

  \<^bold>\<open>Not modelled.\<close> HTTP, WebSocket and gRPC endpoints (\<open>biz\<close>, \<open>internal/remote\<close>, \<open>internal/gateway/handler.go\<close>) and start-up
  code (\<open>cmd\<close>, \<open>config\<close>) consist of calls into frameworks. The built-in plugins (\<open>internal/plugins\<close>) speak the protocols of
  external services, \<open>pkg/audioproc\<close> is floating-point signal processing. \<open>internal/schema/marshal.go\<close> works
  through Go's reflection, which has no counterpart here. Metrics and logging have no effect on the modelled state,
  except for the gauges that the invariants mention. Generated code (\<open>api\<close>) and other languages (\<open>clients\<close>, \<open>sdks\<close>) are left out.
\<close>

end
